(* ===== verification/Dns_Prelude.thy ===== *)
theory Dns_Prelude
  imports Complex_Main "HOL-Library.Word" "HOL-Library.Multiset" "HOL-Library.Signed_Division"
begin

text \<open>
  Shared vocabulary of the development: the machine types of the C sources, the result
  type of code that can stop abnormally (a failed \<open>assert\<close>, a call of libucw's \<open>die\<close>, a
  use of a bad pointer, a wait on a queue that nobody will ever fill), and the generic
  lemmas on lists, multisets and results that several components use.

  The sources are compiled without \<open>NDEBUG\<close> (\<^verbatim>\<open>src/Makefile\<close> sets \<open>-O2 -g\<close>), so a failed
  \<open>assert\<close> aborts the process; it is a value of the model, never silently skipped.
\<close>

unbundle bit_operations_syntax

section \<open>Machine types\<close>

type_synonym u8 = "8 word"
type_synonym u16 = "16 word"
type_synonym u32 = "32 word"
type_synonym u64 = "64 word"

text \<open>Addresses of heap objects (\<^verbatim>\<open>struct dns_packet *\<close>). A null pointer is \<open>None\<close>.\<close>

type_synonym pid = nat

section \<open>Results of code that can stop\<close>

datatype stop =
    Assert_failed string  \<comment> \<open>\<open>assert\<close> of the C source\<close>
  | Died string           \<comment> \<open>libucw \<open>die()\<close>\<close>
  | Bad_pointer string    \<comment> \<open>null or freed pointer dereferenced\<close>
  | Blocked               \<comment> \<open>waits for ever on a condition nobody signals\<close>

type_synonym 'a res = "stop + 'a"

definition bindr :: "'a res \<Rightarrow> ('a \<Rightarrow> 'b res) \<Rightarrow> 'b res" where
  "bindr m f = (case m of Inl e \<Rightarrow> Inl e | Inr a \<Rightarrow> f a)"

definition assertr :: "bool \<Rightarrow> string \<Rightarrow> unit res" where
  "assertr b s = (if b then Inr () else Inl (Assert_failed s))"

text \<open>Reading through a pointer: an address the heap does not hold is a bad pointer.\<close>

definition deref :: "(pid \<rightharpoonup> 'a) \<Rightarrow> pid \<Rightarrow> 'a res" where
  "deref h p = (case h p of None \<Rightarrow> Inl (Bad_pointer ''deref'') | Some x \<Rightarrow> Inr x)"

text \<open>
  Code with loops or recursion whose end is not evident has a result of type \<open>run\<close>:
  \<open>None\<close> is a computation that never returns.
\<close>

type_synonym 'a run = "'a res option"

definition bindo :: "'a run \<Rightarrow> ('a \<Rightarrow> 'b run) \<Rightarrow> 'b run" where
  "bindo m f = Option.bind m (\<lambda>r. case r of Inl e \<Rightarrow> Some (Inl e) | Inr a \<Rightarrow> f a)"

section \<open>Lemmas on results\<close>

named_theorems res_simps "rewrite rules for results of code that can stop"

lemma bindr_simps [simp, res_simps]:
  "bindr (Inr a) f = f a" "bindr (Inl e) f = Inl e"
  by (simp_all add: bindr_def)

lemma bindr_Inr_iff [res_simps]: "bindr m f = Inr b \<longleftrightarrow> (\<exists>a. m = Inr a \<and> f a = Inr b)"
  by (cases m) auto

lemma bindr_cong [fundef_cong]:
  "m = m' \<Longrightarrow> (\<And>a. m' = Inr a \<Longrightarrow> f a = f' a) \<Longrightarrow> bindr m f = bindr m' f'"
  by (cases m') auto

lemma assertr_Inr_iff [res_simps]: "assertr b s = Inr u \<longleftrightarrow> b"
  by (simp add: assertr_def)

lemma assertr_simps [simp]:
  "assertr True s = Inr ()" "assertr False s = Inl (Assert_failed s)"
  by (simp_all add: assertr_def)

lemma deref_Inr_iff [res_simps]: "deref h p = Inr x \<longleftrightarrow> h p = Some x"
  by (simp add: deref_def split: option.splits)

lemma deref_Some [simp]: "h p = Some x \<Longrightarrow> deref h p = Inr x"
  by (simp add: deref_Inr_iff)

lemma bindo_simps [simp, res_simps]:
  "bindo (Some (Inr a)) f = f a" "bindo (Some (Inl e)) f = Some (Inl e)" "bindo None f = None"
  by (simp_all add: bindo_def)

lemma bindo_Inr_iff [res_simps]:
  "bindo m f = Some (Inr b) \<longleftrightarrow> (\<exists>a. m = Some (Inr a) \<and> f a = Some (Inr b))"
proof (cases m)
  case (Some r)
  then show ?thesis by (cases r) auto
qed simp

lemma bindo_mono [partial_function_mono]:
  assumes "mono_option A" and "\<And>y. mono_option (\<lambda>f. B y f)"
  shows "mono_option (\<lambda>f. bindo (A f) (\<lambda>y. B y f))"
  unfolding bindo_def
proof (rule bind_mono [OF assms(1)])
  show "mono_option (\<lambda>f. case y of Inl e \<Rightarrow> Some (Inl e) | Inr a \<Rightarrow> B a f)" for y
    by (cases y) (simp_all add: assms(2) option.const_mono)
qed

section \<open>Lemmas on lists and multisets\<close>

lemma mset_remove1_Cons: "x \<in> set xs \<Longrightarrow> add_mset x (mset (remove1 x xs)) = mset xs"
  by simp

lemma set_remove1_distinct [simp]: "distinct xs \<Longrightarrow> set (remove1 x xs) = set xs - {x}"
  by (rule set_remove1_eq)

lemma concat_map_cong_set:
  "(\<And>x. x \<in> set xs \<Longrightarrow> f x = g x) \<Longrightarrow> concat (map f xs) = concat (map g xs)"
  by (induction xs) auto

lemma distinct_mset_eq: "mset xs = mset ys \<Longrightarrow> distinct xs = distinct ys"
  by (metis distinct_count_atmost_1 set_mset_mset)

lemma mset_concat_map_perm:
  "mset xs = mset ys \<Longrightarrow> mset (concat (map f xs)) = mset (concat (map f ys))"
proof (induction xs arbitrary: ys)
  case (Cons x xs)
  then obtain ys1 ys2 where ys: "ys = ys1 @ x # ys2"
    by (metis list.set_intros(1) mset_eq_setD split_list)
  have "mset xs = mset (ys1 @ ys2)" using Cons.prems by (simp add: ys)
  then show ?case using Cons.IH by (fastforce simp: ys)
qed simp

text \<open>Splitting a list at one of its positions.\<close>

lemma nth_splitE:
  assumes "i < length xs"
  obtains ys y zs where "xs = ys @ y # zs" and "length ys = i"
proof
  show "xs = take i xs @ xs ! i # drop (Suc i) xs" using assms by (rule id_take_nth_drop)
  show "length (take i xs) = i" using assms by simp
qed

lemma list_update_append_id: "xs[length xs := y] = xs"
  by (simp add: list_update_beyond)

end
