(* ===== verification/Dns_Common.thy ===== *)
theory Dns_Common
  imports Dns_Prelude
begin

text \<open>
  \<^verbatim>\<open>src/common.h\<close> and \<^verbatim>\<open>src/common.c\<close>: return codes, output field flags, drop reasons,
  time conversions, the rotation test and the string escaper. Times are \<open>int\<close>: the C
  type is a signed 64-bit count of microseconds, whose overflow is undefined behaviour;
  \<open>DNS_NO_TIME\<close> is the smallest value of that type. A C \<open>double\<close> of the configuration is
  a \<open>rat\<close>, so rounding of the binary representation is not modelled.
\<close>

section \<open>Return codes and enumerations\<close>

text \<open>\<^verbatim>\<open>enum dns_ret\<close>; the values are distinguished by name only.\<close>

datatype dns_ret =
    DNS_RET_OK
  | DNS_RET_ERR
  | DNS_RET_EOF
  | DNS_RET_TIMEOUT
  | DNS_RET_DROP_NETWORK
  | DNS_RET_DROP_FRAGMENTED
  | DNS_RET_DROP_TRANSPORT
  | DNS_RET_DROP_MALF

text \<open>
  \<^verbatim>\<open>enum dns_output_field\<close>: the flag bits. The names that the C enumeration gives the
  same number (\<open>dns_field_resp_aa = dns_field_flags\<close> and the like) are the columns of
  the writers and are modelled there.
\<close>

datatype dns_output_field =
    dns_field_time | dns_field_delay_us
  | dns_field_req_dns_len | dns_field_resp_dns_len
  | dns_field_req_net_len | dns_field_resp_net_len
  | dns_field_client_addr | dns_field_client_port
  | dns_field_server_addr | dns_field_server_port
  | dns_field_net_proto | dns_field_net_ipv | dns_field_net_ttl | dns_field_req_udp_sum
  | dns_field_id | dns_field_qtype | dns_field_qclass | dns_field_opcode | dns_field_rcode
  | dns_field_flags | dns_field_qname | dns_field_rr_counts | dns_field_edns

text \<open>The number of each flag, which is its position in the enumeration.\<close>

fun dns_field_number :: "dns_output_field \<Rightarrow> nat" where
  "dns_field_number dns_field_time = 0"
| "dns_field_number dns_field_delay_us = 1"
| "dns_field_number dns_field_req_dns_len = 2"
| "dns_field_number dns_field_resp_dns_len = 3"
| "dns_field_number dns_field_req_net_len = 4"
| "dns_field_number dns_field_resp_net_len = 5"
| "dns_field_number dns_field_client_addr = 6"
| "dns_field_number dns_field_client_port = 7"
| "dns_field_number dns_field_server_addr = 8"
| "dns_field_number dns_field_server_port = 9"
| "dns_field_number dns_field_net_proto = 10"
| "dns_field_number dns_field_net_ipv = 11"
| "dns_field_number dns_field_net_ttl = 12"
| "dns_field_number dns_field_req_udp_sum = 13"
| "dns_field_number dns_field_id = 14"
| "dns_field_number dns_field_qtype = 15"
| "dns_field_number dns_field_qclass = 16"
| "dns_field_number dns_field_opcode = 17"
| "dns_field_number dns_field_rcode = 18"
| "dns_field_number dns_field_flags = 19"
| "dns_field_number dns_field_qname = 20"
| "dns_field_number dns_field_rr_counts = 21"
| "dns_field_number dns_field_edns = 22"

definition dns_of_LAST :: nat where
  "dns_of_LAST = 23"

definition dns_output_field_flag_names :: "string list" where
  "dns_output_field_flag_names =
     [''time'', ''delay_us'', ''req_dns_len'', ''resp_dns_len'', ''req_net_len'', ''resp_net_len'',
      ''client_addr'', ''client_port'', ''server_addr'', ''server_port'', ''net_proto'', ''net_ipv'',
      ''net_ttl'', ''req_udp_sum'', ''id'', ''qtype'', ''qclass'', ''opcode'', ''rcode'', ''flags'',
      ''qname'', ''rr_counts'', ''edns'']"

datatype dns_drop_reason =
    dns_drop_other | dns_drop_malformed | dns_drop_fragmented
  | dns_drop_protocol | dns_drop_bad_dns | dns_drop_limit

definition dns_drop_reason_names :: "string list" where
  "dns_drop_reason_names =
     [''other'', ''malformed'', ''fragmented'', ''protocol'', ''bad_dns'', ''limit'']"

section \<open>Time\<close>

definition DNS_NO_TIME :: int where
  "DNS_NO_TIME = - (2 ^ 63)"

record timeval =
  tv_sec :: int
  tv_usec :: int

record timespec =
  ts_sec :: int
  ts_nsec :: int

definition dns_us_time_from_timeval :: "timeval \<Rightarrow> int" where
  "dns_us_time_from_timeval t = tv_usec t + 1000000 * tv_sec t"

definition dns_us_time_from_timespec :: "timespec \<Rightarrow> int" where
  "dns_us_time_from_timespec t = ts_nsec t sdiv 1000 + 1000000 * ts_sec t"

definition dns_us_time_to_fsec :: "int \<Rightarrow> rat res" where
  "dns_us_time_to_fsec t =
     bindr (assertr (t \<noteq> DNS_NO_TIME) ''t != DNS_NO_TIME'')
       (\<lambda>_. Inr (of_int t / 1000000))"

text \<open>The C conversion of a floating value to an integer drops the fraction.\<close>

definition c_trunc :: "rat \<Rightarrow> int" where
  "c_trunc x = (if 0 \<le> x then \<lfloor>x\<rfloor> else \<lceil>x\<rceil>)"

definition dns_fsec_to_us_time :: "rat \<Rightarrow> int" where
  "dns_fsec_to_us_time s = c_trunc (s * 1000000)"

text \<open>
  \<open>strftime max format seconds\<close> stands for \<open>gmtime_r\<close> and \<open>strftime\<close> of the C library: the text
  written, without the final zero; nothing if it does not fit into \<open>max\<close> bytes.
\<close>

definition dns_us_time_strftime ::
    "(nat \<Rightarrow> u8 list \<Rightarrow> int \<Rightarrow> u8 list) \<Rightarrow> nat \<Rightarrow> u8 list \<Rightarrow> int \<Rightarrow> u8 list res" where
  "dns_us_time_strftime strftime max_len format time =
     bindr (assertr (time \<noteq> DNS_NO_TIME) ''time != DNS_NO_TIME'')
       (\<lambda>_. Inr (strftime max_len format (time sdiv 1000000)))"

text \<open>\<open>dns_current_us_time\<close> reads the clock: the model takes the value as \<open>clock\<close>.\<close>

definition dns_next_rotation :: "timespec \<Rightarrow> int \<Rightarrow> int \<Rightarrow> int \<Rightarrow> bool" where
  "dns_next_rotation clock period_sec last_rotation now =
     (let now = (if now = DNS_NO_TIME then dns_us_time_from_timespec clock else now)
      in last_rotation < now - dns_fsec_to_us_time (of_int period_sec))"

section \<open>Escaping\<close>

text \<open>Character codes used by the escaper (\<open>'0'\<close>, \<open>'n'\<close>, backslash, newline).\<close>

abbreviation chr_0 :: u8 where "chr_0 \<equiv> 48"
abbreviation chr_n :: u8 where "chr_n \<equiv> 110"
abbreviation chr_bs :: u8 where "chr_bs \<equiv> 92"
abbreviation chr_nl :: u8 where "chr_nl \<equiv> 10"

text \<open>C's \<open>isgraph\<close> in the C locale.\<close>

definition isgraph :: "int \<Rightarrow> bool" where
  "isgraph c \<longleftrightarrow> 33 \<le> c \<and> c \<le> 126"

text \<open>The three octal digits of \<open>sprintf(\<dots>, "%03o", c)\<close> for \<open>0 \<le> c < 512\<close>.\<close>

definition oct_digit :: "int \<Rightarrow> u8" where
  "oct_digit k = word_of_int (48 + k)"

definition octal3 :: "int \<Rightarrow> u8 list" where
  "octal3 c = [oct_digit (c div 64), oct_digit (c div 8 mod 8), oct_digit (c mod 8)]"

text \<open>What the loop body of \<open>dns_snescape\<close> writes for one data byte.\<close>

definition snescape_char :: "int \<Rightarrow> u8 \<Rightarrow> u8 list" where
  "snescape_char separator d =
     (if d = 0 then [chr_bs, chr_0]
      else if d = chr_bs then [chr_bs, chr_bs]
      else if d = chr_nl then [chr_bs, chr_n]
      else if uint d = separator then
        (if isgraph separator then [chr_bs, word_of_int separator]
         else chr_bs # octal3 separator)
      else [d])"

text \<open>
  The loop. \<open>room\<close> is \<open>str + strsize - 1 - strp\<close>, the bytes left before the place of
  the final zero; a character whose escape does not fit ends the loop (the \<open>break\<close> of
  \<open>WRITESTR\<close>).
\<close>

fun snescape_loop :: "nat \<Rightarrow> int \<Rightarrow> u8 list \<Rightarrow> u8 list" where
  "snescape_loop room separator [] = []"
| "snescape_loop room separator (d # ds) =
     (let w = snescape_char separator d in
      if room = 0 \<or> room < length w then []
      else w @ snescape_loop (room - length w) separator ds)"

text \<open>The bytes stored from \<open>str\<close> on, and the value returned.\<close>

definition dns_snescape :: "nat \<Rightarrow> int \<Rightarrow> u8 list \<Rightarrow> u8 list \<times> nat" where
  "dns_snescape strsize separator data =
     (if strsize = 0 then ([], 0)
      else let w = snescape_loop (strsize - 1) separator data in (w @ [0], length w))"

text \<open>
  What a reader of the output does, as documented for the escaped characters: a
  backslash is followed by \<open>0\<close>, \<open>n\<close>, or the character itself.
\<close>

fun unescape :: "u8 list \<Rightarrow> u8 list" where
  "unescape [] = []"
| "unescape [c] = [c]"
| "unescape (c # e # cs) =
     (if c = chr_bs then (if e = chr_0 then 0 else if e = chr_n then chr_nl else e) # unescape cs
      else c # unescape (e # cs))"

text \<open>The bytes a splitter of the output looks at: those not consumed by an escape.\<close>

fun plain_bytes :: "u8 list \<Rightarrow> u8 list" where
  "plain_bytes [] = []"
| "plain_bytes [c] = [c]"
| "plain_bytes (c # e # cs) =
     (if c = chr_bs then plain_bytes cs else c # plain_bytes (e # cs))"

section \<open>Lemmas\<close>

lemma to_fsec_returns: "t \<noteq> DNS_NO_TIME \<Longrightarrow> dns_us_time_to_fsec t = Inr (of_int t / 1000000)"
  by (simp add: dns_us_time_to_fsec_def)

lemma snescape_char_length: "Suc 0 \<le> length (snescape_char sep d) \<and> length (snescape_char sep d) \<le> 4"
  by (simp add: snescape_char_def octal3_def)

lemma snescape_char_nonempty [simp]: "snescape_char sep d \<noteq> []"
  by (simp add: snescape_char_def)

lemma snescape_loop_length: "length (snescape_loop room sep ds) \<le> room"
proof (induction ds arbitrary: room)
  case (Cons d ds)
  show ?case
    using Cons.IH [of "room - length (snescape_char sep d)"] by (simp add: Let_def) arith
qed simp

lemma snescape_loop_prefix:
  "\<exists>k \<le> length ds. snescape_loop room sep ds = concat (map (snescape_char sep) (take k ds))"
proof (induction ds arbitrary: room)
  case (Cons d ds)
  let ?w = "snescape_char sep d"
  show ?case
  proof (cases "room = 0 \<or> room < length ?w")
    case True
    then show ?thesis by (intro exI [of _ 0]) (auto simp: Let_def)
  next
    case False
    obtain k where "k \<le> length ds"
      and "snescape_loop (room - length ?w) sep ds = concat (map (snescape_char sep) (take k ds))"
      using Cons.IH by blast
    with False show ?thesis by (intro exI [of _ "Suc k"]) (auto simp: Let_def)
  qed
qed simp

lemma snescape_loop_full:
  "length (concat (map (snescape_char sep) ds)) \<le> room \<Longrightarrow>
   snescape_loop room sep ds = concat (map (snescape_char sep) ds)"
proof (induction ds arbitrary: room)
  case (Cons d ds)
  have "0 < room"
    using Cons.prems snescape_char_length [of sep d] by simp
  with Cons.prems show ?case by (simp add: Let_def Cons.IH)
qed simp

lemma unescape_Cons_plain: "c \<noteq> chr_bs \<Longrightarrow> unescape (c # cs) = c # unescape cs"
  by (cases cs) auto

lemma plain_bytes_Cons_plain: "c \<noteq> chr_bs \<Longrightarrow> plain_bytes (c # cs) = c # plain_bytes cs"
  by (cases cs) auto

lemma word_of_int_sep:
  fixes d :: u8
  assumes "uint d = sep"
  shows "word_of_int sep = d"
  using assms by auto

lemma unescape_snescape_char:
  assumes "isgraph sep" and "sep \<noteq> 48" and "sep \<noteq> 110"
  shows "unescape (snescape_char sep d @ cs) = d # unescape cs"
proof -
  have "d \<noteq> chr_0 \<and> d \<noteq> chr_n" if "uint d = sep"
    using that assms(2,3) by auto
  then show ?thesis
    using assms(1) by (auto simp: snescape_char_def unescape_Cons_plain)
qed

lemma unescape_concat_snescape:
  assumes "isgraph sep" and "sep \<noteq> 48" and "sep \<noteq> 110"
  shows "unescape (concat (map (snescape_char sep) ds)) = ds"
  by (induction ds) (simp_all add: unescape_snescape_char [OF assms])

lemma uint_oct_digit: "0 \<le> k \<Longrightarrow> k < 8 \<Longrightarrow> uint (oct_digit k) = 48 + k"
  by (simp only: oct_digit_def uint_word_of_int) simp

lemma set_octal3:
  assumes "0 \<le> sep" and "sep < 256" and "b \<in> set (octal3 sep)"
  shows "48 \<le> uint b \<and> uint b < 56"
proof -
  have "sep div 64 < 8" using assms by simp
  with assms show ?thesis by (auto simp: octal3_def uint_oct_digit)
qed

lemma snescape_char_no_nl:
  assumes "0 \<le> sep" and "sep < 256"
  shows "chr_nl \<notin> set (snescape_char sep d) \<and> 0 \<notin> set (snescape_char sep d)"
  using set_octal3 [OF assms] by (force simp: snescape_char_def)

lemma plain_bytes_append_plain:
  "chr_bs \<notin> set xs \<Longrightarrow> plain_bytes (xs @ ys) = xs @ plain_bytes ys"
  by (induction xs) (simp_all add: plain_bytes_Cons_plain)

lemma plain_bytes_snescape_char:
  assumes "0 \<le> sep" and "sep < 256" and "b \<in> set (plain_bytes (snescape_char sep d @ cs))"
  shows "b \<in> set (plain_bytes cs) \<or> uint b \<noteq> sep"
proof (cases "d = 0 \<or> d = chr_bs \<or> d = chr_nl \<or> uint d \<noteq> sep \<or> isgraph sep")
  case True
  with assms(3) show ?thesis
    by (auto simp: snescape_char_def plain_bytes_Cons_plain split: if_splits)
next
  case False
  have bs: "chr_bs \<notin> set (octal3 sep)"
    using set_octal3 [OF assms(1,2)] by force
  obtain x y z where o: "octal3 sep = [x, y, z]" by (simp add: octal3_def)
  with False assms(3) bs have "b = y \<or> b = z \<or> b \<in> set (plain_bytes cs)"
    by (auto simp: snescape_char_def plain_bytes_Cons_plain)
  then show ?thesis
    using False set_octal3 [OF assms(1,2), of b] o by (auto simp: isgraph_def)
qed

lemma plain_bytes_concat_snescape:
  assumes "0 \<le> sep" and "sep < 256"
  shows "\<forall>b \<in> set (plain_bytes (concat (map (snescape_char sep) ds))). uint b \<noteq> sep"
proof (induction ds)
  case (Cons d ds)
  then show ?case
    using plain_bytes_snescape_char [OF assms, of _ d "concat (map (snescape_char sep) ds)"] by auto
qed simp

section \<open>Properties\<close>

text \<open>
  C28: \<open>dns_snescape\<close> never stores more than \<open>strsize\<close> bytes, ends what it stores with a zero
  byte, returns the length without it, and what it stores is the escape of a prefix of the
  data: no character is cut in the middle.
\<close>

theorem snescape_bounded:
  assumes "0 < strsize" and "dns_snescape strsize sep data = (stored, n)"
  shows "length stored = n + 1 \<and> n < strsize \<and> last stored = 0 \<and>
    (\<exists>k \<le> length data. butlast stored = concat (map (snescape_char sep) (take k data)))"
proof -
  have "length (snescape_loop (strsize - 1) sep data) < strsize"
    using snescape_loop_length [of "strsize - 1" sep data] assms(1) by simp
  then show ?thesis
    using assms snescape_loop_prefix [of data "strsize - 1" sep]
    by (auto simp: dns_snescape_def Let_def)
qed

theorem snescape_bounded_witness:
  "dns_snescape 4 44 [97, 44, 98] = ([97, 92, 44, 0], 3) \<and> length [97, 92, 44, 0 :: u8] = 3 + 1"
proof -
  have e: "dns_snescape 4 44 [97, 44, 98] = ([97, 92, 44, 0], 3)"
    by (simp add: dns_snescape_def snescape_char_def isgraph_def Let_def)
  show ?thesis using e snescape_bounded [OF _ e] by simp
qed

text \<open>
  C29: the escaped text contains no newline and no zero byte, and every occurrence of the
  separator in it is escaped, so the record and field structure around it is intact.
\<close>

theorem snescape_field_safe:
  assumes "0 \<le> sep" and "sep < 256" and "0 < strsize"
    and "dns_snescape strsize sep data = (stored, n)"
  shows "chr_nl \<notin> set (butlast stored) \<and> 0 \<notin> set (butlast stored) \<and>
    (\<forall>b \<in> set (plain_bytes (butlast stored)). uint b \<noteq> sep)"
proof -
  obtain k where k: "butlast stored = concat (map (snescape_char sep) (take k data))"
    using assms(3,4) snescape_loop_prefix [of data "strsize - 1" sep]
    by (auto simp: dns_snescape_def Let_def)
  show ?thesis
    unfolding k using snescape_char_no_nl [OF assms(1,2)] plain_bytes_concat_snescape [OF assms(1,2)]
    by auto
qed

theorem snescape_field_safe_witness:
  "dns_snescape 10 44 [10, 44] = ([92, 110, 92, 44, 0], 4) \<and>
   chr_nl \<notin> set (butlast [92, 110, 92, 44, 0 :: u8])"
proof -
  have e: "dns_snescape 10 44 [10, 44] = ([92, 110, 92, 44, 0], 4)"
    by (simp add: dns_snescape_def snescape_char_def isgraph_def Let_def)
  show ?thesis using e snescape_field_safe [OF _ _ _ e] by simp
qed




end
