(* ===== verification/Dns_Packet.thy ===== *)
theory Dns_Packet
  imports Dns_Common
begin

text \<open>
  \<^verbatim>\<open>src/packet.h\<close> and \<^verbatim>\<open>src/packet.c\<close>: the packet record, its getters, the primary hash, the
  two match predicates, and the construction of a packet from a captured frame.

  Two libraries that are not part of the repository sit below this file. libknot parses
  DNS messages: a \<open>knot_pkt\<close> records what its accessors return for one message, and every
  theorem holds for all such records; its comparison of names and its parsers are function
  arguments. libtrace reads captures: a \<open>libtrace_packet\<close> records what its accessors return
  for one captured frame.

  Packets are heap objects that are linked from several places at once (the matcher's
  queue, a hash bucket, a request's \<open>response\<close> field), so they live in an explicit store
  from addresses to records.
\<close>

section \<open>Socket addresses\<close>

text \<open>
  A \<^verbatim>\<open>struct sockaddr_in6\<close> used for both families. \<open>sa_in_addr\<close> are the four bytes at offset 4
  (\<open>sin_addr\<close> of \<open>sockaddr_in\<close>), \<open>sa_in6_addr\<close> the sixteen at offset 8. The port is kept in
  network byte order as in memory.
\<close>

record sockaddr =
  sa_family :: u16
  sa_port :: u16
  sa_in_addr :: "u8 list"
  sa_in6_addr :: "u8 list"

definition AF_INET :: u16 where
  "AF_INET = 2"

definition AF_INET6 :: u16 where
  "AF_INET6 = 10"

text \<open>\<open>ntohs\<close> on a little-endian host.\<close>

definition ntohs :: "u16 \<Rightarrow> u16" where
  "ntohs w = push_bit 8 w OR drop_bit 8 w"

definition DNS_SOCKADDR_AF :: "sockaddr \<Rightarrow> u16" where
  "DNS_SOCKADDR_AF sa = sa_family sa"

definition DNS_SOCKADDR_PORT :: "sockaddr \<Rightarrow> u16" where
  "DNS_SOCKADDR_PORT sa = ntohs (sa_port sa)"

definition DNS_SOCKADDR_ADDR :: "sockaddr \<Rightarrow> u8 list" where
  "DNS_SOCKADDR_ADDR sa =
     (if DNS_SOCKADDR_AF sa = AF_INET then sa_in_addr sa else sa_in6_addr sa)"

definition DNS_SOCKADDR_ADDRLEN :: "sockaddr \<Rightarrow> nat" where
  "DNS_SOCKADDR_ADDRLEN sa = (if DNS_SOCKADDR_AF sa = AF_INET then 4 else 16)"

section \<open>Packets\<close>

text \<open>
  What libknot reports of one parsed message. \<open>edns_option c\<close> is the memory that
  \<open>knot_edns_get_option(rr, c)\<close> points to: the option's code, length and data, and
  whatever follows it in the same record.
\<close>

record knot_opt_rr =
  edns_version :: u8
  edns_payload :: u16
  edns_do :: bool
  edns_ext_rcode :: u8
  edns_option :: "nat \<Rightarrow> u8 list option"

record knot_pkt =
  wire_qr :: bool
  wire_id :: u16
  wire_opcode :: u8
  wire_rcode :: u8
  wire_aa :: bool
  wire_tc :: bool
  wire_rd :: bool
  wire_ra :: bool
  wire_z :: bool
  wire_ad :: bool
  wire_cd :: bool
  wire_ancount :: u16
  wire_nscount :: u16
  wire_arcount :: u16
  qname_size :: u16
  knot_qname :: "u8 list option"
  knot_qtype :: u16
  knot_qclass :: u16
  opt_rr :: "knot_opt_rr option"

text \<open>
  \<^verbatim>\<open>struct dns_packet\<close>. The list nodes \<open>node\<close> and \<open>secnode\<close> are represented by the
  packet's membership in the lists that link it.
\<close>

record dns_packet =
  ts :: int
  src_addr :: sockaddr
  dst_addr :: sockaddr
  net_protocol :: u8
  net_size :: u64
  net_ttl :: u8
  net_udp_sum :: u16
  dns_id :: u16
  response :: "pid option"
  dns_data :: "u8 list"
  dns_data_size :: u64
  dns_data_size_orig :: u64
  knot_packet :: knot_pkt
  memory_size :: u64

type_synonym heap = "pid \<rightharpoonup> dns_packet"

definition DNS_PACKET_IS_RESPONSE :: "dns_packet \<Rightarrow> bool" where
  "DNS_PACKET_IS_RESPONSE pkt = wire_qr (knot_packet pkt)"

definition DNS_PACKET_IS_REQUEST :: "dns_packet \<Rightarrow> bool" where
  "DNS_PACKET_IS_REQUEST pkt = (\<not> DNS_PACKET_IS_RESPONSE pkt)"

definition DNS_PACKET_REQUEST :: "dns_packet \<Rightarrow> dns_packet option" where
  "DNS_PACKET_REQUEST pkt = (if DNS_PACKET_IS_REQUEST pkt then Some pkt else None)"

definition DNS_PACKET_RESPONSE :: "heap \<Rightarrow> dns_packet \<Rightarrow> dns_packet option res" where
  "DNS_PACKET_RESPONSE h pkt =
     (if DNS_PACKET_IS_RESPONSE pkt then Inr (Some pkt)
      else case response pkt of
        None \<Rightarrow> Inr None
      | Some r \<Rightarrow> bindr (deref h r) (\<lambda>p. Inr (Some p)))"

definition DNS_PACKET_CLIENT_SOCKADDR :: "dns_packet \<Rightarrow> sockaddr" where
  "DNS_PACKET_CLIENT_SOCKADDR pkt =
     (if DNS_PACKET_IS_REQUEST pkt then src_addr pkt else dst_addr pkt)"

definition DNS_PACKET_SERVER_SOCKADDR :: "dns_packet \<Rightarrow> sockaddr" where
  "DNS_PACKET_SERVER_SOCKADDR pkt =
     (if DNS_PACKET_IS_REQUEST pkt then dst_addr pkt else src_addr pkt)"

definition DNS_PACKET_AF :: "dns_packet \<Rightarrow> u16" where
  "DNS_PACKET_AF pkt = DNS_SOCKADDR_AF (src_addr pkt)"

definition DNS_PACKET_CLIENT_PORT :: "dns_packet \<Rightarrow> u16" where
  "DNS_PACKET_CLIENT_PORT pkt = DNS_SOCKADDR_PORT (DNS_PACKET_CLIENT_SOCKADDR pkt)"

definition DNS_PACKET_SERVER_PORT :: "dns_packet \<Rightarrow> u16" where
  "DNS_PACKET_SERVER_PORT pkt = DNS_SOCKADDR_PORT (DNS_PACKET_SERVER_SOCKADDR pkt)"

definition DNS_PACKET_CLIENT_ADDR :: "dns_packet \<Rightarrow> u8 list" where
  "DNS_PACKET_CLIENT_ADDR pkt = DNS_SOCKADDR_ADDR (DNS_PACKET_CLIENT_SOCKADDR pkt)"

definition DNS_PACKET_SERVER_ADDR :: "dns_packet \<Rightarrow> u8 list" where
  "DNS_PACKET_SERVER_ADDR pkt = DNS_SOCKADDR_ADDR (DNS_PACKET_SERVER_SOCKADDR pkt)"

section \<open>Destruction\<close>

text \<open>
  \<open>dns_packet_destroy\<close>: a matched request owns its response, so the response goes first.
\<close>

partial_function (option) dns_packet_destroy :: "heap \<Rightarrow> pid \<Rightarrow> heap run" where
  "dns_packet_destroy h p =
     (case h p of
        None \<Rightarrow> Some (Inl (Bad_pointer ''dns_packet_destroy''))
      | Some pkt \<Rightarrow>
          (case response pkt of
             None \<Rightarrow> Some (Inr (h(p := None)))
           | Some r \<Rightarrow> bindo (dns_packet_destroy h r) (\<lambda>h'. Some (Inr (h'(p := None))))))"

section \<open>Hash and match\<close>

text \<open>\<open>((uint32_t *) a)[i]\<close> on a little-endian host.\<close>

definition load32 :: "u8 list \<Rightarrow> nat \<Rightarrow> u32" where
  "load32 a i = ucast (a ! (4 * i)) OR push_bit 8 (ucast (a ! (4 * i + 1)))
     OR push_bit 16 (ucast (a ! (4 * i + 2))) OR push_bit 24 (ucast (a ! (4 * i + 3)))"

text \<open>One turn of the address loop of \<open>dns_packet_primary_hash\<close>.\<close>

definition primary_hash_step :: "u64 \<Rightarrow> u8 list \<Rightarrow> u8 list \<Rightarrow> nat \<Rightarrow> u64 \<Rightarrow> u64" where
  "primary_hash_step param src dst i hash =
     (hash + push_bit 32 (ucast (load32 src i)) + push_bit 32 (ucast (load32 dst i))) mod param"

definition dns_packet_primary_hash :: "dns_packet \<Rightarrow> u64 \<Rightarrow> u64 res" where
  "dns_packet_primary_hash pkt param =
     bindr (assertr (0x100 < param) ''pkt && param > 0x100'') (\<lambda>_.
       let hash = ucast (DNS_PACKET_AF pkt)
             + push_bit 16 (ucast (net_protocol pkt))
             + push_bit 32 (ucast (DNS_SOCKADDR_PORT (dst_addr pkt)))
             + push_bit 32 (ucast (DNS_SOCKADDR_PORT (src_addr pkt)))
             + push_bit 48 (ucast (dns_id pkt))
       in Inr (fold (primary_hash_step param (DNS_SOCKADDR_ADDR (src_addr pkt))
                       (DNS_SOCKADDR_ADDR (dst_addr pkt)))
                 [0..<DNS_SOCKADDR_ADDRLEN (src_addr pkt) div 4] (hash mod param)))"

text \<open>\<open>dns_packet_qname_match\<close>; \<open>dname_eq\<close> is libknot's \<open>knot_dname_is_equal\<close>.\<close>

definition dns_packet_qname_match ::
    "(u8 list \<Rightarrow> u8 list \<Rightarrow> bool) \<Rightarrow> dns_packet \<Rightarrow> dns_packet \<Rightarrow> bool res" where
  "dns_packet_qname_match dname_eq request rsp =
     bindr (assertr (DNS_PACKET_IS_REQUEST request \<and> DNS_PACKET_IS_RESPONSE rsp)
              ''DNS_PACKET_IS_REQUEST(request) && DNS_PACKET_IS_RESPONSE(response)'') (\<lambda>_.
       Inr (if qname_size (knot_packet rsp) = 1 then True
            else if qname_size (knot_packet request) \<noteq> qname_size (knot_packet rsp) then False
            else case (knot_qname (knot_packet request), knot_qname (knot_packet rsp)) of
              (None, None) \<Rightarrow> True
            | (Some req_q, Some res_q) \<Rightarrow> dname_eq res_q req_q
            | _ \<Rightarrow> False))"

text \<open>\<open>memcmp(a, b, n) == 0\<close>.\<close>

definition memeq :: "u8 list \<Rightarrow> u8 list \<Rightarrow> nat \<Rightarrow> bool" where
  "memeq a b n \<longleftrightarrow> take n a = take n b"

definition dns_packet_primary_match :: "dns_packet \<Rightarrow> dns_packet \<Rightarrow> bool" where
  "dns_packet_primary_match pkt1 pkt2 =
     (let addr_len = DNS_SOCKADDR_ADDRLEN (src_addr pkt1) in
      if DNS_PACKET_AF pkt1 \<noteq> DNS_PACKET_AF pkt2 \<or>
         net_protocol pkt1 \<noteq> net_protocol pkt2 \<or> dns_id pkt1 \<noteq> dns_id pkt2 then False
      else if (\<not> DNS_PACKET_IS_REQUEST pkt1) = (\<not> DNS_PACKET_IS_REQUEST pkt2) then
        DNS_SOCKADDR_PORT (src_addr pkt1) = DNS_SOCKADDR_PORT (src_addr pkt2) \<and>
        DNS_SOCKADDR_PORT (dst_addr pkt1) = DNS_SOCKADDR_PORT (dst_addr pkt2) \<and>
        memeq (DNS_SOCKADDR_ADDR (src_addr pkt1)) (DNS_SOCKADDR_ADDR (src_addr pkt2)) addr_len \<and>
        memeq (DNS_SOCKADDR_ADDR (dst_addr pkt1)) (DNS_SOCKADDR_ADDR (dst_addr pkt2)) addr_len
      else
        DNS_SOCKADDR_PORT (src_addr pkt1) = DNS_SOCKADDR_PORT (dst_addr pkt2) \<and>
        DNS_SOCKADDR_PORT (dst_addr pkt1) = DNS_SOCKADDR_PORT (src_addr pkt2) \<and>
        memeq (DNS_SOCKADDR_ADDR (src_addr pkt1)) (DNS_SOCKADDR_ADDR (dst_addr pkt2)) addr_len \<and>
        memeq (DNS_SOCKADDR_ADDR (dst_addr pkt1)) (DNS_SOCKADDR_ADDR (src_addr pkt2)) addr_len)"

section \<open>Construction from a captured frame\<close>

text \<open>
  What libtrace reports of one captured frame. \<open>lt_payload_from proto remaining\<close> is the
  call \<open>trace_get_payload_from_<proto>(transport, &remaining)\<close>: the readable memory from
  the returned pointer on (\<open>None\<close> for a null pointer) and the new value of \<open>remaining\<close>.
  \<open>lt_tcp\<close> holds the SYN and FIN flags of the TCP header, if libtrace finds one.
\<close>

record libtrace_packet =
  lt_transport :: "(u8 \<times> u32) option"
  lt_ip_ttl :: "u8 option"
  lt_ip6_hlim :: "u8 option"
  lt_tcp :: "(bool \<times> bool) option"
  lt_udp_check :: "u16 option"
  lt_fragment :: "u16 \<times> u8"
  lt_payload_from :: "u8 \<Rightarrow> u32 \<Rightarrow> u8 list option \<times> u32"
  lt_payload_length :: u64
  lt_timeval :: timeval
  lt_timespec :: timespec
  lt_source_address :: "sockaddr option"
  lt_destination_address :: "sockaddr option"
  lt_wire_length :: u64

datatype knot_ret = KNOT_EOK | KNOT_ENOMEM | KNOT_EOTHER

text \<open>
  The functions of libknot the collector calls on a message, and the size of the two
  structures (\<open>sizeof(dns_packet_t) + sizeof(knot_pkt_t)\<close>) that \<open>memory_size\<close> counts.
\<close>

record knot_lib =
  knot_pkt_new :: "u8 list \<Rightarrow> knot_pkt"
  knot_pkt_parse_question :: "knot_pkt \<Rightarrow> knot_ret \<times> knot_pkt"
  knot_pkt_parse :: "knot_pkt \<Rightarrow> knot_ret \<times> knot_pkt"
  knot_dname_is_equal :: "u8 list \<Rightarrow> u8 list \<Rightarrow> bool"
  struct_sizes :: u64

definition TRACE_IPPROTO_ICMP :: u8 where
  "TRACE_IPPROTO_ICMP = 1"

definition TRACE_IPPROTO_TCP :: u8 where
  "TRACE_IPPROTO_TCP = 6"

definition TRACE_IPPROTO_UDP :: u8 where
  "TRACE_IPPROTO_UDP = 17"

definition TRACE_IPPROTO_ICMPV6 :: u8 where
  "TRACE_IPPROTO_ICMPV6 = 58"

definition zero_sockaddr :: sockaddr where
  "zero_sockaddr = \<lparr>sa_family = 0, sa_port = 0,
     sa_in_addr = replicate 4 0, sa_in6_addr = replicate 16 0\<rparr>"

text \<open>
  \<open>dns_packet_create\<close>: a zeroed packet that owns a copy of the data. The copy reads
  \<open>dns_data_size\<close> bytes from the given pointer, which must all be readable.
\<close>

definition dns_packet_create :: "knot_lib \<Rightarrow> u8 list option \<Rightarrow> u32 \<Rightarrow> dns_packet res" where
  "dns_packet_create K data data_size =
     bindr (case data of
              None \<Rightarrow> Inr (replicate (unat data_size) 0)
            | Some mem \<Rightarrow> if unat data_size \<le> length mem then Inr (take (unat data_size) mem)
                          else Inl (Bad_pointer ''memcpy''))
       (\<lambda>copy. Inr \<lparr>ts = 0, src_addr = zero_sockaddr, dst_addr = zero_sockaddr,
          net_protocol = 0, net_size = 0, net_ttl = 0, net_udp_sum = 0, dns_id = 0,
          response = None, dns_data = copy, dns_data_size = ucast data_size, dns_data_size_orig = 0,
          knot_packet = knot_pkt_new K copy,
          memory_size = struct_sizes K + ucast data_size\<rparr>)"

text \<open>
  The protocol switch of \<open>dns_packet_create_from_libtrace\<close>: a return code, or the DNS
  data and its length.
\<close>

definition transport_payload ::
    "libtrace_packet \<Rightarrow> u8 \<Rightarrow> u32 \<Rightarrow> (dns_ret + (u8 list option \<times> u32)) res" where
  "transport_payload tp proto remaining =
     (if proto = TRACE_IPPROTO_TCP then
        (case lt_tcp tp of
           None \<Rightarrow> Inl (Bad_pointer ''tcp_hdr->syn'')
         | Some (syn, fin) \<Rightarrow>
             if syn \<or> fin then Inr (Inl DNS_RET_DROP_TRANSPORT)
             else if remaining < 2 then Inr (Inl DNS_RET_DROP_NETWORK)
             else
               (case lt_payload_from tp proto remaining of
                  (Some (b0 # b1 # rest), rem) \<Rightarrow>
                    let message_size = 256 * unat b0 + unat b1 in
                    if of_nat (message_size + 2) \<noteq> lt_payload_length tp
                    then Inr (Inl DNS_RET_DROP_TRANSPORT)
                    else Inr (Inr (Some rest, rem - 2))
                | _ \<Rightarrow> Inl (Bad_pointer ''*(uint16_t *)dns_data'')))
      else if proto = TRACE_IPPROTO_UDP \<or> proto = TRACE_IPPROTO_ICMP \<or> proto = TRACE_IPPROTO_ICMPV6
      then Inr (Inr (lt_payload_from tp proto remaining))
      else Inr (Inl DNS_RET_DROP_TRANSPORT))"

text \<open>
  The checks on the parsed message at the end of \<open>dns_packet_create_from_libtrace\<close>: the
  question must parse, and a request must parse entirely.
\<close>

definition parse_dns :: "knot_lib \<Rightarrow> dns_packet \<Rightarrow> (dns_ret \<times> dns_packet option) res" where
  "parse_dns K pkt =
     (case knot_pkt_parse_question K (knot_packet pkt) of
        (KNOT_EOK, kp) \<Rightarrow>
          let pkt = pkt\<lparr>knot_packet := kp\<rparr> in
          if DNS_PACKET_IS_REQUEST pkt then
            (case knot_pkt_parse K kp of
               (KNOT_EOK, kp') \<Rightarrow>
                 let pkt = pkt\<lparr>knot_packet := kp'\<rparr> in
                 Inr (DNS_RET_OK, Some (pkt\<lparr>dns_id := wire_id kp'\<rparr>))
             | (KNOT_ENOMEM, _) \<Rightarrow> Inl (Died ''Out of memory allocating packet structures.'')
             | (KNOT_EOTHER, _) \<Rightarrow> Inr (DNS_RET_DROP_MALF, None))
          else Inr (DNS_RET_OK, Some (pkt\<lparr>dns_id := wire_id kp\<rparr>))
      | _ \<Rightarrow> Inr (DNS_RET_DROP_MALF, None))"

text \<open>Addresses, protocol and the other network fields.\<close>

definition fill_net :: "libtrace_packet \<Rightarrow> u8 \<Rightarrow> sockaddr \<Rightarrow> sockaddr \<Rightarrow> dns_packet \<Rightarrow> dns_packet" where
  "fill_net tp proto src dst pkt =
     pkt\<lparr>src_addr := src, dst_addr := dst,
         net_protocol := proto, net_size := lt_wire_length tp,
         net_ttl := (case lt_ip6_hlim tp of
                       Some l \<Rightarrow> l
                     | None \<Rightarrow> (case lt_ip_ttl tp of Some t \<Rightarrow> t | None \<Rightarrow> 0)),
         net_udp_sum := (case lt_udp_check tp of Some c \<Rightarrow> ntohs c | None \<Rightarrow> 0)\<rparr>"

definition dns_packet_create_from_libtrace ::
    "knot_lib \<Rightarrow> libtrace_packet \<Rightarrow> (dns_ret \<times> dns_packet option) res" where
  "dns_packet_create_from_libtrace K tp =
     (case lt_transport tp of
        None \<Rightarrow> Inr (DNS_RET_DROP_NETWORK, None)
      | Some (proto, remaining) \<Rightarrow>
          if 0 < fst (lt_fragment tp) \<or> snd (lt_fragment tp) \<noteq> 0
          then Inr (DNS_RET_DROP_FRAGMENTED, None)
          else bindr (transport_payload tp proto remaining) (\<lambda>d. case d of
            Inl r \<Rightarrow> Inr (r, None)
          | Inr (data, len) \<Rightarrow> bindr (dns_packet_create K data len) (\<lambda>pkt.
              let pkt = pkt\<lparr>dns_data_size_orig := lt_payload_length tp,
                            ts := dns_us_time_from_timeval (lt_timeval tp)\<rparr> in
              case (lt_source_address tp, lt_destination_address tp) of
                (Some src, Some dst) \<Rightarrow> parse_dns K (fill_net tp proto src dst pkt)
              | _ \<Rightarrow> Inr (DNS_RET_DROP_NETWORK, None))))"

section \<open>What matching means\<close>

text \<open>
  The specification of matching: packets are compared by address family, transport, DNS
  ID and by their client and server end points, whichever direction they travel in.
\<close>

type_synonym match_key = "u16 \<times> u8 \<times> u16 \<times> (u16 \<times> u8 list) \<times> (u16 \<times> u8 list)"

definition endpoint :: "sockaddr \<Rightarrow> u16 \<times> u8 list" where
  "endpoint sa = (DNS_SOCKADDR_PORT sa, DNS_SOCKADDR_ADDR sa)"

definition match_key :: "dns_packet \<Rightarrow> match_key" where
  "match_key pkt = (DNS_PACKET_AF pkt, net_protocol pkt, dns_id pkt,
     endpoint (DNS_PACKET_CLIENT_SOCKADDR pkt), endpoint (DNS_PACKET_SERVER_SOCKADDR pkt))"

text \<open>
  Well-formed packets: the address fields have the sizes of the C structures, and both
  ends of a packet have the same family, since libtrace fills both from one IP header.
\<close>

definition wf_sockaddr :: "sockaddr \<Rightarrow> bool" where
  "wf_sockaddr sa \<longleftrightarrow> length (sa_in_addr sa) = 4 \<and> length (sa_in6_addr sa) = 16"

definition wf_packet :: "dns_packet \<Rightarrow> bool" where
  "wf_packet pkt \<longleftrightarrow> wf_sockaddr (src_addr pkt) \<and> wf_sockaddr (dst_addr pkt) \<and>
     sa_family (src_addr pkt) = sa_family (dst_addr pkt) \<and> ts pkt \<noteq> DNS_NO_TIME"

section \<open>Lemmas\<close>

lemmas packet_getter_defs =
  DNS_PACKET_IS_REQUEST_def DNS_PACKET_IS_RESPONSE_def DNS_PACKET_AF_def DNS_SOCKADDR_AF_def
  DNS_PACKET_CLIENT_SOCKADDR_def DNS_PACKET_SERVER_SOCKADDR_def endpoint_def

lemma length_SOCKADDR_ADDR:
  "wf_sockaddr sa \<Longrightarrow> length (DNS_SOCKADDR_ADDR sa) = DNS_SOCKADDR_ADDRLEN sa"
  by (simp add: wf_sockaddr_def DNS_SOCKADDR_ADDR_def DNS_SOCKADDR_ADDRLEN_def)

lemma ADDRLEN_family:
  "sa_family sa = sa_family sb \<Longrightarrow> DNS_SOCKADDR_ADDRLEN sa = DNS_SOCKADDR_ADDRLEN sb"
  by (simp add: DNS_SOCKADDR_ADDRLEN_def DNS_SOCKADDR_AF_def)

lemma memeq_addr:
  assumes "wf_sockaddr sa" and "wf_sockaddr sb"
    and "DNS_SOCKADDR_ADDRLEN sa = n" and "DNS_SOCKADDR_ADDRLEN sb = n"
  shows "memeq (DNS_SOCKADDR_ADDR sa) (DNS_SOCKADDR_ADDR sb) n \<longleftrightarrow>
    DNS_SOCKADDR_ADDR sa = DNS_SOCKADDR_ADDR sb"
  using assms by (simp add: memeq_def length_SOCKADDR_ADDR)

lemma primary_match_iff_key:
  assumes "wf_packet p" and "wf_packet q"
  shows "dns_packet_primary_match p q \<longleftrightarrow> match_key p = match_key q"
proof (cases "sa_family (src_addr p) = sa_family (src_addr q)")
  case True
  let ?n = "DNS_SOCKADDR_ADDRLEN (src_addr p)"
  have fam: "sa_family (dst_addr p) = sa_family (src_addr p)"
    "sa_family (src_addr q) = sa_family (src_addr p)"
    "sa_family (dst_addr q) = sa_family (src_addr p)"
    using assms True by (simp_all add: wf_packet_def)
  have wf: "wf_sockaddr (src_addr p)" "wf_sockaddr (dst_addr p)"
    "wf_sockaddr (src_addr q)" "wf_sockaddr (dst_addr q)"
    using assms by (simp_all add: wf_packet_def)
  have n: "DNS_SOCKADDR_ADDRLEN (dst_addr p) = ?n" "DNS_SOCKADDR_ADDRLEN (src_addr q) = ?n"
    "DNS_SOCKADDR_ADDRLEN (dst_addr q) = ?n"
    using fam by (auto intro: ADDRLEN_family)
  have m: "memeq (DNS_SOCKADDR_ADDR a) (DNS_SOCKADDR_ADDR b) ?n \<longleftrightarrow>
      DNS_SOCKADDR_ADDR a = DNS_SOCKADDR_ADDR b"
    if "a \<in> {src_addr p, dst_addr p}" "b \<in> {src_addr q, dst_addr q}" for a b
    using that wf n by (intro memeq_addr) auto
  show ?thesis
    using True
    by (auto simp: dns_packet_primary_match_def match_key_def packet_getter_defs m Let_def)
next
  case False
  then show ?thesis
    by (simp add: dns_packet_primary_match_def match_key_def packet_getter_defs Let_def)
qed

lemma primary_hash_step_commute:
  "primary_hash_step param a b = primary_hash_step param b a"
  by (rule ext)+ (simp add: primary_hash_step_def ac_simps)

text \<open>The hash depends on the key only: the sums are symmetric in source and destination.\<close>

lemma primary_hash_key:
  assumes "wf_packet p" and "wf_packet q" and "match_key p = match_key q"
  shows "dns_packet_primary_hash p param = dns_packet_primary_hash q param"
proof -
  have fam: "DNS_SOCKADDR_ADDRLEN (src_addr p) = DNS_SOCKADDR_ADDRLEN (src_addr q)"
    using assms(3) by (intro ADDRLEN_family) (simp add: match_key_def packet_getter_defs)
  have "endpoint (src_addr p) = endpoint (src_addr q) \<and> endpoint (dst_addr p) = endpoint (dst_addr q) \<or>
    endpoint (src_addr p) = endpoint (dst_addr q) \<and> endpoint (dst_addr p) = endpoint (src_addr q)"
    using assms(3)
    by (auto simp: match_key_def DNS_PACKET_CLIENT_SOCKADDR_def DNS_PACKET_SERVER_SOCKADDR_def
        split: if_splits)
  then show ?thesis
    using assms(3) fam
    by (auto simp: dns_packet_primary_hash_def match_key_def endpoint_def Let_def ac_simps
        primary_hash_step_commute
          [of param "DNS_SOCKADDR_ADDR (dst_addr q)" "DNS_SOCKADDR_ADDR (src_addr q)"])
qed

lemma primary_hash_Inr: "0x100 < param \<Longrightarrow> \<exists>v. dns_packet_primary_hash p param = Inr v"
  by (simp add: dns_packet_primary_hash_def Let_def)

lemma dns_packet_destroy_leaf:
  assumes "h p = Some pkt" and "response pkt = None"
  shows "dns_packet_destroy h p = Some (Inr (h(p := None)))"
  using assms by (simp add: dns_packet_destroy.simps)

lemma dns_packet_destroy_pair:
  assumes "h p = Some pkt" and "response pkt = Some r"
    and "h r = Some rsp" and "response rsp = None"
  shows "dns_packet_destroy h p = Some (Inr (h(r := None, p := None)))"
  using assms dns_packet_destroy_leaf [of h r rsp]
  by (simp add: dns_packet_destroy.simps [of h p])

text \<open>
  Documented behaviour of libtrace: the payload pointer it returns can be read for the
  number of bytes it leaves in \<open>remaining\<close>, which never grows, and a null pointer comes with
  no bytes; both addresses come from one IP header; the capture time is a time.
\<close>

definition libtrace_ok :: "libtrace_packet \<Rightarrow> bool" where
  "libtrace_ok tp \<longleftrightarrow>
     (\<forall>proto rem. case lt_payload_from tp proto rem of
        (None, rem') \<Rightarrow> rem' = 0 | (Some mem, rem') \<Rightarrow> unat rem' = length mem) \<and>
     (\<forall>s d. lt_source_address tp = Some s \<longrightarrow> lt_destination_address tp = Some d \<longrightarrow>
        wf_sockaddr s \<and> wf_sockaddr d \<and> sa_family s = sa_family d) \<and>
     DNS_NO_TIME < dns_us_time_from_timeval (lt_timeval tp)"

lemma parse_dns_OK:
  assumes "parse_dns K pkt = Inr (r, res)"
  shows "(r = DNS_RET_OK) = (res \<noteq> None)"
    and "res = Some pkt' \<Longrightarrow> src_addr pkt' = src_addr pkt \<and> dst_addr pkt' = dst_addr pkt \<and>
      response pkt' = response pkt \<and> ts pkt' = ts pkt \<and> dns_id pkt' = wire_id (knot_packet pkt')"
  using assms
  by (auto simp: parse_dns_def Let_def split: prod.splits knot_ret.splits if_splits)

lemma dns_packet_create_fields:
  assumes "dns_packet_create K data len = Inr pkt"
  shows "response pkt = None" and "memory_size pkt = struct_sizes K + ucast len"
    and "length (dns_data pkt) = unat len"
  using assms by (auto simp: dns_packet_create_def res_simps split: option.splits if_splits)

lemma dns_packet_create_ok:
  assumes "case data of None \<Rightarrow> len = 0 | Some mem \<Rightarrow> unat len \<le> length mem"
  shows "\<exists>pkt. dns_packet_create K data len = Inr pkt"
  using assms by (auto simp: dns_packet_create_def split: option.splits)

lemma transport_payload_not_OK: "transport_payload tp proto rem \<noteq> Inr (Inl DNS_RET_OK)"
  by (simp add: transport_payload_def Let_def split: option.splits prod.splits list.splits)

text \<open>A result is a code with a packet exactly when the code is \<open>DNS_RET_OK\<close>.\<close>

lemma create_from_libtrace_cases:
  assumes "dns_packet_create_from_libtrace K tp = Inr (r, res)"
  obtains (drop) "r \<noteq> DNS_RET_OK" and "res = None"
  | (parsed) proto len data pkt0 src dst where
      "dns_packet_create K data len = Inr pkt0"
      "lt_source_address tp = Some src" and "lt_destination_address tp = Some dst"
      "parse_dns K (fill_net tp proto src dst (pkt0\<lparr>dns_data_size_orig := lt_payload_length tp,
           ts := dns_us_time_from_timeval (lt_timeval tp)\<rparr>)) = Inr (r, res)"
proof (cases "lt_transport tp")
  case None
  with assms show ?thesis by (intro drop) (simp_all add: dns_packet_create_from_libtrace_def)
next
  case (Some pr)
  obtain proto rem where pr: "pr = (proto, rem)" by force
  note [simp] = dns_packet_create_from_libtrace_def
  show ?thesis
  proof (cases "0 < fst (lt_fragment tp) \<or> snd (lt_fragment tp) \<noteq> 0")
    case True
    with assms Some pr show ?thesis by (intro drop) auto
  next
    case False
    with assms Some pr obtain d where d: "transport_payload tp proto rem = Inr d"
      by (cases "transport_payload tp proto rem") auto
    show ?thesis
    proof (cases d)
      case (Inl c)
      with d transport_payload_not_OK have "c \<noteq> DNS_RET_OK" by auto
      with assms Some pr False d Inl show ?thesis by (intro drop) auto
    next
      case (Inr dl)
      obtain data len where dl: "dl = (data, len)" by force
      from assms Some pr False d Inr dl obtain pkt0 where pkt0: "dns_packet_create K data len = Inr pkt0"
        by (cases "dns_packet_create K data len") auto
      from assms Some pr False d Inr dl pkt0 show ?thesis
        by (auto simp: Let_def split: option.splits intro: drop parsed)
    qed
  qed
qed

lemma create_from_libtrace_packet:
  assumes "dns_packet_create_from_libtrace K tp = Inr (r, res)"
  shows "(r = DNS_RET_OK) = (res \<noteq> None)"
    and "libtrace_ok tp \<Longrightarrow> res = Some pkt \<Longrightarrow> wf_packet pkt \<and> response pkt = None \<and>
      ts pkt = dns_us_time_from_timeval (lt_timeval tp) \<and> dns_id pkt = wire_id (knot_packet pkt)"
proof -
  show "(r = DNS_RET_OK) = (res \<noteq> None)"
    using assms by (cases rule: create_from_libtrace_cases) (auto dest: parse_dns_OK(1))
next
  assume ok: "libtrace_ok tp" and res: "res = Some pkt"
  from assms show "wf_packet pkt \<and> response pkt = None \<and>
      ts pkt = dns_us_time_from_timeval (lt_timeval tp) \<and> dns_id pkt = wire_id (knot_packet pkt)"
  proof (cases rule: create_from_libtrace_cases)
    case drop
    with res show ?thesis by simp
  next
    case (parsed proto len data pkt0 src dst)
    let ?p = "fill_net tp proto src dst (pkt0\<lparr>dns_data_size_orig := lt_payload_length tp,
           ts := dns_us_time_from_timeval (lt_timeval tp)\<rparr>)"
    have f: "src_addr pkt = src" "dst_addr pkt = dst" "response pkt = response pkt0"
      "ts pkt = dns_us_time_from_timeval (lt_timeval tp)" "dns_id pkt = wire_id (knot_packet pkt)"
      using parse_dns_OK(2) [OF parsed(4) res] by (simp_all add: fill_net_def)
    show ?thesis
      using f parsed(2,3) ok dns_packet_create_fields(1) [OF parsed(1)]
      by (auto simp: wf_packet_def libtrace_ok_def)
  qed
qed

lemma transport_payload_not_tcp:
  assumes "proto \<noteq> TRACE_IPPROTO_TCP"
  shows "transport_payload tp proto rem = Inr (Inr (lt_payload_from tp proto rem)) \<or>
    transport_payload tp proto rem = Inr (Inl DNS_RET_DROP_TRANSPORT)"
  using assms by (simp add: transport_payload_def)

lemma parse_dns_returns:
  assumes "\<And>kp. fst (knot_pkt_parse K kp) \<noteq> KNOT_ENOMEM"
  shows "\<exists>r res. parse_dns K pkt = Inr (r, res)"
proof -
  obtain c kp where q: "knot_pkt_parse_question K (knot_packet pkt) = (c, kp)" by force
  obtain c' kp' where p: "knot_pkt_parse K kp = (c', kp')" by force
  have "c' \<noteq> KNOT_ENOMEM" using assms [of kp] p by simp
  then show ?thesis
    using q p by (cases c; cases c') (simp_all add: parse_dns_def Let_def)
qed

lemma create_from_libtrace_returns:
  assumes ok: "libtrace_ok tp"
    and knot: "\<And>kp. fst (knot_pkt_parse K kp) \<noteq> KNOT_ENOMEM"
    and t: "lt_transport tp = Some (proto, rem)" and "proto \<noteq> TRACE_IPPROTO_TCP"
  shows "\<exists>r res. dns_packet_create_from_libtrace K tp = Inr (r, res)"
proof -
  obtain data len where p: "lt_payload_from tp proto rem = (data, len)" by force
  have "case lt_payload_from tp proto rem of
      (None, rem') \<Rightarrow> rem' = 0 | (Some mem, rem') \<Rightarrow> unat rem' = length mem"
    using ok by (simp add: libtrace_ok_def)
  with p have "case data of None \<Rightarrow> len = 0 | Some mem \<Rightarrow> unat len \<le> length mem"
    by (auto split: option.splits)
  then obtain pkt where "dns_packet_create K data len = Inr pkt"
    using dns_packet_create_ok by blast
  then show ?thesis
    using t p transport_payload_not_tcp [OF assms(4), of tp rem] parse_dns_returns [OF knot]
    by (auto simp: dns_packet_create_from_libtrace_def Let_def split: option.splits)
qed

section \<open>Concrete packets\<close>

text \<open>A request over UDP and its response, used by the witnesses of several theories.\<close>

definition ex_addr :: "u8 \<Rightarrow> u16 \<Rightarrow> sockaddr" where
  "ex_addr host port = \<lparr>sa_family = AF_INET, sa_port = ntohs port,
     sa_in_addr = [10, 0, 0, host], sa_in6_addr = replicate 16 0\<rparr>"

definition ex_knot :: "bool \<Rightarrow> knot_pkt" where
  "ex_knot qr = \<lparr>wire_qr = qr, wire_id = 7, wire_opcode = 0, wire_rcode = 0,
     wire_aa = False, wire_tc = False, wire_rd = True, wire_ra = False, wire_z = False,
     wire_ad = False, wire_cd = False, wire_ancount = 1, wire_nscount = 0, wire_arcount = 0,
     qname_size = 4, knot_qname = Some [2, 99, 122, 0], knot_qtype = 1, knot_qclass = 1,
     opt_rr = None\<rparr>"

definition ex_packet :: "int \<Rightarrow> bool \<Rightarrow> dns_packet" where
  "ex_packet t qr = \<lparr>ts = t,
     src_addr = (if qr then ex_addr 53 53 else ex_addr 1 4242),
     dst_addr = (if qr then ex_addr 1 4242 else ex_addr 53 53),
     net_protocol = TRACE_IPPROTO_UDP, net_size = 70, net_ttl = 64, net_udp_sum = 0, dns_id = 7,
     response = None, dns_data = [], dns_data_size = 0, dns_data_size_orig = 20,
     knot_packet = ex_knot qr, memory_size = 600\<rparr>"

definition ex_knot_lib :: knot_lib where
  "ex_knot_lib = \<lparr>knot_pkt_new = (\<lambda>_. ex_knot False),
     knot_pkt_parse_question = (\<lambda>kp. (KNOT_EOK, kp)), knot_pkt_parse = (\<lambda>kp. (KNOT_EOK, kp)),
     knot_dname_is_equal = (=), struct_sizes = 500\<rparr>"

definition ex_trace :: "u8 \<Rightarrow> u8 list \<Rightarrow> libtrace_packet" where
  "ex_trace proto payload = \<lparr>lt_transport = Some (proto, 32), lt_ip_ttl = Some 64,
     lt_ip6_hlim = None, lt_tcp = (if proto = TRACE_IPPROTO_TCP then Some (False, False) else None),
     lt_udp_check = None, lt_fragment = (0, 0),
     lt_payload_from = (\<lambda>_ _. (Some payload, of_nat (length payload))),
     lt_payload_length = of_nat (length payload), lt_timeval = \<lparr>tv_sec = 1, tv_usec = 5\<rparr>,
     lt_timespec = \<lparr>ts_sec = 1, ts_nsec = 5000\<rparr>,
     lt_source_address = Some (ex_addr 1 4242), lt_destination_address = Some (ex_addr 53 53),
     lt_wire_length = 70\<rparr>"

lemmas ex_packet_simps =
  ex_packet_def ex_addr_def ex_knot_def wf_packet_def wf_sockaddr_def AF_INET_def DNS_NO_TIME_def

lemma ex_packet_wf: "t \<noteq> DNS_NO_TIME \<Longrightarrow> wf_packet (ex_packet t qr)"
  by (simp add: ex_packet_simps)

lemma ex_trace_ok: "length payload < 100 \<Longrightarrow> libtrace_ok (ex_trace proto payload)"
  by (simp add: libtrace_ok_def ex_trace_def ex_addr_def wf_sockaddr_def DNS_NO_TIME_def
      dns_us_time_from_timeval_def unat_of_nat)

section \<open>Properties\<close>

text \<open>
  C18: \<open>dns_packet_primary_match\<close> compares exactly the address family, transport, DNS ID
  and the client and server end points: for well-formed packets of either direction it
  holds if and only if their keys are equal. Packets that match have the same primary hash,
  for every hash parameter, so a response is looked up in the chain where its request was
  inserted.
\<close>

theorem primary_match_spec:
  assumes "wf_packet p" and "wf_packet q"
  shows "(dns_packet_primary_match p q \<longleftrightarrow> match_key p = match_key q) \<and>
    (dns_packet_primary_match p q \<longrightarrow> (\<forall>param. dns_packet_primary_hash p param = dns_packet_primary_hash q param))"
  using primary_match_iff_key [OF assms] primary_hash_key [OF assms] by simp

theorem primary_match_spec_witness:
  "wf_packet (ex_packet 1 False) \<and> wf_packet (ex_packet 2 True) \<and>
   dns_packet_primary_match (ex_packet 1 False) (ex_packet 2 True) \<and>
   dns_packet_primary_hash (ex_packet 1 False) 1000003 = dns_packet_primary_hash (ex_packet 2 True) 1000003"
proof -
  have wf: "wf_packet (ex_packet 1 False)" "wf_packet (ex_packet 2 True)"
    by (simp_all add: ex_packet_wf DNS_NO_TIME_def)
  have "match_key (ex_packet 1 False) = match_key (ex_packet 2 True)"
    by (simp add: match_key_def packet_getter_defs ex_packet_def ex_knot_def ex_addr_def)
  with wf show ?thesis using primary_match_spec [OF wf] by blast
qed

text \<open>
  C25: \<open>dns_packet_create_from_libtrace\<close> stores a packet exactly when it returns
  \<open>DNS_RET_OK\<close>, and such a packet is well formed, has no response yet, carries the capture
  time in microseconds and the DNS ID of its message.
\<close>

theorem create_from_libtrace_correct:
  assumes "libtrace_ok tp" and "dns_packet_create_from_libtrace K tp = Inr (r, res)"
  shows "(r = DNS_RET_OK) = (res \<noteq> None) \<and>
    (case res of None \<Rightarrow> True | Some pkt \<Rightarrow> wf_packet pkt \<and> response pkt = None \<and>
       ts pkt = dns_us_time_from_timeval (lt_timeval tp) \<and> dns_id pkt = wire_id (knot_packet pkt))"
  using create_from_libtrace_packet [OF assms(2)] assms(1) by (auto split: option.split)

theorem create_from_libtrace_correct_witness:
  "\<exists>pkt. dns_packet_create_from_libtrace ex_knot_lib (ex_trace TRACE_IPPROTO_UDP (replicate 20 0))
       = Inr (DNS_RET_OK, Some pkt) \<and> wf_packet pkt \<and> ts pkt = 1000005"
proof -
  let ?tp = "ex_trace TRACE_IPPROTO_UDP (replicate 20 0)"
  have ok: "libtrace_ok ?tp" by (rule ex_trace_ok) simp
  obtain pkt where r: "dns_packet_create_from_libtrace ex_knot_lib ?tp = Inr (DNS_RET_OK, Some pkt)"
    by (simp add: dns_packet_create_from_libtrace_def ex_trace_def transport_payload_def
        TRACE_IPPROTO_UDP_def TRACE_IPPROTO_TCP_def dns_packet_create_def parse_dns_def
        ex_knot_lib_def fill_net_def packet_getter_defs ex_knot_def Let_def)
  have "lt_timeval ?tp = \<lparr>tv_sec = 1, tv_usec = 5\<rparr>" by (simp add: ex_trace_def)
  then show ?thesis
    using r create_from_libtrace_correct [OF ok r] by (simp add: dns_us_time_from_timeval_def)
qed



text \<open>
  C27: the TCP branch tests the length of the whole segment, not of its payload, before it
  reads the two length bytes. A segment without SYN and FIN whose payload is shorter than
  two bytes, such as a pure acknowledgement, is read out of bounds.
\<close>

theorem tcp_short_payload_faults:
  assumes "lt_transport tp = Some (TRACE_IPPROTO_TCP, rem)" and "2 \<le> rem"
    and "lt_fragment tp = (0, 0)" and "lt_tcp tp = Some (False, False)"
    and "lt_payload_from tp TRACE_IPPROTO_TCP rem = (Some mem, len)" and "length mem < 2"
  shows "\<exists>s. dns_packet_create_from_libtrace K tp = Inl (Bad_pointer s)"
proof -
  have "transport_payload tp TRACE_IPPROTO_TCP rem = Inl (Bad_pointer ''*(uint16_t *)dns_data'')"
    using assms(2,4-6) by (auto simp: transport_payload_def not_less [symmetric] split: list.splits)
  with assms(1,3) show ?thesis by (simp add: dns_packet_create_from_libtrace_def)
qed

theorem tcp_short_payload_faults_witness:
  "libtrace_ok (ex_trace TRACE_IPPROTO_TCP []) \<and>
   (\<exists>s. dns_packet_create_from_libtrace ex_knot_lib (ex_trace TRACE_IPPROTO_TCP [])
      = Inl (Bad_pointer s))"
proof
  show "libtrace_ok (ex_trace TRACE_IPPROTO_TCP [])" by (rule ex_trace_ok) simp
  show "\<exists>s. dns_packet_create_from_libtrace ex_knot_lib (ex_trace TRACE_IPPROTO_TCP [])
      = Inl (Bad_pointer s)"
    by (rule tcp_short_payload_faults [where rem = 32 and mem = "[]" and len = 0])
      (simp_all add: ex_trace_def)
qed

end
