(* ===== verification/Packet_Frame.thy ===== *)
theory Packet_Frame
  imports Dns_Packet
begin

text \<open>
  \<^verbatim>\<open>src/packet_frame.h\<close> and \<^verbatim>\<open>src/packet_frame.c\<close>: the container that carries packets between
  the threads. A frame owns its packets; the list of their addresses models the linked
  list. Destroying a frame frees every packet in it together with the responses that
  matched requests own.
\<close>

section \<open>The frame\<close>

record dns_packet_frame =
  time_start :: int
  time_end :: int
  frame_type :: int
  fr_packets :: "pid list"
  fr_count :: nat
  fr_size :: u64

definition dns_packet_frame_create :: "int \<Rightarrow> int \<Rightarrow> dns_packet_frame" where
  "dns_packet_frame_create t_start t_end =
     \<lparr>time_start = t_start, time_end = t_end, frame_type = 0, fr_packets = [], fr_count = 0, fr_size = 0\<rparr>"

definition dns_packet_frame_create_final :: "int \<Rightarrow> dns_packet_frame" where
  "dns_packet_frame_create_final t = (dns_packet_frame_create t t)\<lparr>frame_type := 1\<rparr>"

text \<open>The loop of \<open>dns_packet_frame_destroy\<close> over the packets of the frame.\<close>

fun destroy_packets :: "heap \<Rightarrow> pid list \<Rightarrow> heap run" where
  "destroy_packets h [] = Some (Inr h)"
| "destroy_packets h (p # ps) = bindo (dns_packet_destroy h p) (\<lambda>h'. destroy_packets h' ps)"

definition dns_packet_frame_destroy :: "heap \<Rightarrow> dns_packet_frame \<Rightarrow> heap run" where
  "dns_packet_frame_destroy h frame = destroy_packets h (fr_packets frame)"

definition dns_packet_frame_append_packet ::
    "heap \<Rightarrow> dns_packet_frame \<Rightarrow> pid \<Rightarrow> dns_packet_frame res" where
  "dns_packet_frame_append_packet h frame p =
     bindr (deref h p) (\<lambda>pkt. Inr (frame\<lparr>
       fr_packets := fr_packets frame @ [p],
       time_end := (if time_end frame = DNS_NO_TIME \<or> time_end frame < ts pkt then ts pkt
                    else time_end frame),
       fr_count := fr_count frame + 1,
       fr_size := fr_size frame + memory_size pkt\<rparr>))"

section \<open>Ownership and well-formedness\<close>

text \<open>The addresses freed with a packet: its own and that of the response it owns.\<close>

definition owned :: "heap \<Rightarrow> pid \<Rightarrow> pid list" where
  "owned h p = p # (case h p of None \<Rightarrow> [] | Some pkt \<Rightarrow> (case response pkt of None \<Rightarrow> [] | Some r \<Rightarrow> [r]))"

definition owned_all :: "heap \<Rightarrow> pid list \<Rightarrow> pid list" where
  "owned_all h ps = concat (map (owned h) ps)"

text \<open>A packet that may be handed over: allocated, and its response owns nothing itself.\<close>

definition packet_ok :: "heap \<Rightarrow> pid \<Rightarrow> bool" where
  "packet_ok h p \<longleftrightarrow> (case h p of
      None \<Rightarrow> False
    | Some pkt \<Rightarrow> (case response pkt of
          None \<Rightarrow> True
        | Some r \<Rightarrow> (case h r of None \<Rightarrow> False | Some rsp \<Rightarrow> response rsp = None)))"

text \<open>The count and size that a frame reports are those of its packets.\<close>

definition wf_frame :: "heap \<Rightarrow> dns_packet_frame \<Rightarrow> bool" where
  "wf_frame h frame \<longleftrightarrow> fr_count frame = length (fr_packets frame) \<and>
     (\<forall>p \<in> set (fr_packets frame). h p \<noteq> None) \<and>
     fr_size frame = sum_list (map (\<lambda>p. memory_size (the (h p))) (fr_packets frame))"

section \<open>Lemmas\<close>

lemma frame_create_simps [simp]:
  "time_start (dns_packet_frame_create s e) = s" "time_end (dns_packet_frame_create s e) = e"
  "frame_type (dns_packet_frame_create s e) = 0" "fr_packets (dns_packet_frame_create s e) = []"
  "fr_count (dns_packet_frame_create s e) = 0" "fr_size (dns_packet_frame_create s e) = 0"
  by (simp_all add: dns_packet_frame_create_def)

lemma frame_create_final_simps [simp]:
  "time_start (dns_packet_frame_create_final t) = t" "time_end (dns_packet_frame_create_final t) = t"
  "frame_type (dns_packet_frame_create_final t) = 1"
  "fr_packets (dns_packet_frame_create_final t) = []" "fr_count (dns_packet_frame_create_final t) = 0"
  by (simp_all add: dns_packet_frame_create_final_def)

lemma wf_frame_create [simp]: "wf_frame h (dns_packet_frame_create s e)"
  by (simp add: wf_frame_def)

text \<open>The frame after \<open>dns_packet_frame_append_packet\<close> of a packet.\<close>

definition frame_with :: "dns_packet_frame \<Rightarrow> pid \<Rightarrow> dns_packet \<Rightarrow> dns_packet_frame" where
  "frame_with frame p pkt = frame\<lparr>
       fr_packets := fr_packets frame @ [p],
       time_end := (if time_end frame = DNS_NO_TIME \<or> time_end frame < ts pkt then ts pkt
                    else time_end frame),
       fr_count := fr_count frame + 1,
       fr_size := fr_size frame + memory_size pkt\<rparr>"

lemma append_packet_Some:
  "h p = Some pkt \<Longrightarrow> dns_packet_frame_append_packet h frame p = Inr (frame_with frame p pkt)"
  by (simp add: dns_packet_frame_append_packet_def frame_with_def)

lemma append_packet_InrE:
  assumes "dns_packet_frame_append_packet h frame p = Inr frame'"
  obtains pkt where "h p = Some pkt" and "frame' = frame_with frame p pkt"
  using assms by (cases "h p") (simp_all add: dns_packet_frame_append_packet_def frame_with_def deref_def)

lemma frame_with_simps [simp]:
  "fr_packets (frame_with frame p pkt) = fr_packets frame @ [p]"
  "time_start (frame_with frame p pkt) = time_start frame"
  "frame_type (frame_with frame p pkt) = frame_type frame"
  "fr_count (frame_with frame p pkt) = fr_count frame + 1"
  "fr_size (frame_with frame p pkt) = fr_size frame + memory_size pkt"
  "time_end (frame_with frame p pkt) = (if time_end frame = DNS_NO_TIME \<or> time_end frame < ts pkt
     then ts pkt else time_end frame)"
  by (simp_all add: frame_with_def)

lemma wf_frame_append:
  assumes "wf_frame h frame" and "dns_packet_frame_append_packet h frame p = Inr frame'"
  shows "wf_frame h frame'"
  using assms(2)
proof (cases rule: append_packet_InrE)
  case (1 pkt)
  with assms(1) show ?thesis by (simp add: wf_frame_def)
qed

lemma owned_all_Cons: "owned_all h (p # ps) = owned h p @ owned_all h ps"
  by (simp add: owned_all_def)

lemma owned_all_simps [simp]:
  "owned_all h [] = []" "owned_all h (ps @ qs) = owned_all h ps @ owned_all h qs"
  by (simp_all add: owned_all_def)

lemma owned_self [simp]: "p \<in> set (owned h p)"
  by (simp add: owned_def)

lemma dns_packet_destroy_owned:
  assumes "packet_ok h p"
  shows "dns_packet_destroy h p = Some (Inr (\<lambda>x. if x \<in> set (owned h p) then None else h x))"
proof -
  obtain pkt where pkt: "h p = Some pkt"
    using assms by (auto simp: packet_ok_def split: option.splits)
  show ?thesis
  proof (cases "response pkt")
    case None
    have "h(p := None) = (\<lambda>x. if x \<in> set (owned h p) then None else h x)"
      by (rule ext) (simp add: owned_def pkt None)
    with dns_packet_destroy_leaf [of h p pkt] pkt None show ?thesis by simp
  next
    case (Some r)
    then obtain rsp where r: "h r = Some rsp" "response rsp = None"
      using assms pkt by (auto simp: packet_ok_def split: option.splits)
    have "h(r := None, p := None) = (\<lambda>x. if x \<in> set (owned h p) then None else h x)"
      by (rule ext) (simp add: owned_def pkt Some)
    with dns_packet_destroy_pair [of h p pkt r rsp] pkt Some r show ?thesis by simp
  qed
qed

text \<open>Freeing addresses that a packet does not own leaves the packet as it was.\<close>

lemma packet_ok_restrict:
  assumes "packet_ok h p" and "set (owned h p) \<inter> D = {}"
  shows "packet_ok (\<lambda>x. if x \<in> D then None else h x) p"
    and "owned (\<lambda>x. if x \<in> D then None else h x) p = owned h p"
  using assms by (auto simp: packet_ok_def owned_def split: option.splits)

lemma destroy_packets_owned:
  assumes "\<And>p. p \<in> set ps \<Longrightarrow> packet_ok h p" and "distinct (owned_all h ps)"
  shows "destroy_packets h ps
    = Some (Inr (\<lambda>x. if x \<in> set (owned_all h ps) then None else h x))"
  using assms
proof (induction ps arbitrary: h)
  case (Cons p ps)
  let ?h = "\<lambda>x. if x \<in> set (owned h p) then None else h x"
  have dis: "set (owned h q) \<inter> set (owned h p) = {}" if "q \<in> set ps" for q
  proof -
    have "set (owned h q) \<subseteq> set (owned_all h ps)"
      using that by (auto simp: owned_all_def)
    with Cons.prems(2) show ?thesis by (auto simp: owned_all_Cons)
  qed
  have keep: "packet_ok ?h q" "owned ?h q = owned h q" if "q \<in> set ps" for q
  proof -
    have "packet_ok h q" using Cons.prems(1) [of q] that by simp
    from packet_ok_restrict [OF this dis [OF that]]
    show "packet_ok ?h q" "owned ?h q = owned h q" .
  qed
  have all: "owned_all ?h ps = owned_all h ps"
    unfolding owned_all_def by (rule concat_map_cong_set) (rule keep(2))
  have "destroy_packets ?h ps = Some (Inr (\<lambda>x. if x \<in> set (owned_all ?h ps) then None else ?h x))"
  proof (rule Cons.IH)
    show "distinct (owned_all ?h ps)"
      unfolding all using Cons.prems(2) by (simp add: owned_all_Cons)
  qed (rule keep(1))
  also have "(\<lambda>x. if x \<in> set (owned_all ?h ps) then None else ?h x)
      = (\<lambda>x. if x \<in> set (owned_all h (p # ps)) then None else h x)"
    by (rule ext) (simp add: all owned_all_Cons)
  finally have "destroy_packets ?h ps
      = Some (Inr (\<lambda>x. if x \<in> set (owned_all h (p # ps)) then None else h x))" .
  moreover have "dns_packet_destroy h p = Some (Inr ?h)"
    by (rule dns_packet_destroy_owned) (simp add: Cons.prems(1))
  ultimately show ?case by simp
qed simp

text \<open>A heap for the examples: packet 1 owns packet 2.\<close>

definition ex_heap2 :: heap where
  "ex_heap2 = [1 \<mapsto> (ex_packet 10 False)\<lparr>response := Some 2\<rparr>, 2 \<mapsto> ex_packet 20 True, 3 \<mapsto> ex_packet 30 True]"

end
