(* ===== verification/Packet_Hash.thy ===== *)
theory Packet_Hash
  imports Packet_Frame
begin

text \<open>
  \<^verbatim>\<open>src/packet_hash.h\<close> and \<^verbatim>\<open>src/packet_hash.c\<close>: the hash table of requests that wait for a
  response. The array \<open>data\<close> is a list of chains, a chain the list of buckets linked by
  \<open>next\<close>, a bucket the list of the packets linked by \<open>secnode\<close>. A place \<open>struct \<dots> **bp\<close> in
  a chain is a pair of the chain's number and a position in it; the position behind the
  last bucket is the place where \<open>*bp\<close> is null. The back pointer \<open>prevp\<close> is written by
  \<open>dns_packet_hash_resize\<close> and never read, and is left out; \<open>dns_packet_hash_destroy\<close> frees
  the buckets and no packets, and has no effect on the state modelled here. Capacities
  are natural numbers: tables have far fewer than \<open>2 ^ 57\<close> buckets, so the products with
  percentages do not wrap.
\<close>

section \<open>The table\<close>

record dns_packet_hash_bucket =
  hash_value :: u64
  b_packets :: "pid list"

record dns_packet_hash =
  ph_capacity :: nat
  ph_min_capacity :: nat
  ph_buckets :: nat
  ph_seed :: u64
  ph_data :: "dns_packet_hash_bucket list list"

definition DNS_PACKET_HASH_MIN_PERCENT :: nat where
  "DNS_PACKET_HASH_MIN_PERCENT = 25"

definition DNS_PACKET_HASH_BEST_PERCENT :: nat where
  "DNS_PACKET_HASH_BEST_PERCENT = 50"

definition DNS_PACKET_HASH_MAX_PERCENT :: nat where
  "DNS_PACKET_HASH_MAX_PERCENT = 75"

definition DNS_PACKET_HASH_MAX_SEARCH :: nat where
  "DNS_PACKET_HASH_MAX_SEARCH = 32"

text \<open>\<open>random1\<close> and \<open>random2\<close> are the values of the two calls of \<open>random()\<close>.\<close>

definition dns_packet_hash_create :: "u64 \<Rightarrow> u64 \<Rightarrow> nat \<Rightarrow> u64 \<Rightarrow> dns_packet_hash" where
  "dns_packet_hash_create random1 random2 cap seed =
     \<lparr>ph_capacity = cap, ph_min_capacity = cap, ph_buckets = 0,
      ph_seed = (if seed = 0 then random1 + push_bit 32 random2 else seed),
      ph_data = replicate cap []\<rparr>"

text \<open>The body of the loop of \<open>dns_packet_hash_resize\<close>: a bucket moves to the front of its new chain.\<close>

definition move_bucket ::
    "nat \<Rightarrow> dns_packet_hash_bucket \<Rightarrow> dns_packet_hash_bucket list list \<Rightarrow> dns_packet_hash_bucket list list" where
  "move_bucket new_capacity b new_data =
     (let mod_hash = unat (hash_value b) mod new_capacity
      in new_data[mod_hash := b # new_data ! mod_hash])"

definition dns_packet_hash_resize :: "dns_packet_hash \<Rightarrow> nat \<Rightarrow> dns_packet_hash" where
  "dns_packet_hash_resize h new_capacity =
     (let new_capacity = (if new_capacity < ph_min_capacity h then ph_min_capacity h else new_capacity) in
      if new_capacity = ph_capacity h then h
      else h\<lparr>ph_data := fold (move_bucket new_capacity) (concat (ph_data h)) (replicate new_capacity []),
             ph_capacity := new_capacity\<rparr>)"

text \<open>
  The loop of \<open>dns_packet_hash_find_bucket\<close> along one chain: the position of the first
  bucket with this hash whose first packet matches, or the end of the chain.
\<close>

fun find_in_chain :: "heap \<Rightarrow> dns_packet \<Rightarrow> u64 \<Rightarrow> dns_packet_hash_bucket list \<Rightarrow> nat res" where
  "find_in_chain hp pkt hv [] = Inr 0"
| "find_in_chain hp pkt hv (b # bs) =
     (let next = bindr (find_in_chain hp pkt hv bs) (\<lambda>j. Inr (Suc j)) in
      if hash_value b = hv then
        (case b_packets b of
           [] \<Rightarrow> Inl (Bad_pointer ''first_packet'')
         | q # _ \<Rightarrow> bindr (deref hp q) (\<lambda>first_packet.
             if dns_packet_primary_match pkt first_packet then Inr 0 else next))
      else next)"

definition dns_packet_hash_find_bucket ::
    "heap \<Rightarrow> dns_packet_hash \<Rightarrow> dns_packet \<Rightarrow> u64 \<Rightarrow> (nat \<times> nat) res" where
  "dns_packet_hash_find_bucket hp h pkt hv =
     (let i = unat hv mod ph_capacity h in
      if i < length (ph_data h)
      then bindr (find_in_chain hp pkt hv (ph_data h ! i)) (\<lambda>j. Inr (i, j))
      else Inl (Bad_pointer ''h->data''))"

text \<open>
  \<open>dns_packet_hash_insert_packet\<close>. A new bucket is linked in at the place found and the
  packet is put at the head of its list. The C code links the packet after the table was
  resized; the bucket is the same object before and after, so here it carries the packet
  when it is moved.
\<close>

definition dns_packet_hash_insert_packet ::
    "heap \<Rightarrow> dns_packet_hash \<Rightarrow> pid \<Rightarrow> dns_packet_hash res" where
  "dns_packet_hash_insert_packet hp h p =
     bindr (deref hp p) (\<lambda>pkt.
     bindr (dns_packet_primary_hash pkt (ph_seed h)) (\<lambda>hv.
     bindr (dns_packet_hash_find_bucket hp h pkt hv) (\<lambda>(i, j).
       let chain = ph_data h ! i in
       if j = length chain then
         let h = h\<lparr>ph_data := (ph_data h)[i := chain @ [\<lparr>hash_value = hv, b_packets = [p]\<rparr>]],
                   ph_buckets := ph_buckets h + 1\<rparr> in
         Inr (if ph_buckets h > ph_capacity h * DNS_PACKET_HASH_MAX_PERCENT div 100
              then dns_packet_hash_resize h (ph_buckets h * 100 div DNS_PACKET_HASH_BEST_PERCENT)
              else h)
       else
         let b = chain ! j in
         Inr (h\<lparr>ph_data := (ph_data h)[i := chain[j := b\<lparr>b_packets := p # b_packets b\<rparr>]]\<rparr>))))"

definition dns_packet_hash_remove_from_bucket ::
    "dns_packet_hash \<Rightarrow> pid \<Rightarrow> nat \<times> nat \<Rightarrow> dns_packet_hash res" where
  "dns_packet_hash_remove_from_bucket h p bp =
     (let i = fst bp; j = snd bp; chain = ph_data h ! i in
      bindr (assertr (j < length chain) ''h && p && bp && (*bp)'') (\<lambda>_.
        let b = (chain ! j)\<lparr>b_packets := remove1 p (b_packets (chain ! j))\<rparr> in
        if b_packets b = [] then
          let h = h\<lparr>ph_data := (ph_data h)[i := take j chain @ drop (Suc j) chain],
                    ph_buckets := ph_buckets h - 1\<rparr> in
          Inr (if ph_buckets h < ph_capacity h * DNS_PACKET_HASH_MIN_PERCENT div 100
               then dns_packet_hash_resize h (ph_buckets h * 100 div DNS_PACKET_HASH_BEST_PERCENT)
               else h)
        else Inr (h\<lparr>ph_data := (ph_data h)[i := chain[j := b]]\<rparr>)))"

text \<open>
  The walk of \<open>dns_packet_hash_get_match\<close> along a bucket, with the counter \<open>cnt\<close> of the
  packets passed. \<open>dname_eq\<close> is libknot's comparison of names.
\<close>

fun search_bucket ::
    "(u8 list \<Rightarrow> u8 list \<Rightarrow> bool) \<Rightarrow> heap \<Rightarrow> dns_packet \<Rightarrow> bool \<Rightarrow> nat \<Rightarrow> pid list \<Rightarrow> pid option res" where
  "search_bucket dname_eq hp rsp match_qname cnt [] = Inr None"
| "search_bucket dname_eq hp rsp match_qname cnt (q # qs) =
     bindr (deref hp q) (\<lambda>req.
     bindr (if match_qname then dns_packet_qname_match dname_eq req rsp else Inr True) (\<lambda>found.
       if found then Inr (Some q)
       else if cnt + 1 > DNS_PACKET_HASH_MAX_SEARCH then Inr None
       else search_bucket dname_eq hp rsp match_qname (cnt + 1) qs))"

definition dns_packet_hash_get_match ::
    "(u8 list \<Rightarrow> u8 list \<Rightarrow> bool) \<Rightarrow> heap \<Rightarrow> dns_packet_hash \<Rightarrow> pid \<Rightarrow> bool \<Rightarrow>
     (pid option \<times> dns_packet_hash) res" where
  "dns_packet_hash_get_match dname_eq hp h p match_qname =
     bindr (deref hp p) (\<lambda>pkt.
     bindr (dns_packet_primary_hash pkt (ph_seed h)) (\<lambda>hv.
     bindr (dns_packet_hash_find_bucket hp h pkt hv) (\<lambda>(i, j).
       let chain = ph_data h ! i in
       if j = length chain then Inr (None, h)
       else bindr (search_bucket dname_eq hp pkt match_qname 0 (b_packets (chain ! j))) (\<lambda>r.
         case r of
           None \<Rightarrow> Inr (None, h)
         | Some req \<Rightarrow> bindr (dns_packet_hash_remove_from_bucket h req (i, j))
             (\<lambda>h'. Inr (Some req, h'))))))"

definition dns_packet_hash_remove_packet ::
    "heap \<Rightarrow> dns_packet_hash \<Rightarrow> pid \<Rightarrow> dns_packet_hash res" where
  "dns_packet_hash_remove_packet hp h p =
     bindr (deref hp p) (\<lambda>pkt.
     bindr (dns_packet_primary_hash pkt (ph_seed h)) (\<lambda>hv.
     bindr (dns_packet_hash_find_bucket hp h pkt hv) (\<lambda>(i, j).
     bindr (assertr (j < length (ph_data h ! i)) ''*bp'') (\<lambda>_.
       dns_packet_hash_remove_from_bucket h p (i, j)))))"

section \<open>Specification\<close>

text \<open>
  The abstract table: for every key the requests with this key, newest first. A bucket
  stands for the key of its first packet.
\<close>

definition bucket_key :: "heap \<Rightarrow> dns_packet_hash_bucket \<Rightarrow> match_key" where
  "bucket_key hp b = match_key (the (hp (hd (b_packets b))))"

definition lookup_buckets :: "heap \<Rightarrow> dns_packet_hash_bucket list \<Rightarrow> match_key \<Rightarrow> pid list" where
  "lookup_buckets hp bs k = concat (map b_packets (filter (\<lambda>b. bucket_key hp b = k) bs))"

definition hash_lookup :: "heap \<Rightarrow> dns_packet_hash \<Rightarrow> match_key \<Rightarrow> pid list" where
  "hash_lookup hp h k = lookup_buckets hp (concat (ph_data h)) k"

text \<open>A packet stored under a key with a hash: an allocated, well-formed request.\<close>

definition stored_ok :: "heap \<Rightarrow> u64 \<Rightarrow> match_key \<Rightarrow> u64 \<Rightarrow> pid \<Rightarrow> bool" where
  "stored_ok hp seed k hv p \<longleftrightarrow> (case hp p of
      None \<Rightarrow> False
    | Some pkt \<Rightarrow> wf_packet pkt \<and> DNS_PACKET_IS_REQUEST pkt \<and> match_key pkt = k \<and>
        dns_packet_primary_hash pkt seed = Inr hv)"

definition bucket_ok :: "heap \<Rightarrow> u64 \<Rightarrow> dns_packet_hash_bucket \<Rightarrow> bool" where
  "bucket_ok hp seed b \<longleftrightarrow> b_packets b \<noteq> [] \<and>
     (\<forall>p \<in> set (b_packets b). stored_ok hp seed (bucket_key hp b) (hash_value b) p)"

definition good_buckets :: "heap \<Rightarrow> u64 \<Rightarrow> dns_packet_hash_bucket list \<Rightarrow> bool" where
  "good_buckets hp seed bs \<longleftrightarrow> (\<forall>b \<in> set bs. bucket_ok hp seed b) \<and>
     distinct (map (bucket_key hp) bs) \<and> distinct (concat (map b_packets bs))"

text \<open>Every bucket is in the chain that its hash value selects.\<close>

definition placed :: "nat \<Rightarrow> dns_packet_hash_bucket list list \<Rightarrow> bool" where
  "placed cap d \<longleftrightarrow> length d = cap \<and>
     (\<forall>i < cap. \<forall>b \<in> set (d ! i). unat (hash_value b) mod cap = i)"

definition table_ok :: "heap \<Rightarrow> dns_packet_hash \<Rightarrow> bool" where
  "table_ok hp h \<longleftrightarrow> 0x100 < ph_seed h \<and> 0 < ph_min_capacity h \<and> ph_min_capacity h \<le> ph_capacity h \<and>
     placed (ph_capacity h) (ph_data h) \<and> ph_buckets h = length (concat (ph_data h)) \<and>
     good_buckets hp (ph_seed h) (concat (ph_data h))"

text \<open>The invariant between operations also bounds the load of the table.\<close>

definition hash_inv :: "heap \<Rightarrow> dns_packet_hash \<Rightarrow> bool" where
  "hash_inv hp h \<longleftrightarrow> table_ok hp h \<and>
     ph_buckets h \<le> ph_capacity h * DNS_PACKET_HASH_MAX_PERCENT div 100"

definition hash_contents :: "dns_packet_hash \<Rightarrow> pid list" where
  "hash_contents h = concat (map b_packets (concat (ph_data h)))"

section \<open>Lists of buckets\<close>

lemma stored_okD:
  assumes "stored_ok hp seed k hv p"
  obtains pkt where "hp p = Some pkt" and "wf_packet pkt" and "DNS_PACKET_IS_REQUEST pkt"
    and "match_key pkt = k" and "dns_packet_primary_hash pkt seed = Inr hv"
  using assms by (auto simp: stored_ok_def split: option.splits)

lemma stored_ok_Some:
  "hp p = Some pkt \<Longrightarrow> stored_ok hp seed k hv p \<longleftrightarrow> wf_packet pkt \<and> DNS_PACKET_IS_REQUEST pkt \<and>
     match_key pkt = k \<and> dns_packet_primary_hash pkt seed = Inr hv"
  by (simp add: stored_ok_def)

lemma bucket_key_Cons:
  "hp q = Some pkt \<Longrightarrow> bucket_key hp \<lparr>hash_value = hv, b_packets = q # qs\<rparr> = match_key pkt"
  by (simp add: bucket_key_def)

text \<open>The key of a bucket does not depend on which of its packets comes first.\<close>

lemma bucket_key_same:
  assumes "bucket_ok hp seed b" and "set (b_packets b') \<subseteq> set (b_packets b)" and "b_packets b' \<noteq> []"
  shows "bucket_key hp b' = bucket_key hp b"
proof -
  have "hd (b_packets b') \<in> set (b_packets b)" using assms(2,3) by auto
  then have "stored_ok hp seed (bucket_key hp b) (hash_value b) (hd (b_packets b'))"
    using assms(1) by (simp add: bucket_ok_def)
  then show ?thesis by (elim stored_okD) (simp add: bucket_key_def [of hp b'])
qed

lemma good_buckets_perm:
  assumes "mset bs = mset bs'"
  shows "good_buckets hp seed bs = good_buckets hp seed bs'"
proof -
  have "distinct (map (bucket_key hp) bs) = distinct (map (bucket_key hp) bs')"
    by (rule distinct_mset_eq) (simp add: assms)
  moreover have "distinct (concat (map b_packets bs)) = distinct (concat (map b_packets bs'))"
    by (rule distinct_mset_eq) (simp add: mset_concat_map_perm [OF assms])
  moreover have "set bs = set bs'" using assms by (rule mset_eq_setD)
  ultimately show ?thesis by (simp only: good_buckets_def)
qed

lemma lookup_buckets_append:
  "lookup_buckets hp (xs @ ys) k = lookup_buckets hp xs k @ lookup_buckets hp ys k"
  by (simp add: lookup_buckets_def)

lemma lookup_buckets_Cons:
  "lookup_buckets hp (b # bs) k =
     (if bucket_key hp b = k then b_packets b @ lookup_buckets hp bs k else lookup_buckets hp bs k)"
  by (simp add: lookup_buckets_def)

lemma lookup_buckets_absent:
  "k \<notin> bucket_key hp ` set bs \<Longrightarrow> lookup_buckets hp bs k = []"
  by (induction bs) (auto simp: lookup_buckets_def)

lemma lookup_buckets_found:
  assumes "distinct (map (bucket_key hp) (xs @ b # ys))"
  shows "lookup_buckets hp (xs @ b # ys) (bucket_key hp b) = b_packets b"
  using assms by (simp add: lookup_buckets_append lookup_buckets_Cons lookup_buckets_absent image_iff)

lemma lookup_buckets_in:
  assumes "distinct (map (bucket_key hp) bs)" and "b \<in> set bs"
  shows "lookup_buckets hp bs (bucket_key hp b) = b_packets b"
proof -
  obtain xs ys where "bs = xs @ b # ys" using assms(2) by (meson split_list)
  then show ?thesis using lookup_buckets_found assms(1) by blast
qed

lemma lookup_buckets_perm:
  assumes "mset bs = mset bs'" and "distinct (map (bucket_key hp) bs)"
  shows "lookup_buckets hp bs = lookup_buckets hp bs'"
proof (rule ext)
  fix k
  have s: "set bs = set bs'" using assms(1) by (rule mset_eq_setD)
  have d: "distinct (map (bucket_key hp) bs')"
    using assms distinct_mset_eq [of "map (bucket_key hp) bs" "map (bucket_key hp) bs'"] by simp
  show "lookup_buckets hp bs k = lookup_buckets hp bs' k"
  proof (cases "k \<in> bucket_key hp ` set bs")
    case True
    then obtain b where "b \<in> set bs" and "k = bucket_key hp b" by auto
    then show ?thesis using lookup_buckets_in assms(2) d s by metis
  qed (simp add: lookup_buckets_absent s)
qed

section \<open>Resizing\<close>

lemma placed_move_bucket:
  assumes "placed n d" and "0 < n"
  shows "placed n (move_bucket n b d)"
    and "mset (concat (move_bucket n b d)) = add_mset b (mset (concat d))"
proof -
  let ?i = "unat (hash_value b) mod n"
  have i: "?i < length d" using assms by (simp add: placed_def)
  show "placed n (move_bucket n b d)"
    using assms i by (auto simp: placed_def move_bucket_def Let_def nth_list_update)
  obtain xs c ys where d: "d = xs @ c # ys" and len: "length xs = ?i" by (rule nth_splitE [OF i])
  have "move_bucket n b d = xs @ (b # c) # ys"
    unfolding move_bucket_def Let_def d len [symmetric] by simp
  then show "mset (concat (move_bucket n b d)) = add_mset b (mset (concat d))"
    by (simp add: d)
qed

lemma placed_fold_move_bucket:
  assumes "placed n d" and "0 < n"
  shows "placed n (fold (move_bucket n) bs d) \<and>
    mset (concat (fold (move_bucket n) bs d)) = mset bs + mset (concat d)"
  using assms(1)
proof (induction bs arbitrary: d)
  case (Cons b bs)
  then show ?case using placed_move_bucket [OF Cons.prems assms(2), of b] by simp
qed simp

lemma concat_replicate_Nil [simp]: "concat (replicate n []) = []"
  by (induction n) simp_all

lemma placed_empty [simp]: "placed n (replicate n [])"
  by (simp add: placed_def)

lemma resize_fields [simp]:
  "ph_seed (dns_packet_hash_resize h n) = ph_seed h"
  "ph_min_capacity (dns_packet_hash_resize h n) = ph_min_capacity h"
  "ph_buckets (dns_packet_hash_resize h n) = ph_buckets h"
  "ph_capacity (dns_packet_hash_resize h n) = max n (ph_min_capacity h)"
  by (simp_all add: dns_packet_hash_resize_def Let_def)

lemma resize_data:
  assumes "placed (ph_capacity h) (ph_data h)" and "0 < ph_min_capacity h"
  shows "placed (max n (ph_min_capacity h)) (ph_data (dns_packet_hash_resize h n))"
    and "mset (concat (ph_data (dns_packet_hash_resize h n))) = mset (concat (ph_data h))"
proof -
  let ?n = "max n (ph_min_capacity h)"
  have new: "(if n < ph_min_capacity h then ph_min_capacity h else n) = ?n" by simp
  have "placed ?n (fold (move_bucket ?n) (concat (ph_data h)) (replicate ?n [])) \<and>
      mset (concat (fold (move_bucket ?n) (concat (ph_data h)) (replicate ?n [])))
        = mset (concat (ph_data h)) + mset (concat (replicate ?n []))"
    by (rule placed_fold_move_bucket) (use assms in \<open>simp_all del: replicate.simps\<close>)
  then show "placed ?n (ph_data (dns_packet_hash_resize h n))"
    and "mset (concat (ph_data (dns_packet_hash_resize h n))) = mset (concat (ph_data h))"
    using assms(1) by (simp_all add: dns_packet_hash_resize_def Let_def new)
qed

lemma resize_ok:
  assumes "table_ok hp h"
  shows "table_ok hp (dns_packet_hash_resize h n)"
    and "hash_lookup hp (dns_packet_hash_resize h n) = hash_lookup hp h"
proof -
  let ?h = "dns_packet_hash_resize h n"
  have t: "placed (ph_capacity h) (ph_data h)" "0 < ph_min_capacity h"
    "good_buckets hp (ph_seed h) (concat (ph_data h))"
    using assms by (simp_all add: table_ok_def)
  note data = resize_data [OF t(1,2), of n]
  have len: "length (concat (ph_data ?h)) = length (concat (ph_data h))"
    using data(2) by (rule mset_eq_length)
  have good: "good_buckets hp (ph_seed h) (concat (ph_data ?h))"
    using good_buckets_perm [OF data(2)] t(3) by simp
  show "table_ok hp ?h"
    using assms data(1) good len by (simp add: table_ok_def del: length_concat)
  show "hash_lookup hp ?h = hash_lookup hp h"
  proof (rule ext)
    show "hash_lookup hp ?h k = hash_lookup hp h k" for k
      unfolding hash_lookup_def using good
      by (subst lookup_buckets_perm [OF data(2)]) (simp_all add: good_buckets_def)
  qed
qed

section \<open>Finding a bucket\<close>

lemma bucket_okE:
  assumes "bucket_ok hp seed b" and "wf_packet pkt" and "dns_packet_primary_hash pkt seed = Inr hv"
  obtains q qs first where "b_packets b = q # qs" and "hp q = Some first"
    and "dns_packet_primary_match pkt first \<longleftrightarrow> bucket_key hp b = match_key pkt"
    and "bucket_key hp b = match_key pkt \<Longrightarrow> hash_value b = hv"
proof -
  obtain q qs where b: "b_packets b = q # qs"
    using assms(1) by (auto simp: bucket_ok_def neq_Nil_conv)
  then have "stored_ok hp seed (bucket_key hp b) (hash_value b) q"
    using assms(1) by (simp add: bucket_ok_def)
  then obtain first where f: "hp q = Some first" "wf_packet first" "match_key first = bucket_key hp b"
    "dns_packet_primary_hash first seed = Inr (hash_value b)" by (rule stored_okD)
  have "dns_packet_primary_match pkt first \<longleftrightarrow> bucket_key hp b = match_key pkt"
    using primary_match_iff_key [OF assms(2) f(2)] f(3) by auto
  moreover have "hash_value b = hv" if "bucket_key hp b = match_key pkt"
    using primary_hash_key [OF assms(2) f(2), of seed] f(3,4) assms(3) that by simp
  ultimately show thesis using that b f(1) by blast
qed

lemma find_in_chain_spec:
  assumes "\<forall>b \<in> set bs. bucket_ok hp seed b" and "wf_packet pkt"
    and "dns_packet_primary_hash pkt seed = Inr hv"
  shows "find_in_chain hp pkt hv bs = Inr (length bs) \<and> match_key pkt \<notin> bucket_key hp ` set bs \<or>
    (\<exists>c1 b c2. bs = c1 @ b # c2 \<and> bucket_key hp b = match_key pkt \<and> hash_value b = hv \<and>
       find_in_chain hp pkt hv bs = Inr (length c1))"
  using assms(1)
proof (induction bs)
  case (Cons b bs)
  have "bucket_ok hp seed b" using Cons.prems by simp
  then obtain q qs first where b: "b_packets b = q # qs" "hp q = Some first"
    and m: "dns_packet_primary_match pkt first \<longleftrightarrow> bucket_key hp b = match_key pkt"
    and hv: "bucket_key hp b = match_key pkt \<Longrightarrow> hash_value b = hv"
    by (rule bucket_okE [OF _ assms(2,3)]) blast
  show ?case
  proof (cases "bucket_key hp b = match_key pkt")
    case True
    have "find_in_chain hp pkt hv (b # bs) = Inr (length [])"
      using True b m hv by (simp add: Let_def)
    then show ?thesis using True hv by (intro disjI2 exI [of _ "[]"]) simp
  next
    case False
    then have step: "find_in_chain hp pkt hv (b # bs) = bindr (find_in_chain hp pkt hv bs) (\<lambda>j. Inr (Suc j))"
      using b m by (simp add: Let_def)
    from Cons.IH Cons.prems consider "find_in_chain hp pkt hv bs = Inr (length bs)" "match_key pkt \<notin> bucket_key hp ` set bs"
      | c1 b' c2 where "bs = c1 @ b' # c2" "bucket_key hp b' = match_key pkt" "hash_value b' = hv"
          "find_in_chain hp pkt hv bs = Inr (length c1)" by auto
    then show ?thesis
    proof cases
      case 1
      then show ?thesis using False by (simp add: step del: find_in_chain.simps)
    next
      case (2 c1 b' c2)
      then have "b # bs = (b # c1) @ b' # c2 \<and> bucket_key hp b' = match_key pkt \<and> hash_value b' = hv \<and>
          find_in_chain hp pkt hv (b # bs) = Inr (length (b # c1))"
        unfolding step by simp
      then show ?thesis by blast
    qed
  qed
qed simp

lemma placed_nth:
  "placed cap (d1 @ c # d2) \<Longrightarrow> b \<in> set c \<Longrightarrow> unat (hash_value b) mod cap = length d1"
  by (auto simp: placed_def dest: spec [of _ "length d1"])

lemma placed_replace:
  assumes "placed cap (d1 @ c # d2)"
    and "\<And>b. b \<in> set c' \<Longrightarrow> unat (hash_value b) mod cap = length d1"
  shows "placed cap (d1 @ c' # d2)"
  using assms by (auto simp: placed_def nth_append nth_Cons split: nat.splits if_splits)

text \<open>A bucket with a given hash value is in the chain that the hash value selects.\<close>

lemma placed_chain:
  assumes "placed cap (d1 @ c # d2)" and "b \<in> set (concat (d1 @ c # d2))"
    and "unat (hash_value b) mod cap = length d1"
  shows "b \<in> set c"
proof -
  obtain c' where c': "c' \<in> set (d1 @ c # d2)" "b \<in> set c'" using assms(2) by auto
  then obtain i where i: "i < cap" "(d1 @ c # d2) ! i = c'"
    using assms(1) unfolding placed_def by (metis in_set_conv_nth)
  then have "unat (hash_value b) mod cap = i" using assms(1) c'(2) by (simp add: placed_def)
  then have "c' = c" using i(2) assms(3) by auto
  then show ?thesis using c'(2) by simp
qed

lemma find_bucket_cases:
  assumes "table_ok hp h" and "wf_packet pkt" and hv: "dns_packet_primary_hash pkt (ph_seed h) = Inr hv"
  obtains
    (absent) d1 c d2 where "ph_data h = d1 @ c # d2"
      and "dns_packet_hash_find_bucket hp h pkt hv = Inr (length d1, length c)"
      and "match_key pkt \<notin> bucket_key hp ` set (concat (ph_data h))"
      and "unat hv mod ph_capacity h = length d1"
  | (found) d1 c1 b c2 d2 where "ph_data h = d1 @ (c1 @ b # c2) # d2"
      and "dns_packet_hash_find_bucket hp h pkt hv = Inr (length d1, length c1)"
      and "bucket_key hp b = match_key pkt" and "hash_value b = hv"
proof -
  let ?i = "unat hv mod ph_capacity h"
  have p: "placed (ph_capacity h) (ph_data h)" and cap: "0 < ph_capacity h"
    and ok: "\<forall>b \<in> set (concat (ph_data h)). bucket_ok hp (ph_seed h) b"
    using assms(1) by (auto simp: table_ok_def good_buckets_def)
  have i: "?i < length (ph_data h)" using p cap by (simp add: placed_def)
  then obtain d1 c d2 where d: "ph_data h = d1 @ c # d2" and len: "length d1 = ?i" by (rule nth_splitE)
  have find: "dns_packet_hash_find_bucket hp h pkt hv =
      bindr (find_in_chain hp pkt hv c) (\<lambda>j. Inr (length d1, j))"
    using i by (simp add: dns_packet_hash_find_bucket_def Let_def d flip: len)
  have "\<forall>b \<in> set c. bucket_ok hp (ph_seed h) b" using ok by (simp add: d)
  from find_in_chain_spec [OF this assms(2) hv] show thesis
  proof (elim disjE conjE exE)
    assume a: "find_in_chain hp pkt hv c = Inr (length c)" "match_key pkt \<notin> bucket_key hp ` set c"
    have "match_key pkt \<noteq> bucket_key hp b" if b: "b \<in> set (concat (ph_data h))" for b
    proof
      assume eq: "match_key pkt = bucket_key hp b"
      have "hash_value b = hv" using ok b eq by (metis bucket_okE [OF _ assms(2) hv])
      then have "unat (hash_value b) mod ph_capacity h = length d1" using len by simp
      then have "b \<in> set c" using placed_chain p b unfolding d by blast
      then show False using a(2) eq by simp
    qed
    then show thesis using absent [OF d] find a(1) len by fastforce
  next
    fix c1 b c2
    assume "c = c1 @ b # c2" "bucket_key hp b = match_key pkt" "hash_value b = hv"
      "find_in_chain hp pkt hv c = Inr (length c1)"
    then show thesis using found [of d1 c1 b c2 d2] d find by simp
  qed
qed

section \<open>Adding and taking away a bucket\<close>

lemma good_buckets_Cons:
  "good_buckets hp seed (b # bs) \<longleftrightarrow> bucket_ok hp seed b \<and> bucket_key hp b \<notin> bucket_key hp ` set bs \<and>
     distinct (b_packets b) \<and> set (b_packets b) \<inter> set (concat (map b_packets bs)) = {} \<and>
     good_buckets hp seed bs"
  unfolding good_buckets_def by (auto simp del: set_concat)

lemma good_buckets_mid: "good_buckets hp seed (xs @ b # ys) = good_buckets hp seed (b # xs @ ys)"
  by (rule good_buckets_perm) simp

lemma lookup_buckets_mid:
  assumes "good_buckets hp seed (xs @ b # ys)"
  shows "lookup_buckets hp (xs @ b # ys) = (lookup_buckets hp (xs @ ys))(bucket_key hp b := b_packets b)"
    and "lookup_buckets hp (xs @ ys) (bucket_key hp b) = []"
proof -
  have "good_buckets hp seed (b # xs @ ys)" using assms by (simp only: good_buckets_mid)
  then show nil: "lookup_buckets hp (xs @ ys) (bucket_key hp b) = []"
    by (intro lookup_buckets_absent) (simp add: good_buckets_Cons)
  have "lookup_buckets hp (xs @ b # ys) = lookup_buckets hp (b # xs @ ys)"
    by (rule lookup_buckets_perm) (use assms in \<open>simp_all add: good_buckets_def\<close>)
  also have "\<dots> = (lookup_buckets hp (xs @ ys))(bucket_key hp b := b_packets b)"
    by (rule ext) (use nil in \<open>auto simp: lookup_buckets_Cons\<close>)
  finally show "lookup_buckets hp (xs @ b # ys) = \<dots>" .
qed

lemma table_ok_with:
  assumes "table_ok hp h" and d: "ph_data h = d1 @ (c1 @ c2) # d2"
    and b: "good_buckets hp (ph_seed h) (b # concat (ph_data h))"
    and "unat (hash_value b) mod ph_capacity h = length d1"
    and h': "h' = h\<lparr>ph_data := d1 @ (c1 @ b # c2) # d2, ph_buckets := Suc (ph_buckets h)\<rparr>"
  shows "table_ok hp h'" and "hash_lookup hp h' = (hash_lookup hp h)(bucket_key hp b := b_packets b)"
proof -
  have good: "good_buckets hp (ph_seed h) ((concat d1 @ c1) @ b # c2 @ concat d2)"
    using b unfolding good_buckets_mid by (simp add: d)
  have "placed (ph_capacity h) (d1 @ (c1 @ c2) # d2)" using assms(1) d by (simp add: table_ok_def)
  then have "placed (ph_capacity h) (d1 @ (c1 @ b # c2) # d2)"
    by (rule placed_replace) (use placed_nth [OF \<open>placed _ _\<close>] assms(4) in auto)
  then show "table_ok hp h'"
    using assms(1) good by (simp add: table_ok_def h' d)
  show "hash_lookup hp h' = (hash_lookup hp h)(bucket_key hp b := b_packets b)"
    using lookup_buckets_mid(1) [OF good] by (simp add: hash_lookup_def [abs_def] h' d)
qed

lemma table_ok_without:
  assumes "table_ok hp h" and d: "ph_data h = d1 @ (c1 @ b # c2) # d2"
    and h': "h' = h\<lparr>ph_data := d1 @ (c1 @ c2) # d2, ph_buckets := ph_buckets h - 1\<rparr>"
  shows "table_ok hp h'" and "hash_lookup hp h' = (hash_lookup hp h)(bucket_key hp b := [])"
    and "good_buckets hp (ph_seed h) (b # concat (ph_data h'))"
    and "hash_lookup hp h (bucket_key hp b) = b_packets b"
    and "unat (hash_value b) mod ph_capacity h = length d1"
    and "ph_buckets h = Suc (ph_buckets h')"
proof -
  have good: "good_buckets hp (ph_seed h) ((concat d1 @ c1) @ b # c2 @ concat d2)"
    using assms(1) by (simp add: table_ok_def d)
  then show g: "good_buckets hp (ph_seed h) (b # concat (ph_data h'))"
    unfolding good_buckets_mid by (simp add: h')
  have p: "placed (ph_capacity h) (d1 @ (c1 @ b # c2) # d2)" using assms(1) d by (simp add: table_ok_def)
  then show "unat (hash_value b) mod ph_capacity h = length d1" by (rule placed_nth) simp
  have "placed (ph_capacity h) (d1 @ (c1 @ c2) # d2)"
    using p by (rule placed_replace) (use placed_nth [OF p] in auto)
  then show "table_ok hp h'"
    using assms(1) g by (simp add: table_ok_def h' d good_buckets_Cons)
  note look = lookup_buckets_mid [OF good]
  show "hash_lookup hp h (bucket_key hp b) = b_packets b"
    using look(1) by (simp add: hash_lookup_def d)
  show "hash_lookup hp h' = (hash_lookup hp h)(bucket_key hp b := [])"
    using look by (auto simp: hash_lookup_def [abs_def] d h' fun_eq_iff)
  show "ph_buckets h = Suc (ph_buckets h')" using assms(1) by (simp add: table_ok_def h' d)
qed

text \<open>Replacing a bucket by one with the same key and hash value.\<close>

lemma table_ok_replace:
  assumes "table_ok hp h" and d: "ph_data h = d1 @ (c1 @ b # c2) # d2"
    and b': "bucket_ok hp (ph_seed h) b'" "bucket_key hp b' = bucket_key hp b"
      "hash_value b' = hash_value b" "distinct (b_packets b')"
      "set (b_packets b') \<subseteq> set (b_packets b) \<union> ps" "ps \<inter> set (hash_contents h) = {}"
    and h': "h' = h\<lparr>ph_data := d1 @ (c1 @ b' # c2) # d2\<rparr>"
  shows "table_ok hp h'" and "hash_lookup hp h' = (hash_lookup hp h)(bucket_key hp b := b_packets b')"
proof -
  define g where "g = h\<lparr>ph_data := d1 @ (c1 @ c2) # d2, ph_buckets := ph_buckets h - 1\<rparr>"
  note w = table_ok_without [OF assms(1) d g_def]
  have g: "ph_data g = d1 @ (c1 @ c2) # d2" "ph_seed g = ph_seed h" "ph_capacity g = ph_capacity h"
    by (simp_all add: g_def)
  have "set (concat (map b_packets (concat (ph_data g)))) \<subseteq> set (hash_contents h)"
    by (auto simp: g hash_contents_def d)
  moreover have "set (b_packets b) \<inter> set (concat (map b_packets (concat (ph_data g)))) = {}"
    using w(3) by (simp only: good_buckets_Cons simp_thms)
  ultimately have "set (b_packets b') \<inter> set (concat (map b_packets (concat (ph_data g)))) = {}"
    using b'(5,6) by blast
  then have good: "good_buckets hp (ph_seed g) (b' # concat (ph_data g))"
    using w(3) b' by (simp add: good_buckets_Cons g(2))
  have h'_eq: "h' = g\<lparr>ph_data := d1 @ (c1 @ b' # c2) # d2, ph_buckets := Suc (ph_buckets g)\<rparr>"
    using w(6) by (simp add: h' g_def)
  have "unat (hash_value b') mod ph_capacity g = length d1" using w(5) b'(3) g(3) by simp
  note new = table_ok_with [OF w(1) g(1) good this h'_eq]
  show "table_ok hp h'" by (rule new(1))
  show "hash_lookup hp h' = (hash_lookup hp h)(bucket_key hp b := b_packets b')"
    using new(2) w(2) b'(2) by simp
qed

section \<open>The operations on the abstract table\<close>

lemma hash_contents_lookup: "set (hash_contents h) = (\<Union>k. set (hash_lookup hp h k))"
  by (auto simp: hash_contents_def hash_lookup_def lookup_buckets_def)

text \<open>What is stored under a key are different requests with this key.\<close>

lemma hash_lookup_stored:
  assumes "table_ok hp h" and "p \<in> set (hash_lookup hp h k)"
  shows "\<exists>hv. stored_ok hp (ph_seed h) k hv p"
proof -
  obtain b where b: "b \<in> set (concat (ph_data h))" "bucket_key hp b = k" "p \<in> set (b_packets b)"
    using assms(2) by (auto simp: hash_lookup_def lookup_buckets_def)
  then have "bucket_ok hp (ph_seed h) b" using assms(1) by (auto simp: table_ok_def good_buckets_def)
  then show ?thesis using b by (auto simp: bucket_ok_def)
qed

lemma hash_lookup_distinct:
  assumes "table_ok hp h"
  shows "distinct (hash_lookup hp h k)"
proof (cases "k \<in> bucket_key hp ` set (concat (ph_data h))")
  case True
  then obtain xs b ys where bs: "concat (ph_data h) = xs @ b # ys" and k: "k = bucket_key hp b"
    by (metis imageE split_list)
  have good: "good_buckets hp (ph_seed h) (xs @ b # ys)" using assms by (simp add: table_ok_def bs)
  then have "hash_lookup hp h k = b_packets b"
    using lookup_buckets_mid(1) [OF good] by (simp add: hash_lookup_def bs k)
  then show ?thesis using good by (simp add: good_buckets_mid good_buckets_Cons)
qed (simp add: hash_lookup_def lookup_buckets_absent)

lemma UN_remove1:
  assumes "\<And>x. p \<in> set (f x) \<Longrightarrow> x = k" and "distinct (f k)"
  shows "(\<Union>x. set ((f(k := remove1 p (f k))) x)) = (\<Union>x. set (f x)) - {p}"
  using assms by (auto split: if_splits)

lemma UN_Cons: "(\<Union>x. set ((f(k := p # f k)) x)) = insert p (\<Union>x. set (f x))"
  by (auto split: if_splits)

lemma percent_simps [simp]:
  "n * 100 div DNS_PACKET_HASH_BEST_PERCENT = 2 * n"
  "n \<le> max (2 * n) m * DNS_PACKET_HASH_MAX_PERCENT div 100"
proof -
  show "n * 100 div DNS_PACKET_HASH_BEST_PERCENT = 2 * n"
    by (simp add: DNS_PACKET_HASH_BEST_PERCENT_def)
  have "n * 100 div 100 \<le> max (2 * n) m * DNS_PACKET_HASH_MAX_PERCENT div 100"
    by (rule div_le_mono) (simp add: DNS_PACKET_HASH_MAX_PERCENT_def)
  then show "n \<le> max (2 * n) m * DNS_PACKET_HASH_MAX_PERCENT div 100" by simp
qed

text \<open>A table that was resized where its load asked for it satisfies the whole invariant.\<close>

lemma hash_inv_resized:
  assumes "table_ok hp h" and "\<not> cond \<Longrightarrow> ph_buckets h \<le> ph_capacity h * DNS_PACKET_HASH_MAX_PERCENT div 100"
    and "h' = (if cond then dns_packet_hash_resize h (ph_buckets h * 100 div DNS_PACKET_HASH_BEST_PERCENT) else h)"
  shows "hash_inv hp h'" and "hash_lookup hp h' = hash_lookup hp h"
  using assms resize_ok [OF assms(1)] by (simp_all add: hash_inv_def)

lemma insert_packet_spec:
  assumes inv: "hash_inv hp h" and p: "hp p = Some pkt" "wf_packet pkt" "DNS_PACKET_IS_REQUEST pkt"
    and new: "p \<notin> set (hash_contents h)"
  obtains h' where "dns_packet_hash_insert_packet hp h p = Inr h'" and "hash_inv hp h'"
    and "hash_lookup hp h' = (hash_lookup hp h)(match_key pkt := p # hash_lookup hp h (match_key pkt))"
proof -
  have t: "table_ok hp h" and load: "ph_buckets h \<le> ph_capacity h * DNS_PACKET_HASH_MAX_PERCENT div 100"
    using inv by (simp_all add: hash_inv_def)
  then obtain hv where hv: "dns_packet_primary_hash pkt (ph_seed h) = Inr hv"
    using primary_hash_Inr by (metis table_ok_def)
  from t p(2) hv show thesis
  proof (cases rule: find_bucket_cases)
    case (absent d1 c d2)
    let ?b = "\<lparr>hash_value = hv, b_packets = [p]\<rparr>"
    define g where "g = h\<lparr>ph_data := d1 @ (c @ ?b # []) # d2, ph_buckets := Suc (ph_buckets h)\<rparr>"
    have key: "bucket_key hp ?b = match_key pkt" using p(1) by (rule bucket_key_Cons)
    have "good_buckets hp (ph_seed h) (?b # concat (ph_data h))"
      using t p new absent(3) hv
      by (simp add: good_buckets_Cons key bucket_ok_def stored_ok_Some table_ok_def hash_contents_def
          del: set_concat)
    note w = table_ok_with [OF t _ this _ g_def]
    have g: "table_ok hp g" "hash_lookup hp g = (hash_lookup hp h)(match_key pkt := [p])"
      using w absent(1,4) key by simp_all
    define h' where "h' = (if ph_buckets g > ph_capacity g * DNS_PACKET_HASH_MAX_PERCENT div 100
       then dns_packet_hash_resize g (ph_buckets g * 100 div DNS_PACKET_HASH_BEST_PERCENT) else g)"
    have "dns_packet_hash_insert_packet hp h p = Inr h'"
      using p hv absent(1,2)
      by (simp add: dns_packet_hash_insert_packet_def Let_def h'_def g_def del: percent_simps)
    moreover have "hash_inv hp h'" and "hash_lookup hp h' = hash_lookup hp g"
      using hash_inv_resized [OF g(1) _ h'_def] by simp_all
    moreover have "hash_lookup hp h (match_key pkt) = []"
      unfolding hash_lookup_def by (rule lookup_buckets_absent [OF absent(3)])
    ultimately show thesis using that g(2) by simp
  next
    case (found d1 c1 b c2 d2)
    let ?b = "b\<lparr>b_packets := p # b_packets b\<rparr>"
    define h' where "h' = h\<lparr>ph_data := d1 @ (c1 @ ?b # c2) # d2\<rparr>"
    have b: "bucket_ok hp (ph_seed h) b" "distinct (b_packets b)" "p \<notin> set (b_packets b)"
      using t new by (auto simp: table_ok_def found(1) good_buckets_def hash_contents_def)
    have key: "bucket_key hp ?b = bucket_key hp b" using p(1) found(3) by (simp add: bucket_key_def)
    have ok: "bucket_ok hp (ph_seed h) ?b"
      using b(1) p hv found(3,4) by (simp add: bucket_ok_def key [simplified] stored_ok_Some)
    have "set (b_packets ?b) \<subseteq> set (b_packets b) \<union> {p}" by auto
    note r = table_ok_replace [OF t found(1) ok key _ _ this _ h'_def]
    have r: "table_ok hp h'" "hash_lookup hp h' = (hash_lookup hp h)(match_key pkt := p # b_packets b)"
      using r b new found(3) by simp_all
    have "dns_packet_hash_insert_packet hp h p = Inr h'"
      using p hv found(1,2) by (simp add: dns_packet_hash_insert_packet_def Let_def h'_def)
    moreover have "hash_inv hp h'" using r(1) load by (simp add: hash_inv_def h'_def)
    moreover have "hash_lookup hp h (match_key pkt) = b_packets b"
      using table_ok_without(4) [OF t found(1) refl] found(3) by simp
    ultimately show thesis using that r(2) by simp
  qed
qed

lemma remove_from_bucket_spec:
  assumes inv: "hash_inv hp h" and d: "ph_data h = d1 @ (c1 @ b # c2) # d2" and q: "q \<in> set (b_packets b)"
  obtains h' where "dns_packet_hash_remove_from_bucket h q (length d1, length c1) = Inr h'"
    and "hash_inv hp h'"
    and "hash_lookup hp h' = (hash_lookup hp h)(bucket_key hp b := remove1 q (b_packets b))"
proof -
  have t: "table_ok hp h" and load: "ph_buckets h \<le> ph_capacity h * DNS_PACKET_HASH_MAX_PERCENT div 100"
    using inv by (simp_all add: hash_inv_def)
  have b: "bucket_ok hp (ph_seed h) b" "distinct (b_packets b)"
    using t by (auto simp: table_ok_def d good_buckets_def)
  show thesis
  proof (cases "remove1 q (b_packets b) = []")
    case True
    define g where "g = h\<lparr>ph_data := d1 @ (c1 @ c2) # d2, ph_buckets := ph_buckets h - 1\<rparr>"
    note w = table_ok_without [OF t d g_def]
    define h' where "h' = (if ph_buckets g < ph_capacity g * DNS_PACKET_HASH_MIN_PERCENT div 100
       then dns_packet_hash_resize g (ph_buckets g * 100 div DNS_PACKET_HASH_BEST_PERCENT) else g)"
    have "ph_buckets g \<le> ph_capacity g * DNS_PACKET_HASH_MAX_PERCENT div 100"
      using load by (simp add: g_def)
    note r = hash_inv_resized [OF w(1) this h'_def]
    have "dns_packet_hash_remove_from_bucket h q (length d1, length c1) = Inr h'"
      using True by (simp add: dns_packet_hash_remove_from_bucket_def Let_def d h'_def g_def del: percent_simps)
    then show thesis using that r w(2) True by simp
  next
    case False
    let ?b = "b\<lparr>b_packets := remove1 q (b_packets b)\<rparr>"
    define h' where "h' = h\<lparr>ph_data := d1 @ (c1 @ ?b # c2) # d2\<rparr>"
    have sub: "set (b_packets ?b) \<subseteq> set (b_packets b) \<union> {}"
      using set_remove1_subset by simp
    then have key: "bucket_key hp ?b = bucket_key hp b"
      using bucket_key_same [OF b(1), of ?b] False by simp
    have ok: "bucket_ok hp (ph_seed h) ?b"
      using b(1) False sub by (auto simp: bucket_ok_def key [simplified])
    have "distinct (b_packets ?b)" using b(2) by simp
    note r = table_ok_replace [OF t d ok key _ this sub _ h'_def, simplified]
    have "dns_packet_hash_remove_from_bucket h q (length d1, length c1) = Inr h'"
      using False by (simp add: dns_packet_hash_remove_from_bucket_def Let_def d h'_def)
    moreover have "hash_inv hp h'" using r(1) load by (simp add: hash_inv_def h'_def)
    ultimately show thesis using that r(2) by simp
  qed
qed

lemma remove_packet_spec:
  assumes inv: "hash_inv hp h" and p: "p \<in> set (hash_lookup hp h k)"
  obtains h' where "dns_packet_hash_remove_packet hp h p = Inr h'" and "hash_inv hp h'"
    and "hash_lookup hp h' = (hash_lookup hp h)(k := remove1 p (hash_lookup hp h k))"
proof -
  have t: "table_ok hp h" using inv by (simp add: hash_inv_def)
  obtain hv where "stored_ok hp (ph_seed h) k hv p" using hash_lookup_stored [OF t p] by blast
  then obtain pkt where pkt: "hp p = Some pkt" "wf_packet pkt" "match_key pkt = k"
    "dns_packet_primary_hash pkt (ph_seed h) = Inr hv" by (rule stored_okD)
  from t pkt(2,4) show thesis
  proof (cases rule: find_bucket_cases)
    case (absent d1 c d2)
    then show thesis using p pkt(3) lookup_buckets_absent [OF absent(3)] by (simp add: hash_lookup_def)
  next
    case (found d1 c1 b c2 d2)
    have look: "hash_lookup hp h k = b_packets b"
      using table_ok_without(4) [OF t found(1) refl] found(3) pkt(3) by simp
    with p have "p \<in> set (b_packets b)" by simp
    from inv found(1) this obtain h'
      where h': "dns_packet_hash_remove_from_bucket h p (length d1, length c1) = Inr h'" "hash_inv hp h'"
        "hash_lookup hp h' = (hash_lookup hp h)(bucket_key hp b := remove1 p (b_packets b))"
      by (rule remove_from_bucket_spec)
    have "dns_packet_hash_remove_packet hp h p = Inr h'"
      using pkt found(1,2) h'(1) by (simp add: dns_packet_hash_remove_packet_def)
    then show thesis using that h'(2,3) look found(3) pkt(3) by simp
  qed
qed

text \<open>Whether a stored request is an answerable partner of a response.\<close>

definition accepts :: "(u8 list \<Rightarrow> u8 list \<Rightarrow> bool) \<Rightarrow> heap \<Rightarrow> dns_packet \<Rightarrow> bool \<Rightarrow> pid \<Rightarrow> bool" where
  "accepts dname_eq hp rsp match_qname q \<longleftrightarrow> (match_qname \<longrightarrow>
     (case hp q of None \<Rightarrow> False | Some req \<Rightarrow> dns_packet_qname_match dname_eq req rsp = Inr True))"

lemma qname_match_Inr:
  "DNS_PACKET_IS_REQUEST req \<Longrightarrow> DNS_PACKET_IS_RESPONSE rsp \<Longrightarrow>
     \<exists>b. dns_packet_qname_match dname_eq req rsp = Inr b"
  by (simp add: dns_packet_qname_match_def)

lemma search_bucket_spec:
  assumes "\<forall>q \<in> set qs. \<exists>req. hp q = Some req \<and> DNS_PACKET_IS_REQUEST req"
    and "DNS_PACKET_IS_RESPONSE rsp" and "cnt \<le> DNS_PACKET_HASH_MAX_SEARCH"
  shows "search_bucket dname_eq hp rsp match_qname cnt qs =
    Inr (find (accepts dname_eq hp rsp match_qname) (take (Suc DNS_PACKET_HASH_MAX_SEARCH - cnt) qs))"
  using assms(1,3)
proof (induction qs arbitrary: cnt)
  case (Cons q qs)
  obtain req where req: "hp q = Some req" "DNS_PACKET_IS_REQUEST req" using Cons.prems by auto
  obtain found where found: "(if match_qname then dns_packet_qname_match dname_eq req rsp else Inr True) = Inr found"
    using qname_match_Inr [OF req(2) assms(2)] by (cases match_qname) auto
  then have acc: "accepts dname_eq hp rsp match_qname q = found"
    using req by (auto simp: accepts_def split: if_splits)
  have n: "Suc DNS_PACKET_HASH_MAX_SEARCH - cnt = Suc (DNS_PACKET_HASH_MAX_SEARCH - cnt)"
    using Cons.prems(2) by simp
  show ?case
  proof (cases "found \<or> cnt + 1 > DNS_PACKET_HASH_MAX_SEARCH")
    case True
    moreover have "\<not> found \<Longrightarrow> DNS_PACKET_HASH_MAX_SEARCH - cnt = 0" using True by simp
    ultimately show ?thesis using req found acc by (cases found) (simp_all add: n)
  next
    case False
    then have "search_bucket dname_eq hp rsp match_qname (cnt + 1) qs = Inr (find
        (accepts dname_eq hp rsp match_qname) (take (Suc DNS_PACKET_HASH_MAX_SEARCH - (cnt + 1)) qs))"
      using Cons.prems by (intro Cons.IH) simp_all
    then show ?thesis using False req found acc by (simp add: n)
  qed
qed simp

text \<open>The request that a search of at most \<open>DNS_PACKET_HASH_MAX_SEARCH + 1\<close> candidates picks.\<close>

definition first_match :: "(pid \<Rightarrow> bool) \<Rightarrow> pid list \<Rightarrow> pid option" where
  "first_match acc qs = find acc (take (Suc DNS_PACKET_HASH_MAX_SEARCH) qs)"

lemma first_match_SomeD:
  assumes "first_match acc qs = Some q"
  shows "q \<in> set qs" and "acc q"
  using assms by (auto simp: first_match_def find_Some_iff dest: in_set_takeD nth_mem)

lemma get_match_spec:
  assumes inv: "hash_inv hp h" and p: "hp p = Some pkt" "wf_packet pkt" "DNS_PACKET_IS_RESPONSE pkt"
    and r: "r = first_match (accepts dname_eq hp pkt match_qname) (hash_lookup hp h (match_key pkt))"
  obtains h' where "dns_packet_hash_get_match dname_eq hp h p match_qname = Inr (r, h')"
    and "hash_inv hp h'"
    and "hash_lookup hp h' = (case r of None \<Rightarrow> hash_lookup hp h
      | Some q \<Rightarrow> (hash_lookup hp h)(match_key pkt := remove1 q (hash_lookup hp h (match_key pkt))))"
proof -
  have t: "table_ok hp h" using inv by (simp add: hash_inv_def)
  then obtain hv where hv: "dns_packet_primary_hash pkt (ph_seed h) = Inr hv"
    using primary_hash_Inr by (metis table_ok_def)
  from t p(2) hv show thesis
  proof (cases rule: find_bucket_cases)
    case (absent d1 c d2)
    have "hash_lookup hp h (match_key pkt) = []"
      unfolding hash_lookup_def by (rule lookup_buckets_absent [OF absent(3)])
    then have "r = None" by (simp add: r first_match_def)
    moreover have "dns_packet_hash_get_match dname_eq hp h p match_qname = Inr (None, h)"
      using p hv absent(1,2) by (simp add: dns_packet_hash_get_match_def Let_def)
    ultimately show thesis using that inv by simp
  next
    case (found d1 c1 b c2 d2)
    have look: "hash_lookup hp h (match_key pkt) = b_packets b"
      using table_ok_without(4) [OF t found(1) refl] found(3) by simp
    have "\<forall>q \<in> set (b_packets b). \<exists>req. hp q = Some req \<and> DNS_PACKET_IS_REQUEST req"
      using hash_lookup_stored [OF t, of _ "match_key pkt"] look by (metis stored_okD)
    then have search: "search_bucket dname_eq hp pkt match_qname 0 (b_packets b) = Inr r"
      using search_bucket_spec p(3) by (simp add: r first_match_def look)
    show thesis
    proof (cases r)
      case None
      then have "dns_packet_hash_get_match dname_eq hp h p match_qname = Inr (None, h)"
        using p hv found(1,2) search by (simp add: dns_packet_hash_get_match_def Let_def)
      then show thesis using that inv None by simp
    next
      case (Some q)
      then have "q \<in> set (b_packets b)"
        using look r first_match_SomeD(1) by metis
      from inv found(1) this obtain h'
        where h': "dns_packet_hash_remove_from_bucket h q (length d1, length c1) = Inr h'" "hash_inv hp h'"
          "hash_lookup hp h' = (hash_lookup hp h)(bucket_key hp b := remove1 q (b_packets b))"
        by (rule remove_from_bucket_spec)
      have "dns_packet_hash_get_match dname_eq hp h p match_qname = Inr (Some q, h')"
        using p hv found(1,2) search Some h'(1) by (simp add: dns_packet_hash_get_match_def Let_def)
      then show thesis using that h'(2,3) look found(3) Some by simp
    qed
  qed
qed

section \<open>The interface of a table of requests\<close>

text \<open>
  The operations as the packet matcher calls them, and the same operations on the abstract
  table. \<open>valid_ops\<close> is the caller's side of the contract: only well-formed requests that
  are not yet stored are inserted, only stored ones are removed, only well-formed responses
  are looked up.
\<close>

datatype table_op = Insert_op pid | Remove_op pid | Match_op pid

fun run_ops ::
    "(heap \<Rightarrow> 't \<Rightarrow> pid \<Rightarrow> 't res) \<Rightarrow> (heap \<Rightarrow> 't \<Rightarrow> pid \<Rightarrow> 't res) \<Rightarrow>
     (heap \<Rightarrow> 't \<Rightarrow> pid \<Rightarrow> (pid option \<times> 't) res) \<Rightarrow> heap \<Rightarrow> 't \<Rightarrow> table_op list \<Rightarrow> (pid option list \<times> 't) res" where
  "run_ops ins del get hp t [] = Inr ([], t)"
| "run_ops ins del get hp t (Insert_op p # ops) = bindr (ins hp t p) (\<lambda>t'. run_ops ins del get hp t' ops)"
| "run_ops ins del get hp t (Remove_op p # ops) = bindr (del hp t p) (\<lambda>t'. run_ops ins del get hp t' ops)"
| "run_ops ins del get hp t (Match_op p # ops) =
     bindr (get hp t p) (\<lambda>(r, t'). bindr (run_ops ins del get hp t' ops) (\<lambda>(rs, t''). Inr (r # rs, t'')))"

definition key_of :: "heap \<Rightarrow> pid \<Rightarrow> match_key" where
  "key_of hp p = match_key (the (hp p))"

definition spec_get :: "(pid \<Rightarrow> pid \<Rightarrow> bool) \<Rightarrow> heap \<Rightarrow> (match_key \<Rightarrow> pid list) \<Rightarrow> pid \<Rightarrow> pid option" where
  "spec_get acc hp m p = first_match (acc p) (m (key_of hp p))"

definition spec_remove :: "heap \<Rightarrow> (match_key \<Rightarrow> pid list) \<Rightarrow> pid \<Rightarrow> match_key \<Rightarrow> pid list" where
  "spec_remove hp m q = m(key_of hp q := remove1 q (m (key_of hp q)))"

definition spec_insert :: "heap \<Rightarrow> (match_key \<Rightarrow> pid list) \<Rightarrow> pid \<Rightarrow> match_key \<Rightarrow> pid list" where
  "spec_insert hp m p = m(key_of hp p := p # m (key_of hp p))"

fun spec_ops ::
    "(pid \<Rightarrow> pid \<Rightarrow> bool) \<Rightarrow> heap \<Rightarrow> (match_key \<Rightarrow> pid list) \<Rightarrow> table_op list \<Rightarrow>
     pid option list \<times> (match_key \<Rightarrow> pid list)" where
  "spec_ops acc hp m [] = ([], m)"
| "spec_ops acc hp m (Insert_op p # ops) = spec_ops acc hp (spec_insert hp m p) ops"
| "spec_ops acc hp m (Remove_op p # ops) = spec_ops acc hp (spec_remove hp m p) ops"
| "spec_ops acc hp m (Match_op p # ops) =
     (let r = spec_get acc hp m p;
          (rs, m') = spec_ops acc hp (case r of None \<Rightarrow> m | Some q \<Rightarrow> spec_remove hp m q) ops
      in (r # rs, m'))"

definition is_request :: "heap \<Rightarrow> pid \<Rightarrow> bool" where
  "is_request hp p \<longleftrightarrow> (case hp p of None \<Rightarrow> False | Some pkt \<Rightarrow> wf_packet pkt \<and> DNS_PACKET_IS_REQUEST pkt)"

definition is_response :: "heap \<Rightarrow> pid \<Rightarrow> bool" where
  "is_response hp p \<longleftrightarrow> (case hp p of None \<Rightarrow> False | Some pkt \<Rightarrow> wf_packet pkt \<and> DNS_PACKET_IS_RESPONSE pkt)"

fun valid_ops :: "(pid \<Rightarrow> pid \<Rightarrow> bool) \<Rightarrow> heap \<Rightarrow> (match_key \<Rightarrow> pid list) \<Rightarrow> table_op list \<Rightarrow> bool" where
  "valid_ops acc hp m [] = True"
| "valid_ops acc hp m (Insert_op p # ops) \<longleftrightarrow> is_request hp p \<and> p \<notin> set (m (key_of hp p)) \<and>
     valid_ops acc hp (spec_insert hp m p) ops"
| "valid_ops acc hp m (Remove_op p # ops) \<longleftrightarrow> p \<in> set (m (key_of hp p)) \<and>
     valid_ops acc hp (spec_remove hp m p) ops"
| "valid_ops acc hp m (Match_op p # ops) \<longleftrightarrow> is_response hp p \<and>
     valid_ops acc hp (case spec_get acc hp m p of None \<Rightarrow> m | Some q \<Rightarrow> spec_remove hp m q) ops"

locale request_table =
  fixes inv :: "heap \<Rightarrow> 't \<Rightarrow> bool"
    and lookup :: "heap \<Rightarrow> 't \<Rightarrow> match_key \<Rightarrow> pid list"
    and ins del :: "heap \<Rightarrow> 't \<Rightarrow> pid \<Rightarrow> 't res"
    and get :: "heap \<Rightarrow> 't \<Rightarrow> pid \<Rightarrow> (pid option \<times> 't) res"
    and acc :: "heap \<Rightarrow> pid \<Rightarrow> pid \<Rightarrow> bool"
  assumes heap_cong: "inv hp t \<Longrightarrow> (\<And>k p. p \<in> set (lookup hp t k) \<Longrightarrow> hp' p = hp p) \<Longrightarrow>
      inv hp' t \<and> lookup hp' t = lookup hp t"
    and stored: "inv hp t \<Longrightarrow> p \<in> set (lookup hp t k) \<Longrightarrow> is_request hp p \<and> key_of hp p = k"
    and distinct_lookup: "inv hp t \<Longrightarrow> distinct (lookup hp t k)"
    and ins_law: "inv hp t \<Longrightarrow> is_request hp p \<Longrightarrow> p \<notin> set (lookup hp t (key_of hp p)) \<Longrightarrow>
      \<exists>t'. ins hp t p = Inr t' \<and> inv hp t' \<and> lookup hp t' = spec_insert hp (lookup hp t) p"
    and del_law: "inv hp t \<Longrightarrow> p \<in> set (lookup hp t (key_of hp p)) \<Longrightarrow>
      \<exists>t'. del hp t p = Inr t' \<and> inv hp t' \<and> lookup hp t' = spec_remove hp (lookup hp t) p"
    and get_law: "inv hp t \<Longrightarrow> is_response hp p \<Longrightarrow>
      \<exists>t'. get hp t p = Inr (spec_get (acc hp) hp (lookup hp t) p, t') \<and> inv hp t' \<and>
        lookup hp t' = (case spec_get (acc hp) hp (lookup hp t) p of
          None \<Rightarrow> lookup hp t | Some q \<Rightarrow> spec_remove hp (lookup hp t) q)"
begin

text \<open>The requests in the table.\<close>

definition members :: "heap \<Rightarrow> 't \<Rightarrow> pid set" where
  "members hp t = (\<Union>k. set (lookup hp t k))"

lemma mem_iff: "inv hp t \<Longrightarrow> p \<in> members hp t \<longleftrightarrow> p \<in> set (lookup hp t (key_of hp p))"
  unfolding members_def using stored by blast

lemma members_request: "inv hp t \<Longrightarrow> p \<in> members hp t \<Longrightarrow> is_request hp p"
  unfolding members_def using stored by blast

lemma members_cong:
  assumes "inv hp t" and "\<And>p. p \<in> members hp t \<Longrightarrow> hp' p = hp p"
  shows "inv hp' t" and "members hp' t = members hp t"
proof -
  have "inv hp' t \<and> lookup hp' t = lookup hp t"
    by (rule heap_cong [OF assms(1)]) (use assms(2) in \<open>unfold members_def, blast\<close>)
  then show "inv hp' t" and "members hp' t = members hp t" by (simp_all add: members_def)
qed

lemma ins_members:
  assumes "inv hp t" and "is_request hp p" and "p \<notin> members hp t"
  obtains t' where "ins hp t p = Inr t'" and "inv hp t'" and "members hp t' = insert p (members hp t)"
proof -
  obtain t' where t': "ins hp t p = Inr t'" "inv hp t'" "lookup hp t' = spec_insert hp (lookup hp t) p"
    using ins_law assms mem_iff by blast
  have "members hp t' = insert p (members hp t)"
    unfolding members_def t'(3) spec_insert_def by (rule UN_Cons)
  then show thesis using that t' by blast
qed

lemma remove_members:
  assumes "inv hp t" and "q \<in> members hp t" and "lookup hp t' = spec_remove hp (lookup hp t) q"
  shows "members hp t' = members hp t - {q}"
  unfolding members_def assms(3) spec_remove_def
  by (rule UN_remove1) (use stored [OF assms(1)] distinct_lookup [OF assms(1)] in auto)

lemma del_members:
  assumes "inv hp t" and "p \<in> members hp t"
  obtains t' where "del hp t p = Inr t'" and "inv hp t'" and "members hp t' = members hp t - {p}"
  using del_law [OF assms(1)] remove_members [OF assms] assms mem_iff that by metis

lemma get_members:
  assumes "inv hp t" and "is_response hp p"
  obtains (none) t' where "get hp t p = Inr (None, t')" and "inv hp t'" and "members hp t' = members hp t"
  | (found) q t' where "get hp t p = Inr (Some q, t')" and "inv hp t'"
      and "q \<in> members hp t" and "key_of hp q = key_of hp p" and "acc hp p q"
      and "members hp t' = members hp t - {q}"
proof -
  let ?r = "spec_get (acc hp) hp (lookup hp t) p"
  obtain t' where t': "get hp t p = Inr (?r, t')" "inv hp t'"
    "lookup hp t' = (case ?r of None \<Rightarrow> lookup hp t | Some q \<Rightarrow> spec_remove hp (lookup hp t) q)"
    using get_law assms by blast
  show thesis
  proof (cases ?r)
    case None
    then show thesis using none t' by (simp add: members_def)
  next
    case (Some q)
    then have q: "q \<in> set (lookup hp t (key_of hp p))" "acc hp p q"
      unfolding spec_get_def by (auto dest: first_match_SomeD)
    then have k: "key_of hp q = key_of hp p" "q \<in> members hp t"
      using stored [OF assms(1)] mem_iff [OF assms(1)] by metis+
    then have "members hp t' = members hp t - {q}"
      using remove_members [OF assms(1)] t'(3) Some by simp
    then show thesis using found t' Some q(2) k by simp
  qed
qed

text \<open>Every valid sequence of calls returns, with the results of the abstract table.\<close>

lemma run_ops_refines:
  assumes "inv hp t" and "valid_ops (acc hp) hp (lookup hp t) ops"
  shows "\<exists>t'. run_ops ins del get hp t ops = Inr (fst (spec_ops (acc hp) hp (lookup hp t) ops), t') \<and>
    inv hp t' \<and> lookup hp t' = snd (spec_ops (acc hp) hp (lookup hp t) ops)"
  using assms
proof (induction ops arbitrary: t)
  case (Cons oper ops)
  show ?case
  proof (cases oper)
    case (Insert_op p)
    then show ?thesis using ins_law [of hp t p] Cons by fastforce
  next
    case (Remove_op p)
    then show ?thesis using del_law [of hp t p] Cons by fastforce
  next
    case (Match_op p)
    then obtain t' where t': "get hp t p = Inr (spec_get (acc hp) hp (lookup hp t) p, t')" "inv hp t'"
      "lookup hp t' = (case spec_get (acc hp) hp (lookup hp t) p of
          None \<Rightarrow> lookup hp t | Some q \<Rightarrow> spec_remove hp (lookup hp t) q)"
      using get_law [of hp t p] Cons.prems by auto
    then have "valid_ops (acc hp) hp (lookup hp t') ops" using Cons.prems(2) Match_op by simp
    from Cons.IH [OF t'(2) this] t' show ?thesis using Match_op by (auto simp: split_beta Let_def)
  qed
qed simp

end

section \<open>The hash table implements the interface\<close>

lemma stored_ok_cong: "hp' p = hp p \<Longrightarrow> stored_ok hp' seed k hv p = stored_ok hp seed k hv p"
  by (simp add: stored_ok_def)

lemma bucket_cong:
  assumes "bucket_ok hp seed b" and "\<And>p. p \<in> set (b_packets b) \<Longrightarrow> hp' p = hp p"
  shows "bucket_ok hp' seed b" and "bucket_key hp' b = bucket_key hp b"
proof -
  have "hd (b_packets b) \<in> set (b_packets b)" using assms(1) by (simp add: bucket_ok_def)
  then show k: "bucket_key hp' b = bucket_key hp b" using assms(2) by (simp add: bucket_key_def)
  show "bucket_ok hp' seed b"
    using assms stored_ok_cong [of hp' _ hp] by (simp add: bucket_ok_def k)
qed

lemma hash_heap_cong:
  assumes "hash_inv hp h" and "\<And>p. p \<in> set (hash_contents h) \<Longrightarrow> hp' p = hp p"
  shows "hash_inv hp' h" and "hash_lookup hp' h = hash_lookup hp h"
proof -
  let ?bs = "concat (ph_data h)"
  have good: "good_buckets hp (ph_seed h) ?bs" using assms(1) by (simp add: hash_inv_def table_ok_def)
  have b: "bucket_ok hp' (ph_seed h) b" "bucket_key hp' b = bucket_key hp b" if "b \<in> set ?bs" for b
  proof -
    have "bucket_ok hp (ph_seed h) b" using good that unfolding good_buckets_def by blast
    moreover have "hp' p = hp p" if "p \<in> set (b_packets b)" for p
      using assms(2) \<open>b \<in> set ?bs\<close> that by (auto simp: hash_contents_def)
    ultimately show "bucket_ok hp' (ph_seed h) b" "bucket_key hp' b = bucket_key hp b"
      by (rule bucket_cong; blast)+
  qed
  have keys: "map (bucket_key hp') ?bs = map (bucket_key hp) ?bs"
    using b(2) by (rule map_cong [OF refl])
  have "good_buckets hp' (ph_seed h) ?bs"
    using good b(1) unfolding good_buckets_def keys by blast
  then show "hash_inv hp' h" using assms(1) by (simp add: hash_inv_def table_ok_def)
  have "filter (\<lambda>b. bucket_key hp' b = k) ?bs = filter (\<lambda>b. bucket_key hp b = k) ?bs" for k
    by (rule filter_cong) (simp_all add: b(2))
  then show "hash_lookup hp' h = hash_lookup hp h"
    by (intro ext) (simp add: hash_lookup_def lookup_buckets_def)
qed

lemma is_request_Some: "is_request hp p \<Longrightarrow> \<exists>pkt. hp p = Some pkt \<and> wf_packet pkt \<and>
    DNS_PACKET_IS_REQUEST pkt \<and> key_of hp p = match_key pkt"
  by (auto simp: is_request_def key_of_def split: option.splits)

lemma is_response_Some: "is_response hp p \<Longrightarrow> \<exists>pkt. hp p = Some pkt \<and> wf_packet pkt \<and>
    DNS_PACKET_IS_RESPONSE pkt \<and> key_of hp p = match_key pkt"
  by (auto simp: is_response_def key_of_def split: option.splits)

lemma hash_lookup_request:
  assumes "hash_inv hp h" and "p \<in> set (hash_lookup hp h k)"
  shows "is_request hp p" and "key_of hp p = k"
  using hash_lookup_stored [of hp h p k] assms
  by (auto simp: hash_inv_def is_request_def key_of_def stored_ok_def split: option.splits)

text \<open>The test that \<open>dns_packet_hash_get_match\<close> applies, by addresses.\<close>

definition accepts_at :: "(u8 list \<Rightarrow> u8 list \<Rightarrow> bool) \<Rightarrow> bool \<Rightarrow> heap \<Rightarrow> pid \<Rightarrow> pid \<Rightarrow> bool" where
  "accepts_at dname_eq match_qname hp p = accepts dname_eq hp (the (hp p)) match_qname"

interpretation rt: request_table hash_inv hash_lookup dns_packet_hash_insert_packet
  dns_packet_hash_remove_packet "\<lambda>hp h p. dns_packet_hash_get_match dname_eq hp h p match_qname"
  "accepts_at dname_eq match_qname" for dname_eq match_qname
proof
  fix hp h p k and hp' :: heap
  assume inv: "hash_inv hp h"
  show "hash_inv hp' h \<and> hash_lookup hp' h = hash_lookup hp h"
    if "\<And>k p. p \<in> set (hash_lookup hp h k) \<Longrightarrow> hp' p = hp p"
    using hash_heap_cong [OF inv] that unfolding hash_contents_lookup [of h hp] by blast
  show "is_request hp p \<and> key_of hp p = k" if "p \<in> set (hash_lookup hp h k)"
    using hash_lookup_request [OF inv that] by simp
  show "distinct (hash_lookup hp h k)" using inv hash_lookup_distinct by (simp add: hash_inv_def)
  show "\<exists>h'. dns_packet_hash_insert_packet hp h p = Inr h' \<and> hash_inv hp h' \<and>
      hash_lookup hp h' = spec_insert hp (hash_lookup hp h) p"
    if p: "is_request hp p" "p \<notin> set (hash_lookup hp h (key_of hp p))"
  proof -
    obtain pkt where pkt: "hp p = Some pkt" "wf_packet pkt" "DNS_PACKET_IS_REQUEST pkt"
      "key_of hp p = match_key pkt" using is_request_Some [OF p(1)] by blast
    have "p \<notin> set (hash_contents h)"
      using p(2) hash_lookup_request(2) [OF inv] unfolding hash_contents_lookup [of h hp] by blast
    from inv pkt(1-3) this show ?thesis
      by (rule insert_packet_spec) (auto simp: spec_insert_def pkt(4))
  qed
  show "\<exists>h'. dns_packet_hash_remove_packet hp h p = Inr h' \<and> hash_inv hp h' \<and>
      hash_lookup hp h' = spec_remove hp (hash_lookup hp h) p"
    if "p \<in> set (hash_lookup hp h (key_of hp p))"
    using inv that by (rule remove_packet_spec) (auto simp: spec_remove_def)
  show "\<exists>h'. dns_packet_hash_get_match dname_eq hp h p match_qname =
        Inr (spec_get (accepts_at dname_eq match_qname hp) hp (hash_lookup hp h) p, h') \<and> hash_inv hp h' \<and>
      hash_lookup hp h' = (case spec_get (accepts_at dname_eq match_qname hp) hp (hash_lookup hp h) p of
          None \<Rightarrow> hash_lookup hp h | Some q \<Rightarrow> spec_remove hp (hash_lookup hp h) q)"
    if p: "is_response hp p"
  proof -
    let ?r = "spec_get (accepts_at dname_eq match_qname hp) hp (hash_lookup hp h) p"
    obtain pkt where pkt: "hp p = Some pkt" "wf_packet pkt" "DNS_PACKET_IS_RESPONSE pkt"
      "key_of hp p = match_key pkt" using is_response_Some [OF p] by blast
    have r: "?r = first_match (accepts dname_eq hp pkt match_qname) (hash_lookup hp h (match_key pkt))"
      by (simp add: spec_get_def accepts_at_def pkt)
    have "key_of hp q = match_key pkt" if "?r = Some q" for q
      using first_match_SomeD(1) hash_lookup_request(2) [OF inv] that unfolding r by blast
    then show ?thesis
      using get_match_spec [OF inv pkt(1-3) r] by (cases ?r) (auto simp: spec_remove_def)
  qed
qed

lemma members_contents: "rt.members hp h = set (hash_contents h)"
  unfolding rt.members_def by (rule hash_contents_lookup [symmetric])

lemma hash_create_inv:
  assumes "seed \<noteq> 0 \<Longrightarrow> 0x100 < seed" and "seed = 0 \<Longrightarrow> 0x100 < random1 + push_bit 32 random2" and "0 < cap"
  shows "hash_inv hp (dns_packet_hash_create random1 random2 cap seed)"
    and "hash_lookup hp (dns_packet_hash_create random1 random2 cap seed) = (\<lambda>_. [])"
  using assms by (auto simp: hash_inv_def table_ok_def dns_packet_hash_create_def good_buckets_def
      hash_lookup_def [abs_def] lookup_buckets_def)

section \<open>Properties\<close>

text \<open>
  C19: the hash table implements the table of requests. From a freshly created table every
  valid sequence of insertions, removals and matches returns without failing an assertion
  or following a bad pointer, with the results of the abstract table, and leaves a table
  that satisfies the invariant and holds what the abstract table holds, whatever resizes
  happened on the way.
\<close>

theorem hash_table_refines:
  assumes "0x100 < seed" and "0 < cap"
    and "valid_ops (accepts_at dname_eq match_qname hp) hp (\<lambda>_. []) ops"
  shows "\<exists>h'. run_ops dns_packet_hash_insert_packet dns_packet_hash_remove_packet
      (\<lambda>hp h p. dns_packet_hash_get_match dname_eq hp h p match_qname)
      hp (dns_packet_hash_create random1 random2 cap seed) ops
    = Inr (fst (spec_ops (accepts_at dname_eq match_qname hp) hp (\<lambda>_. []) ops), h') \<and>
    hash_inv hp h' \<and>
    hash_lookup hp h' = snd (spec_ops (accepts_at dname_eq match_qname hp) hp (\<lambda>_. []) ops)"
proof -
  have "seed \<noteq> 0" using assms(1) by auto
  then have "hash_inv hp (dns_packet_hash_create random1 random2 cap seed)"
    "hash_lookup hp (dns_packet_hash_create random1 random2 cap seed) = (\<lambda>_. [])"
    using hash_create_inv [of seed random1 random2 cap] assms(1,2) by blast+
  then show ?thesis using rt.run_ops_refines [of hp _ dname_eq match_qname ops] assms(3) by metis
qed

definition ex_heap3 :: heap where
  "ex_heap3 = [5 \<mapsto> ex_packet 10 False, 6 \<mapsto> ex_packet 15 False, 7 \<mapsto> ex_packet 20 True]"

lemma ex_heap3_simps:
  "ex_heap3 5 = Some (ex_packet 10 False)" "ex_heap3 6 = Some (ex_packet 15 False)"
  "ex_heap3 7 = Some (ex_packet 20 True)"
  by (simp_all add: ex_heap3_def)

lemma ex_heap3_ok:
  "is_request ex_heap3 5" "is_request ex_heap3 6" "is_response ex_heap3 7"
  "key_of ex_heap3 6 = key_of ex_heap3 5" "key_of ex_heap3 7 = key_of ex_heap3 5"
  by (simp_all add: is_request_def is_response_def key_of_def ex_heap3_simps ex_packet_simps match_key_def
      packet_getter_defs)

lemma ex_accepts [simp]: "accepts_at dname_eq False hp p q"
  by (simp add: accepts_at_def accepts_def)

theorem hash_table_refines_witness:
  "\<exists>h'. run_ops dns_packet_hash_insert_packet dns_packet_hash_remove_packet
      (\<lambda>hp h p. dns_packet_hash_get_match (=) hp h p False)
      ex_heap3 (dns_packet_hash_create 0 0 1 1000003) [Insert_op 5, Insert_op 6, Match_op 7, Match_op 7, Match_op 7]
    = Inr ([Some 6, Some 5, None], h') \<and> hash_inv ex_heap3 h'"
proof -
  let ?ops = "[Insert_op 5, Insert_op 6, Match_op 7, Match_op 7, Match_op 7]"
  have sp: "fst (spec_ops (accepts_at (=) False ex_heap3) ex_heap3 (\<lambda>_. []) ?ops) = [Some 6, Some 5, None]"
    by (simp add: ex_heap3_ok spec_insert_def spec_remove_def spec_get_def first_match_def
        DNS_PACKET_HASH_MAX_SEARCH_def)
  have "valid_ops (accepts_at (=) False ex_heap3) ex_heap3 (\<lambda>_. []) ?ops"
    by (simp add: ex_heap3_ok spec_insert_def spec_remove_def spec_get_def first_match_def
        DNS_PACKET_HASH_MAX_SEARCH_def)
  from hash_table_refines [of 1000003 1 "(=)" False ex_heap3 ?ops 0 0, OF _ _ this]
  show ?thesis unfolding sp by auto
qed

text \<open>
  C21: of two requests with the same key the table hands out the one inserted last: a
  response that arrives after both is matched with the newest request. The comments in the
  sources promise the oldest.
\<close>

theorem hash_match_newest:
  assumes "hash_inv hp h" and "is_request hp p" and "is_request hp q" and "is_response hp r"
    and "key_of hp p = key_of hp r" and "key_of hp q = key_of hp r"
    and "p \<noteq> q" and "p \<notin> set (hash_contents h)" and "q \<notin> set (hash_contents h)"
  shows "\<exists>h1 h2 h3. dns_packet_hash_insert_packet hp h p = Inr h1 \<and>
    dns_packet_hash_insert_packet hp h1 q = Inr h2 \<and>
    dns_packet_hash_get_match dname_eq hp h2 r False = Inr (Some q, h3) \<and> p \<in> set (hash_contents h3)"
proof -
  let ?ops = "[Insert_op p, Insert_op q, Match_op r]" and ?m = "hash_lookup hp h"
  have new: "x \<notin> set (?m k)" if "x \<notin> set (hash_contents h)" for x k
    using that unfolding hash_contents_lookup [of h hp] by blast
  have "valid_ops (accepts_at dname_eq False hp) hp ?m ?ops"
    using assms new by (simp add: spec_insert_def)
  from rt.run_ops_refines [OF assms(1) this]
  obtain h3 where h3: "run_ops dns_packet_hash_insert_packet dns_packet_hash_remove_packet
      (\<lambda>hp h p. dns_packet_hash_get_match dname_eq hp h p False) hp h ?ops = Inr ([Some q], h3)"
    and l: "hash_lookup hp h3 = ?m(key_of hp r := p # ?m (key_of hp r))"
    using assms(5-7) by (auto simp: spec_insert_def spec_get_def spec_remove_def first_match_def)
  have "p \<in> set (hash_contents h3)"
    unfolding hash_contents_lookup [of _ hp] l UN_Cons by (rule insertI1)
  then show ?thesis using h3 by (auto simp: bindr_Inr_iff split_beta)
qed

theorem hash_match_newest_witness:
  "\<exists>h1 h2 h3. dns_packet_hash_insert_packet ex_heap3 (dns_packet_hash_create 0 0 8 1000003) 5 = Inr h1 \<and>
    dns_packet_hash_insert_packet ex_heap3 h1 6 = Inr h2 \<and>
    dns_packet_hash_get_match (=) ex_heap3 h2 7 False = Inr (Some 6, h3) \<and> 5 \<in> set (hash_contents h3)"
proof -
  have "hash_inv ex_heap3 (dns_packet_hash_create 0 0 8 1000003)"
    by (rule hash_create_inv) simp_all
  moreover have "hash_contents (dns_packet_hash_create 0 0 8 1000003) = []"
    by (simp add: hash_contents_def dns_packet_hash_create_def)
  ultimately show ?thesis using ex_heap3_ok by (intro hash_match_newest) simp_all
qed

text \<open>
  C20: resizing to any capacity keeps the invariant of the table, moves no packet in or out
  and does not change what is stored under any key; the new capacity is the one asked for,
  or the minimum.
\<close>

theorem hash_resize_transparent:
  assumes "table_ok hp h"
  shows "table_ok hp (dns_packet_hash_resize h n) \<and>
    hash_lookup hp (dns_packet_hash_resize h n) = hash_lookup hp h \<and>
    ph_capacity (dns_packet_hash_resize h n) = max n (ph_min_capacity h) \<and>
    mset (concat (ph_data (dns_packet_hash_resize h n))) = mset (concat (ph_data h))"
  using resize_ok [OF assms] resize_data(2) assms by (simp add: table_ok_def)

theorem hash_resize_transparent_witness:
  "table_ok ex_heap3 (dns_packet_hash_resize (dns_packet_hash_create 0 0 8 1000003) 16) \<and>
   ph_capacity (dns_packet_hash_resize (dns_packet_hash_create 0 0 8 1000003) 16) = 16"
proof -
  have "hash_inv ex_heap3 (dns_packet_hash_create 0 0 8 1000003)"
    by (rule hash_create_inv) simp_all
  then have "table_ok ex_heap3 (dns_packet_hash_create 0 0 8 1000003)" by (simp add: hash_inv_def)
  from hash_resize_transparent [OF this, of 16] show ?thesis
    by (simp add: dns_packet_hash_create_def)
qed

end
