(* ===== verification/Frame_Queue.thy ===== *)
theory Frame_Queue
  imports Packet_Frame
begin

text \<open>
  \<^verbatim>\<open>src/frame_queue.h\<close> and \<^verbatim>\<open>src/frame_queue.c\<close>: the bounded circular queue between two threads.
  Every operation holds the queue's mutex, so it is one atomic transition up to the point
  where it waits: a wait on a condition variable releases the mutex and later runs the
  same test again, hence an attempt that has to wait is the value \<open>Enq_wait\<close> or
  \<open>Deq_wait\<close> and leaves the queue alone. Indices and lengths are natural numbers: they are
  bounded by the capacity, so the C arithmetic on \<open>size_t\<close> does not wrap.
\<close>

section \<open>The queue\<close>

datatype dns_frame_queue_on_full = DNS_QUEUE_BLOCK | DNS_QUEUE_DROP_NEWEST | DNS_QUEUE_DROP_OLDEST

text \<open>A slot of the array that was never written is \<open>None\<close>.\<close>

record dns_frame_queue =
  fq_queue :: "dns_packet_frame option list"
  fq_length :: nat
  fq_start :: nat
  fq_capacity :: nat
  fq_on_full :: dns_frame_queue_on_full
  fq_total_size :: u64

definition dns_frame_queue_create :: "nat \<Rightarrow> dns_frame_queue_on_full \<Rightarrow> dns_frame_queue" where
  "dns_frame_queue_create cap on_full =
     \<lparr>fq_queue = replicate cap None, fq_length = 0, fq_start = 0, fq_capacity = cap,
      fq_on_full = on_full, fq_total_size = 0\<rparr>"

text \<open>Reading a slot: outside the array or never written is a bad pointer.\<close>

definition slot :: "dns_frame_queue \<Rightarrow> nat \<Rightarrow> dns_packet_frame res" where
  "slot q i = (if i < length (fq_queue q)
     then (case fq_queue q ! i of None \<Rightarrow> Inl (Bad_pointer ''queue slot'') | Some f \<Rightarrow> Inr f)
     else Inl (Bad_pointer ''queue slot''))"

text \<open>\<open>dns_frame_queue_destroy\<close> destroys the frames in the first \<open>length\<close> slots of the array.\<close>

fun destroy_slots :: "heap \<Rightarrow> dns_frame_queue \<Rightarrow> nat list \<Rightarrow> heap run" where
  "destroy_slots h q [] = Some (Inr h)"
| "destroy_slots h q (i # is) =
     (case slot q i of
        Inl e \<Rightarrow> Some (Inl e)
      | Inr f \<Rightarrow> bindo (dns_packet_frame_destroy h f) (\<lambda>h'. destroy_slots h' q is))"

definition dns_frame_queue_destroy :: "heap \<Rightarrow> dns_frame_queue \<Rightarrow> heap run" where
  "dns_frame_queue_destroy h q = destroy_slots h q [0..<fq_length q]"

definition dns_frame_queue_dequeue_internal ::
    "dns_frame_queue \<Rightarrow> (dns_packet_frame \<times> dns_frame_queue) res" where
  "dns_frame_queue_dequeue_internal q =
     bindr (slot q (fq_start q)) (\<lambda>f. Inr (f, q\<lparr>
       fq_start := (fq_start q + 1) mod fq_capacity q,
       fq_length := fq_length q - 1,
       fq_total_size := fq_total_size q - fr_size f\<rparr>))"

datatype enq_outcome = Enq_done heap "dns_frame_queue option" | Enq_wait

text \<open>The end of \<open>dns_frame_queue_enqueue\<close>: the frame goes behind the newest one.\<close>

definition queue_store :: "dns_frame_queue \<Rightarrow> dns_packet_frame \<Rightarrow> dns_frame_queue" where
  "queue_store q f = q\<lparr>
     fq_queue := (fq_queue q)[(fq_start q + fq_length q) mod fq_capacity q := Some f],
     fq_length := fq_length q + 1,
     fq_total_size := fq_total_size q + fr_size f\<rparr>"

text \<open>The loop of \<open>dns_frame_queue_enqueue\<close> while the queue is full.\<close>

partial_function (option) enqueue_loop ::
    "heap \<Rightarrow> dns_frame_queue \<Rightarrow> dns_packet_frame \<Rightarrow> enq_outcome run" where
  "enqueue_loop h q f =
     (if fq_length q + 1 > fq_capacity q then
        if fq_length q < 1 then Some (Inl (Assert_failed ''q->length >= 1''))
        else (case fq_on_full q of
          DNS_QUEUE_BLOCK \<Rightarrow> Some (Inr Enq_wait)
        | DNS_QUEUE_DROP_OLDEST \<Rightarrow>
            (case dns_frame_queue_dequeue_internal q of
               Inl e \<Rightarrow> Some (Inl e)
             | Inr fq \<Rightarrow> bindo (dns_packet_frame_destroy h (fst fq)) (\<lambda>h'. enqueue_loop h' (snd fq) f))
        | DNS_QUEUE_DROP_NEWEST \<Rightarrow>
            bindo (dns_packet_frame_destroy h f) (\<lambda>h'. Some (Inr (Enq_done h' (Some q)))))
      else Some (Inr (Enq_done h (Some (queue_store q f)))))"

definition dns_frame_queue_enqueue ::
    "heap \<Rightarrow> dns_frame_queue option \<Rightarrow> dns_packet_frame \<Rightarrow> enq_outcome run" where
  "dns_frame_queue_enqueue h q f =
     (case q of
        None \<Rightarrow> bindo (dns_packet_frame_destroy h f) (\<lambda>h'. Some (Inr (Enq_done h' None)))
      | Some q \<Rightarrow> enqueue_loop h q f)"

datatype deq_outcome = Deq_done dns_packet_frame dns_frame_queue | Deq_wait

definition dns_frame_queue_dequeue :: "dns_frame_queue \<Rightarrow> deq_outcome res" where
  "dns_frame_queue_dequeue q =
     (if fq_length q = 0 then Inr Deq_wait
      else bindr (dns_frame_queue_dequeue_internal q) (\<lambda>fq. Inr (Deq_done (fst fq) (snd fq))))"

section \<open>Specification\<close>

text \<open>The frames in the queue, oldest first.\<close>

definition queue_frames :: "dns_frame_queue \<Rightarrow> dns_packet_frame list" where
  "queue_frames q =
     map (\<lambda>i. the (fq_queue q ! ((fq_start q + i) mod fq_capacity q))) [0..<fq_length q]"

definition queue_inv :: "dns_frame_queue \<Rightarrow> bool" where
  "queue_inv q \<longleftrightarrow> 0 < fq_capacity q \<and> length (fq_queue q) = fq_capacity q \<and>
     fq_start q < fq_capacity q \<and> fq_length q \<le> fq_capacity q \<and>
     (\<forall>i < fq_length q. fq_queue q ! ((fq_start q + i) mod fq_capacity q) \<noteq> None) \<and>
     fq_total_size q = sum_list (map fr_size (queue_frames q))"

text \<open>
  Two threads on one channel: the producer still has to send the frames of the first
  component, the consumer has received those of the last one. A wait is no step.
\<close>

inductive channel_step ::
    "('q \<Rightarrow> 'f \<Rightarrow> 'q option) \<Rightarrow> ('q \<Rightarrow> ('f \<times> 'q) option) \<Rightarrow>
     'f list \<times> 'q \<times> 'f list \<Rightarrow> 'f list \<times> 'q \<times> 'f list \<Rightarrow> bool"
  for enq deq where
  produce: "enq q f = Some q' \<Longrightarrow> channel_step enq deq (f # todo, q, got) (todo, q', got)"
| consume: "deq q = Some (f, q') \<Longrightarrow> channel_step enq deq (todo, q, got) (todo, q', got @ [f])"

text \<open>One attempt of each operation on a blocking queue; \<open>None\<close> is an attempt that waits.\<close>

definition try_enqueue :: "dns_frame_queue \<Rightarrow> dns_packet_frame \<Rightarrow> dns_frame_queue option" where
  "try_enqueue q f = (case dns_frame_queue_enqueue Map.empty (Some q) f of
     Some (Inr (Enq_done h q')) \<Rightarrow> q' | _ \<Rightarrow> None)"

definition try_dequeue :: "dns_frame_queue \<Rightarrow> (dns_packet_frame \<times> dns_frame_queue) option" where
  "try_dequeue q = (case dns_frame_queue_dequeue q of
     Inr (Deq_done f q') \<Rightarrow> Some (f, q') | _ \<Rightarrow> None)"

definition blocking_inv :: "dns_frame_queue \<Rightarrow> bool" where
  "blocking_inv q \<longleftrightarrow> queue_inv q \<and> fq_on_full q = DNS_QUEUE_BLOCK"

section \<open>The interface of a bounded channel\<close>

text \<open>
  What the threads rely on: an attempt to send waits exactly when the channel is full, an
  attempt to receive exactly when it is empty, and frames leave in the order they came.
\<close>

locale bounded_channel =
  fixes frames :: "'q \<Rightarrow> 'f list"
    and invar :: "'q \<Rightarrow> bool"
    and cap :: "'q \<Rightarrow> nat"
    and enq :: "'q \<Rightarrow> 'f \<Rightarrow> 'q option"
    and deq :: "'q \<Rightarrow> ('f \<times> 'q) option"
  assumes cap_pos: "invar q \<Longrightarrow> 0 < cap q"
    and within_cap: "invar q \<Longrightarrow> length (frames q) \<le> cap q"
    and enq_wait: "invar q \<Longrightarrow> enq q f = None \<longleftrightarrow> length (frames q) = cap q"
    and enq_done: "invar q \<Longrightarrow> enq q f = Some q' \<Longrightarrow>
      invar q' \<and> cap q' = cap q \<and> frames q' = frames q @ [f]"
    and deq_wait: "invar q \<Longrightarrow> deq q = None \<longleftrightarrow> frames q = []"
    and deq_done: "invar q \<Longrightarrow> deq q = Some (f, q') \<Longrightarrow>
      invar q' \<and> cap q' = cap q \<and> frames q = f # frames q'"
begin

lemma step_preserves:
  assumes "channel_step enq deq s t" and "invar (fst (snd s))"
  shows "invar (fst (snd t)) \<and> cap (fst (snd t)) = cap (fst (snd s)) \<and>
    snd (snd t) @ frames (fst (snd t)) @ fst t = snd (snd s) @ frames (fst (snd s)) @ fst s \<and>
    2 * length (fst t) + length (frames (fst (snd t)))
      < 2 * length (fst s) + length (frames (fst (snd s)))"
  using assms
proof (cases rule: channel_step.cases)
  case (produce q f q' todo got)
  with enq_done [of q f q'] assms(2) show ?thesis by simp
next
  case (consume q f q' todo got)
  with deq_done [of q f q'] assms(2) show ?thesis by simp
qed

lemma steps_preserve:
  assumes "(channel_step enq deq)\<^sup>*\<^sup>* s t" and "invar (fst (snd s))"
  shows "invar (fst (snd t)) \<and> cap (fst (snd t)) = cap (fst (snd s)) \<and>
    snd (snd t) @ frames (fst (snd t)) @ fst t = snd (snd s) @ frames (fst (snd s)) @ fst s"
  using assms by (induction rule: rtranclp_induct) (auto dest: step_preserves)

lemma steps_bounded:
  assumes "(channel_step enq deq ^^ n) s t" and "invar (fst (snd s))"
  shows "invar (fst (snd t)) \<and> n + (2 * length (fst t) + length (frames (fst (snd t))))
    \<le> 2 * length (fst s) + length (frames (fst (snd s)))"
  using assms
proof (induction n arbitrary: t)
  case (Suc n)
  then obtain u where "(channel_step enq deq ^^ n) s u" and "channel_step enq deq u t"
    by auto
  with Suc.IH [of u] Suc.prems(2) show ?case
    by (auto dest!: step_preserves)
qed simp

lemma not_stuck:
  assumes "invar q" and "todo \<noteq> [] \<or> frames q \<noteq> []"
  shows "\<exists>t. channel_step enq deq (todo, q, got) t"
proof (cases "frames q = []")
  case True
  with assms cap_pos [of q] obtain f todo' where f: "todo = f # todo'" by (cases todo) auto
  with True assms cap_pos [of q] enq_wait [of q f] obtain q' where "enq q f = Some q'" by auto
  with f show ?thesis by (blast intro: channel_step.produce)
next
  case False
  with assms deq_wait [of q] obtain f q' where "deq q = Some (f, q')" by fastforce
  then show ?thesis by (blast intro: channel_step.consume)
qed

lemma stuck_delivered:
  assumes "(channel_step enq deq)\<^sup>*\<^sup>* (todo, q, []) (todo', q', got')" and "invar q" and "frames q = []"
    and "\<nexists>t. channel_step enq deq (todo', q', got') t"
  shows "todo' = [] \<and> got' = todo"
  using steps_preserve [OF assms(1)] assms(2-4) not_stuck [of q' todo' got'] by auto

end

section \<open>The circular array implements the channel\<close>

lemma ring_index_inj:
  fixes c :: nat
  assumes "(s + i) mod c = (s + j) mod c" and "i < c" and "j < c"
  shows "i = j"
proof -
  have le: "a = b" if "(s + a) mod c = (s + b) mod c" "a \<le> b" "b < c" for a b
  proof -
    have "c dvd (s + b) - (s + a)"
      using that(1,2) mod_eq_dvd_iff_nat [of "s + a" "s + b" c] by simp
    with that(2,3) show ?thesis by (auto dest: dvd_imp_le)
  qed
  show ?thesis using le [of i j] le [of j i] assms by (cases "i \<le> j") auto
qed

lemma length_queue_frames [simp]: "length (queue_frames q) = fq_length q"
  by (simp add: queue_frames_def)

lemma queue_store_fields [simp]:
  "fq_length (queue_store q f) = fq_length q + 1" "fq_start (queue_store q f) = fq_start q"
  "fq_capacity (queue_store q f) = fq_capacity q" "fq_on_full (queue_store q f) = fq_on_full q"
  "fq_total_size (queue_store q f) = fq_total_size q + fr_size f"
  "fq_queue (queue_store q f) = (fq_queue q)[(fq_start q + fq_length q) mod fq_capacity q := Some f]"
  by (simp_all add: queue_store_def)

lemma queue_store_slot:
  assumes "queue_inv q" and "i < fq_length q" and "fq_length q < fq_capacity q"
  shows "fq_queue (queue_store q f) ! ((fq_start q + i) mod fq_capacity q)
    = fq_queue q ! ((fq_start q + i) mod fq_capacity q)"
proof -
  have "(fq_start q + fq_length q) mod fq_capacity q \<noteq> (fq_start q + i) mod fq_capacity q"
    using assms ring_index_inj [of "fq_start q" i "fq_capacity q" "fq_length q"] by auto
  then show ?thesis by simp
qed

lemma queue_frames_store:
  assumes "queue_inv q" and "fq_length q < fq_capacity q"
  shows "queue_frames (queue_store q f) = queue_frames q @ [f]"
  using assms queue_store_slot [OF assms(1) _ assms(2), of _ f]
  by (simp add: queue_frames_def queue_inv_def del: queue_store_fields(6)) simp

lemma queue_inv_store:
  assumes "queue_inv q" and "fq_length q < fq_capacity q"
  shows "queue_inv (queue_store q f)"
proof -
  have "fq_queue (queue_store q f) ! ((fq_start q + i) mod fq_capacity q) \<noteq> None"
    if "i < fq_length q + 1" for i
  proof (cases "i = fq_length q")
    case True
    with assms show ?thesis by (simp add: queue_inv_def)
  next
    case False
    with that have "i < fq_length q" by simp
    with assms queue_store_slot [OF assms(1) this assms(2), of f] show ?thesis
      by (simp add: queue_inv_def del: queue_store_fields(6))
  qed
  with assms queue_frames_store [OF assms, of f] show ?thesis
    by (simp add: queue_inv_def)
qed

lemma dequeue_internal_ok:
  assumes "queue_inv q" and "0 < fq_length q"
  obtains f q' where "dns_frame_queue_dequeue_internal q = Inr (f, q')"
    and "queue_frames q = f # queue_frames q'" and "queue_inv q'"
    and "fq_capacity q' = fq_capacity q" and "fq_on_full q' = fq_on_full q"
    and "fq_length q' = fq_length q - 1"
proof -
  let ?c = "fq_capacity q"
  obtain n where n: "fq_length q = Suc n" using assms(2) by (cases "fq_length q") auto
  have st: "fq_queue q ! (fq_start q) \<noteq> None" "fq_start q < ?c" "length (fq_queue q) = ?c"
    using assms by (auto simp: queue_inv_def dest: spec [of _ 0])
  then obtain f where f: "fq_queue q ! (fq_start q) = Some f" by blast
  define q' where "q' = q\<lparr>fq_start := (fq_start q + 1) mod ?c, fq_length := fq_length q - 1,
       fq_total_size := fq_total_size q - fr_size f\<rparr>"
  have q': "fq_queue q' = fq_queue q" "fq_start q' = (fq_start q + 1) mod ?c"
    "fq_length q' = n" "fq_capacity q' = ?c" "fq_total_size q' = fq_total_size q - fr_size f"
    "fq_on_full q' = fq_on_full q"
    by (simp_all add: q'_def n)
  have idx: "(Suc (fq_start q) mod ?c + i) mod ?c = Suc (fq_start q + i) mod ?c" for i
    by (simp add: mod_simps)
  have fr: "queue_frames q = f # queue_frames q'"
    using st f by (simp add: queue_frames_def q' n idx upt_conv_Cons map_Suc_upt [symmetric] del: upt_Suc)
  have "queue_inv q'"
    using assms st fr by (auto simp: queue_inv_def q' n idx)
  then show ?thesis
  proof (rule that [of f q', rotated 2])
    show "dns_frame_queue_dequeue_internal q = Inr (f, q')"
      using st f by (simp add: dns_frame_queue_dequeue_internal_def slot_def q'_def)
  qed (use fr q' n in simp_all)
qed

lemma queue_create_inv: "0 < cap \<Longrightarrow> queue_inv (dns_frame_queue_create cap on_full)"
  by (simp add: queue_inv_def dns_frame_queue_create_def queue_frames_def)

lemma queue_create_frames [simp]: "queue_frames (dns_frame_queue_create cap on_full) = []"
  by (simp add: dns_frame_queue_create_def queue_frames_def)

lemma blocking_create_inv:
  assumes "0 < cap"
  shows "blocking_inv (dns_frame_queue_create cap DNS_QUEUE_BLOCK) \<and>
    fq_capacity (dns_frame_queue_create cap DNS_QUEUE_BLOCK) = cap"
  using queue_create_inv [OF assms] by (simp add: blocking_inv_def dns_frame_queue_create_def)

lemma enqueue_room:
  "fq_length q < fq_capacity q \<Longrightarrow>
   dns_frame_queue_enqueue h (Some q) f = Some (Inr (Enq_done h (Some (queue_store q f))))"
  by (simp add: dns_frame_queue_enqueue_def enqueue_loop.simps)

lemma enqueue_block_full:
  assumes "queue_inv q" and "fq_on_full q = DNS_QUEUE_BLOCK" and "fq_length q = fq_capacity q"
  shows "dns_frame_queue_enqueue h (Some q) f = Some (Inr Enq_wait)"
  using assms by (simp add: dns_frame_queue_enqueue_def enqueue_loop.simps queue_inv_def)

lemma try_enqueue_eq:
  assumes "blocking_inv q"
  shows "try_enqueue q f = (if fq_length q < fq_capacity q then Some (queue_store q f) else None)"
proof (cases "fq_length q < fq_capacity q")
  case True
  then show ?thesis by (simp add: try_enqueue_def enqueue_room)
next
  case False
  with assms have "fq_length q = fq_capacity q" by (simp add: blocking_inv_def queue_inv_def)
  with assms enqueue_block_full [of q "Map.empty" f] show ?thesis
    by (simp add: try_enqueue_def blocking_inv_def)
qed

lemma try_dequeue_cases:
  assumes "blocking_inv q"
  obtains "queue_frames q = []" and "try_dequeue q = None"
  | f q' where "try_dequeue q = Some (f, q')" and "queue_frames q = f # queue_frames q'"
    and "blocking_inv q'" and "fq_capacity q' = fq_capacity q"
proof (cases "fq_length q = 0")
  case True
  then show ?thesis
    by (intro that(1)) (simp_all add: try_dequeue_def dns_frame_queue_dequeue_def queue_frames_def)
next
  case False
  have "queue_inv q" "0 < fq_length q" using assms False by (simp_all add: blocking_inv_def)
  then obtain f q' where "dns_frame_queue_dequeue_internal q = Inr (f, q')"
    "queue_frames q = f # queue_frames q'" "queue_inv q'" "fq_capacity q' = fq_capacity q"
    "fq_on_full q' = fq_on_full q"
    by (rule dequeue_internal_ok)
  with False assms show ?thesis
    by (intro that(2) [of f q'])
      (simp_all add: try_dequeue_def dns_frame_queue_dequeue_def blocking_inv_def)
qed

interpretation bq: bounded_channel queue_frames blocking_inv fq_capacity try_enqueue try_dequeue
proof
  fix q :: dns_frame_queue
  assume inv: "blocking_inv q"
  then have qi: "queue_inv q" "fq_length q \<le> fq_capacity q" "fq_on_full q = DNS_QUEUE_BLOCK"
    by (simp_all add: blocking_inv_def queue_inv_def)
  show "0 < fq_capacity q" using qi(1) by (simp add: queue_inv_def)
  show "length (queue_frames q) \<le> fq_capacity q" using qi(2) by simp
  show "try_enqueue q f = None \<longleftrightarrow> length (queue_frames q) = fq_capacity q" for f
    using qi(2) by (auto simp: try_enqueue_eq [OF inv])
  show "blocking_inv q' \<and> fq_capacity q' = fq_capacity q \<and> queue_frames q' = queue_frames q @ [f]"
    if "try_enqueue q f = Some q'" for f q'
  proof -
    have "q' = queue_store q f" "fq_length q < fq_capacity q"
      using that by (auto simp: try_enqueue_eq [OF inv] split: if_splits)
    with qi queue_inv_store [of q f] queue_frames_store [of q f] show ?thesis
      by (simp add: blocking_inv_def)
  qed
  show "try_dequeue q = None \<longleftrightarrow> queue_frames q = []"
    using inv by (cases rule: try_dequeue_cases) simp_all
  show "blocking_inv q' \<and> fq_capacity q' = fq_capacity q \<and> queue_frames q = f # queue_frames q'"
    if "try_dequeue q = Some (f, q')" for f q'
    using inv by (cases rule: try_dequeue_cases) (use that in simp_all)
qed

section \<open>Full queues\<close>

lemma bindo_return [simp]: "bindo m (\<lambda>a. Some (Inr a)) = m"
proof (cases m)
  case (Some r)
  then show ?thesis by (cases r) auto
qed simp

lemma enqueue_drop_oldest_full:
  assumes "queue_inv q" and "fq_on_full q = DNS_QUEUE_DROP_OLDEST" and "fq_length q = fq_capacity q"
    and "dns_packet_frame_destroy h (hd (queue_frames q)) = Some (Inr h')"
  shows "\<exists>q'. dns_frame_queue_enqueue h (Some q) f = Some (Inr (Enq_done h' (Some q'))) \<and>
    queue_frames q' = tl (queue_frames q) @ [f] \<and> queue_inv q'"
proof -
  have cap: "0 < fq_capacity q" using assms(1) by (simp add: queue_inv_def)
  with assms(3) have "0 < fq_length q" by simp
  then obtain old q1 where d: "dns_frame_queue_dequeue_internal q = Inr (old, q1)"
    and fr: "queue_frames q = old # queue_frames q1" and i: "queue_inv q1"
    and c: "fq_capacity q1 = fq_capacity q" and l: "fq_length q1 = fq_length q - 1"
    using dequeue_internal_ok [OF assms(1)] by metis
  have room: "fq_length q1 < fq_capacity q1" using c l assms(3) cap by simp
  have "enqueue_loop h q f = enqueue_loop h' q1 f"
    using assms(2-4) cap d fr by (simp add: enqueue_loop.simps [of h q])
  also have "\<dots> = Some (Inr (Enq_done h' (Some (queue_store q1 f))))"
    using room by (simp add: enqueue_loop.simps [of h' q1])
  finally show ?thesis
    using queue_frames_store [OF i room, of f] queue_inv_store [OF i room, of f] fr
    by (simp add: dns_frame_queue_enqueue_def)
qed

section \<open>Properties\<close>



text \<open>
  C24: on a full queue that drops the oldest frame, \<open>dns_frame_queue_enqueue\<close> returns after
  destroying exactly the oldest frame with the packets it owns, keeps the other frames in
  order and appends the new one.
\<close>

theorem enqueue_drops_oldest:
  assumes "queue_inv q" and "fq_on_full q = DNS_QUEUE_DROP_OLDEST" and "fq_length q = fq_capacity q"
    and "\<And>p. p \<in> set (fr_packets (hd (queue_frames q))) \<Longrightarrow> packet_ok h p"
    and "distinct (owned_all h (fr_packets (hd (queue_frames q))))"
  shows "\<exists>q'. dns_frame_queue_enqueue h (Some q) f = Some (Inr (Enq_done
      (\<lambda>x. if x \<in> set (owned_all h (fr_packets (hd (queue_frames q)))) then None else h x)
      (Some q'))) \<and>
    queue_frames q' = tl (queue_frames q) @ [f] \<and> queue_inv q'"
  using enqueue_drop_oldest_full [OF assms(1-3)] destroy_packets_owned [OF assms(4,5)]
  by (simp add: dns_packet_frame_destroy_def)

definition ex_full_queue :: dns_frame_queue where
  "ex_full_queue = queue_store (dns_frame_queue_create 1 DNS_QUEUE_DROP_OLDEST)
     ((dns_packet_frame_create 1 2)\<lparr>fr_packets := [3]\<rparr>)"

theorem enqueue_drops_oldest_witness:
  "\<exists>h' q'. dns_frame_queue_enqueue ex_heap2 (Some ex_full_queue) (dns_packet_frame_create 5 6)
      = Some (Inr (Enq_done h' (Some q'))) \<and> h' 3 = None \<and>
    queue_frames q' = [dns_packet_frame_create 5 6]"
proof -
  let ?f = "(dns_packet_frame_create 1 2)\<lparr>fr_packets := [3]\<rparr>"
    and ?q0 = "dns_frame_queue_create 1 DNS_QUEUE_DROP_OLDEST"
  have q0: "queue_inv ?q0" "fq_length ?q0 < fq_capacity ?q0"
    using queue_create_inv [of 1] by (simp_all add: dns_frame_queue_create_def)
  have fr: "queue_frames ex_full_queue = [?f]"
    using queue_frames_store [OF q0] by (simp add: ex_full_queue_def)
  have p: "ex_heap2 3 = Some (ex_packet 30 True)" "response (ex_packet 30 True) = None"
    by (simp_all add: ex_heap2_def ex_packet_def)
  have own: "owned_all ex_heap2 (fr_packets (hd (queue_frames ex_full_queue))) = [3]"
    using p by (simp add: fr owned_all_def owned_def)
  have 1: "queue_inv ex_full_queue"
    using queue_inv_store [OF q0] by (simp add: ex_full_queue_def)
  have 2: "fq_on_full ex_full_queue = DNS_QUEUE_DROP_OLDEST"
    "fq_length ex_full_queue = fq_capacity ex_full_queue"
    by (simp_all add: ex_full_queue_def dns_frame_queue_create_def)
  have 3: "packet_ok ex_heap2 x" if "x \<in> set (fr_packets (hd (queue_frames ex_full_queue)))" for x
    using that p by (simp add: fr packet_ok_def)
  have 4: "distinct (owned_all ex_heap2 (fr_packets (hd (queue_frames ex_full_queue))))"
    by (simp add: own)
  from enqueue_drops_oldest [OF 1 2 3 4, of "dns_packet_frame_create 5 6"] show ?thesis
    unfolding own by (auto simp: fr)
qed


end
