(* ===== verification/Dns_Config.thy ===== *)
theory Dns_Config
  imports Dns_Common
begin

text \<open>
  \<^verbatim>\<open>src/config.h\<close> and \<^verbatim>\<open>src/config.c\<close>: the configuration record, its defaults and the checks
  made when libucw's configuration system commits it. C strings are lists of their bytes
  without the final zero. The section description \<open>dns_config_section\<close> (names and types of
  the items) is data for libucw's parser; its lookup tables are here.
\<close>

section \<open>The configuration\<close>

record dns_config =
  max_frame_duration_sec :: rat
  max_frame_size :: int
  max_queue_len :: int
  report_period_sec :: int
  input_uri :: "u8 list"
  input_filter :: "u8 list"
  input_snaplen :: int
  input_promiscuous :: int
  input_real_time_grace_sec :: rat
  dump_path_fmt :: "u8 list"
  dump_period_sec :: int
  dump_compress_level :: int
  dump_compress_type :: int
  dump_rate_limit :: rat
  match_window_sec :: rat
  match_qname :: int
  output_type :: int
  output_path_fmt :: "u8 list"
  output_pipe_cmd :: "u8 list"
  output_period_sec :: int
  csv_separator :: "u8 list"
  csv_inline_header :: int
  csv_external_header_path_fmt :: "u8 list"
  csv_fields :: u32
  cbor_fields :: u32

definition DNS_OUTPUT_TYPE_CSV :: int where
  "DNS_OUTPUT_TYPE_CSV = 0"

definition DNS_OUTPUT_TYPE_CBOR :: int where
  "DNS_OUTPUT_TYPE_CBOR = 1"

definition dns_output_types :: "string list" where
  "dns_output_types = [''csv'', ''cbor'']"

definition dns_dump_compress_types :: "string list" where
  "dns_dump_compress_types = [''none'', ''gzip'', ''bz2'', ''lzo'', ''xz'']"

text \<open>The codes of libtrace that belong to the compression types, in the same order.\<close>

datatype trace_compresstype =
    TRACE_OPTION_COMPRESSTYPE_NONE | TRACE_OPTION_COMPRESSTYPE_ZLIB | TRACE_OPTION_COMPRESSTYPE_BZ2
  | TRACE_OPTION_COMPRESSTYPE_LZO | TRACE_OPTION_COMPRESSTYPE_LZMA

definition dns_dump_compress_types_num :: "trace_compresstype list" where
  "dns_dump_compress_types_num =
     [TRACE_OPTION_COMPRESSTYPE_NONE, TRACE_OPTION_COMPRESSTYPE_ZLIB, TRACE_OPTION_COMPRESSTYPE_BZ2,
      TRACE_OPTION_COMPRESSTYPE_LZO, TRACE_OPTION_COMPRESSTYPE_LZMA]"

text \<open>All fields: \<open>(1 << dns_of_LAST) - 1\<close>.\<close>

definition all_fields :: u32 where
  "all_fields = push_bit dns_of_LAST 1 - 1"

definition dns_collector_conf_init :: dns_config where
  "dns_collector_conf_init =
     \<lparr>max_frame_duration_sec = 1 / 2, max_frame_size = 262144, max_queue_len = 8, report_period_sec = 60,
      input_uri = [], input_filter = [], input_snaplen = -1, input_promiscuous = 1,
      input_real_time_grace_sec = 1 / 10,
      dump_path_fmt = [], dump_period_sec = 0, dump_compress_level = 4, dump_compress_type = 0,
      dump_rate_limit = 0,
      match_window_sec = 5, match_qname = 0,
      output_type = DNS_OUTPUT_TYPE_CSV, output_path_fmt = [], output_pipe_cmd = [], output_period_sec = 0,
      csv_separator = [44], csv_inline_header = 1, csv_external_header_path_fmt = [],
      csv_fields = all_fields, cbor_fields = all_fields\<rparr>"

text \<open>
  A byte of a C string read as a \<open>char\<close>, which is signed on the platforms the collector is
  built for; \<open>isalnum\<close> in the C locale, false for negative values.
\<close>

definition c_char :: "u8 \<Rightarrow> int" where
  "c_char b = sint b"

definition isalnum :: "int \<Rightarrow> bool" where
  "isalnum c \<longleftrightarrow> 48 \<le> c \<and> c \<le> 57 \<or> 65 \<le> c \<and> c \<le> 90 \<or> 97 \<le> c \<and> c \<le> 122"

text \<open>The bytes of the C literal \<open>".-#_\\\n/"\<close>.\<close>

definition bad_separators :: "u8 list" where
  "bad_separators = [46, 45, 35, 95, 92, 10, 47]"

text \<open>
  \<open>dns_collector_conf_commit\<close>: an error message (here without its quotation marks), or
  \<open>None\<close> for an accepted configuration.
\<close>

definition dns_collector_conf_commit :: "dns_config \<Rightarrow> string option" where
  "dns_collector_conf_commit conf =
     (if max_frame_duration_sec conf < 1 / 1000
      then Some ''max_frame_duration_sec too small, minimum 0.001 sec''
      else if max_queue_len conf < 1 then Some ''max_queue_len must be at least 1''
      else
        case (if output_type conf = DNS_OUTPUT_TYPE_CSV then
                if length (csv_separator conf) \<noteq> 1
                then Some ''csv_separator needs to be exactly one character''
                else if isalnum (c_char (csv_separator conf ! 0)) \<or>
                        csv_separator conf ! 0 \<in> set bad_separators \<or> c_char (csv_separator conf ! 0) > 0x7f
                then Some ''You shold use non-alphanumeric ASCII character for csv_separator, avoiding ...''
                else if csv_fields conf = 0 then Some ''csv_fields must have at least one field''
                else None
              else if output_type conf = DNS_OUTPUT_TYPE_CBOR then
                if cbor_fields conf = 0 then Some ''cbor_fields must have at least one field'' else None
              else Some ''only output types csv and cbor currently supported'') of
          Some e \<Rightarrow> Some e
        | None \<Rightarrow>
            if dump_compress_level conf < 0 \<or> dump_compress_level conf > 9
            then Some ''dump_compress_level must be 0..9'' else None)"

section \<open>What an accepted configuration guarantees\<close>

lemma conf_commit_NoneD:
  assumes "dns_collector_conf_commit conf = None"
  shows "1 / 1000 \<le> max_frame_duration_sec conf" and "1 \<le> max_queue_len conf"
    and "output_type conf = DNS_OUTPUT_TYPE_CSV \<or> output_type conf = DNS_OUTPUT_TYPE_CBOR"
    and "output_type conf = DNS_OUTPUT_TYPE_CSV \<Longrightarrow> length (csv_separator conf) = 1 \<and>
      \<not> isalnum (c_char (csv_separator conf ! 0)) \<and> csv_separator conf ! 0 \<notin> set bad_separators \<and>
      csv_fields conf \<noteq> 0"
    and "output_type conf = DNS_OUTPUT_TYPE_CBOR \<Longrightarrow> cbor_fields conf \<noteq> 0"
    and "0 \<le> dump_compress_level conf \<and> dump_compress_level conf \<le> 9"
  using assms unfolding dns_collector_conf_commit_def
  by (auto simp: DNS_OUTPUT_TYPE_CSV_def DNS_OUTPUT_TYPE_CBOR_def split: if_splits option.splits)

lemma fsec_to_us_time_mono:
  assumes "0 \<le> s" and "s \<le> t"
  shows "0 \<le> dns_fsec_to_us_time s" and "dns_fsec_to_us_time s \<le> dns_fsec_to_us_time t"
  using assms by (simp_all add: dns_fsec_to_us_time_def c_trunc_def floor_mono)

lemma conf_frame_duration:
  assumes "dns_collector_conf_commit conf = None"
  shows "1000 \<le> dns_fsec_to_us_time (max_frame_duration_sec conf)"
proof -
  have "dns_fsec_to_us_time (1 / 1000) = 1000" by (simp add: dns_fsec_to_us_time_def c_trunc_def)
  moreover have "dns_fsec_to_us_time (1 / 1000) \<le> dns_fsec_to_us_time (max_frame_duration_sec conf)"
    by (rule fsec_to_us_time_mono) (use conf_commit_NoneD(1) [OF assms] in simp_all)
  ultimately show ?thesis by simp
qed

section \<open>Properties\<close>




end
