(* ===== verification/Packet_Matcher.thy ===== *)
theory Packet_Matcher
  imports Packet_Hash Frame_Queue Dns_Config
begin

text \<open>
  \<^verbatim>\<open>src/worker_packet_matcher.h\<close> and \<^verbatim>\<open>src/worker_packet_matcher.c\<close>: the thread that pairs requests
  with responses. Every packet waits in \<open>packet_queue\<close> for \<open>matching_duration\<close>; unmatched
  requests are in the hash table meanwhile; a matched response leaves the stream and is
  owned by its request. Packets that have waited long enough go into the output frame,
  which is passed on when it is full or lasts \<open>frame_max_duration\<close>.

  The queues on both sides are blocking and deliver what was enqueued, in order (theory
  \<open>Frame_Queue\<close>), so the thread sees a list of frames \<open>pm_in\<close> and produces a list of frames
  \<open>pm_out\<close>; a dequeue after the last frame waits for ever. \<open>pm_heap\<close> holds the packets, which
  the queue, the hash table and the \<open>response\<close> pointers share. Times are integers: the sums
  of times and durations do not leave the 64-bit range for times between the years
  -200000 and 200000.
\<close>

section \<open>The matcher\<close>

definition WORKER_PACKET_MATCHER_MIN_HASH_SIZE :: nat where
  "WORKER_PACKET_MATCHER_MIN_HASH_SIZE = 1024"

record dns_worker_packet_matcher =
  pm_heap :: heap
  pm_in :: "dns_packet_frame list"
  pm_out :: "dns_packet_frame list option"
  pm_hash_table :: dns_packet_hash
  pm_packet_queue :: "pid list"
  pm_matching_duration :: int
  pm_frame_max_duration :: int
  pm_match_qname :: bool
  pm_frame_max_size :: int
  pm_inframe :: "dns_packet_frame option"
  pm_outframe :: "dns_packet_frame option"
  pm_current_time :: int

text \<open>
  \<open>dns_worker_packet_matcher_create\<close>. \<open>heap\<close> and \<open>in_frames\<close> are the packets and frames the
  input will deliver, \<open>out\<close> tells whether there is an output queue, \<open>random1\<close> and \<open>random2\<close>
  seed the hash table.
\<close>

definition dns_worker_packet_matcher_create ::
    "u64 \<Rightarrow> u64 \<Rightarrow> heap \<Rightarrow> dns_config \<Rightarrow> dns_packet_frame list \<Rightarrow> bool \<Rightarrow> dns_worker_packet_matcher res" where
  "dns_worker_packet_matcher_create random1 random2 h conf in_frames out =
     (let pm = \<lparr>pm_heap = h, pm_in = in_frames, pm_out = (if out then Some [] else None),
        pm_hash_table = dns_packet_hash_create random1 random2 WORKER_PACKET_MATCHER_MIN_HASH_SIZE 0,
        pm_packet_queue = [],
        pm_matching_duration = dns_fsec_to_us_time (match_window_sec conf),
        pm_frame_max_duration = dns_fsec_to_us_time (max_frame_duration_sec conf),
        pm_match_qname = (match_qname conf \<noteq> 0), pm_frame_max_size = max_frame_size conf,
        pm_inframe = None, pm_outframe = None, pm_current_time = DNS_NO_TIME\<rparr>
      in bindr (assertr (pm_matching_duration pm > 0) ''pm->matching_duration > 0'') (\<lambda>_. Inr pm))"

text \<open>\<open>dns_frame_queue_enqueue(pm->out, f)\<close>: without a queue the frame is destroyed.\<close>

definition pm_enqueue ::
    "dns_worker_packet_matcher \<Rightarrow> dns_packet_frame \<Rightarrow> dns_worker_packet_matcher run" where
  "pm_enqueue pm f =
     (case pm_out pm of
        None \<Rightarrow> bindo (dns_packet_frame_destroy (pm_heap pm) f) (\<lambda>h. Some (Inr (pm\<lparr>pm_heap := h\<rparr>)))
      | Some fs \<Rightarrow> Some (Inr (pm\<lparr>pm_out := Some (fs @ [f])\<rparr>)))"

definition dns_worker_packet_matcher_output_frame ::
    "dns_worker_packet_matcher \<Rightarrow> dns_worker_packet_matcher run" where
  "dns_worker_packet_matcher_output_frame pm =
     (case pm_outframe pm of
        None \<Rightarrow> Some (Inl (Bad_pointer ''pm->outframe''))
      | Some f \<Rightarrow>
          let new_frame = dns_packet_frame_create (time_end f) (time_end f) in
          bindo (pm_enqueue pm f) (\<lambda>pm. Some (Inr (pm\<lparr>pm_outframe := Some new_frame\<rparr>))))"

text \<open>The packet at the head of the queue, if any.\<close>

definition queue_head :: "dns_worker_packet_matcher \<Rightarrow> (pid \<times> dns_packet) option res" where
  "queue_head pm =
     (case pm_packet_queue pm of
        [] \<Rightarrow> Inr None
      | p # _ \<Rightarrow> bindr (deref (pm_heap pm) p) (\<lambda>pkt. Inr (Some (p, pkt))))"

text \<open>
  The branch of the loop that outputs the packet at the head of the queue: it leaves the
  queue, and the hash table if it is still there, and goes into the output frame, a new
  one if the current frame would become too large. \<open>size_t\<close> is compared with the \<open>int\<close>
  \<open>frame_max_size\<close> as \<open>size_t\<close>.
\<close>

definition output_packet ::
    "dns_worker_packet_matcher \<Rightarrow> dns_packet_frame \<Rightarrow> pid \<Rightarrow> dns_packet \<Rightarrow> int \<Rightarrow>
     dns_worker_packet_matcher run" where
  "output_packet pm f p pkt ev_time =
     bindo (if fr_size f + memory_size pkt > word_of_int (pm_frame_max_size pm)
            then dns_worker_packet_matcher_output_frame pm else Some (Inr pm)) (\<lambda>pm.
     let pm = pm\<lparr>pm_packet_queue := remove1 p (pm_packet_queue pm)\<rparr> in
     bindo (if DNS_PACKET_IS_REQUEST pkt \<and> response pkt = None
            then Some (bindr (dns_packet_hash_remove_packet (pm_heap pm) (pm_hash_table pm) p)
                         (\<lambda>h. Inr (pm\<lparr>pm_hash_table := h\<rparr>)))
            else Some (Inr pm)) (\<lambda>pm.
     case pm_outframe pm of
       None \<Rightarrow> Some (Inl (Bad_pointer ''pm->outframe''))
     | Some f \<Rightarrow> Some (bindr (dns_packet_frame_append_packet (pm_heap pm) f p) (\<lambda>f'.
         Inr (pm\<lparr>pm_outframe := Some f', pm_current_time := ev_time\<rparr>)))))"

text \<open>The body of the loop of \<open>dns_worker_packet_matcher_advance_time_to\<close>.\<close>

definition advance_step ::
    "dns_worker_packet_matcher \<Rightarrow> int \<Rightarrow> dns_worker_packet_matcher run" where
  "advance_step pm time =
     bindo (Some (queue_head pm)) (\<lambda>pkt.
     case pm_outframe pm of
       None \<Rightarrow> Some (Inl (Bad_pointer ''pm->outframe''))
     | Some f \<Rightarrow>
         let frame_time = time_start f + pm_frame_max_duration pm + pm_matching_duration pm;
             ev_time = (case pkt of
                          None \<Rightarrow> frame_time
                        | Some (p, pk) \<Rightarrow> min frame_time (ts pk + pm_matching_duration pm)) in
         if ev_time > time then Some (Inr (pm\<lparr>pm_current_time := time\<rparr>))
         else if ev_time = frame_time then
           bindo (Some (assertr (time_end f \<le> ev_time - pm_matching_duration pm)
                    ''pm->outframe->time_end <= ev_time - pm->matching_duration'')) (\<lambda>_.
             dns_worker_packet_matcher_output_frame
               (pm\<lparr>pm_outframe := Some (f\<lparr>time_end := ev_time - pm_matching_duration pm\<rparr>),
                   pm_current_time := ev_time\<rparr>))
         else
           (case pkt of
              None \<Rightarrow> Some (Inl (Bad_pointer ''pkt''))
            | Some (p, pk) \<Rightarrow> output_packet pm f p pk ev_time))"

partial_function (option) advance_loop ::
    "dns_worker_packet_matcher \<Rightarrow> int \<Rightarrow> dns_worker_packet_matcher run" where
  "advance_loop pm time =
     (if pm_current_time pm < time
      then bindo (advance_step pm time) (\<lambda>pm. advance_loop pm time)
      else Some (Inr pm))"

definition dns_worker_packet_matcher_advance_time_to ::
    "dns_worker_packet_matcher \<Rightarrow> int \<Rightarrow> dns_worker_packet_matcher run" where
  "dns_worker_packet_matcher_advance_time_to pm time =
     bindo (Some (assertr (time \<noteq> DNS_NO_TIME \<and> pm_current_time pm \<noteq> DNS_NO_TIME)
              ''pm && time != DNS_NO_TIME && pm->current_time != DNS_NO_TIME'')) (\<lambda>_.
       if time < pm_current_time pm - 1000 then Some (Inr pm) else advance_loop pm time)"

text \<open>
  The inner loop of \<open>dns_worker_packet_matcher_next_packet\<close>: dequeues frames until one is
  loaded (\<open>True\<close>) or the final frame is seen (\<open>False\<close>).
\<close>

partial_function (option) load_frame ::
    "dns_worker_packet_matcher \<Rightarrow> (bool \<times> dns_worker_packet_matcher) run" where
  "load_frame pm =
     (if pm_inframe pm \<noteq> None then Some (Inr (True, pm))
      else case pm_in pm of
        [] \<Rightarrow> Some (Inl Blocked)
      | f # fs \<Rightarrow>
          let pm = pm\<lparr>pm_in := fs\<rparr> in
          if frame_type f = 1 then
            bindo (dns_packet_frame_destroy (pm_heap pm) f) (\<lambda>h. Some (Inr (False, pm\<lparr>pm_heap := h\<rparr>)))
          else if fr_count f = 0 \<and> time_start f = DNS_NO_TIME then
            bindo (dns_packet_frame_destroy (pm_heap pm) f) (\<lambda>h. load_frame (pm\<lparr>pm_heap := h\<rparr>))
          else
            bindo (Some (assertr (time_start f \<noteq> DNS_NO_TIME) ''pm->inframe->time_start != DNS_NO_TIME'')) (\<lambda>_.
              let pm = pm\<lparr>pm_inframe := Some f\<rparr>;
                  pm = (if pm_outframe pm = None
                        then pm\<lparr>pm_outframe := Some (dns_packet_frame_create (time_start f) (time_start f)),
                                pm_current_time := time_start f\<rparr>
                        else pm) in
              bindo (dns_worker_packet_matcher_advance_time_to pm (time_start f)) load_frame))"

text \<open>\<open>dns_worker_packet_matcher_next_packet\<close>: the next packet, or \<open>None\<close> after the final frame.\<close>

partial_function (option) dns_worker_packet_matcher_next_packet ::
    "dns_worker_packet_matcher \<Rightarrow> (pid option \<times> dns_worker_packet_matcher) run" where
  "dns_worker_packet_matcher_next_packet pm =
     bindo (load_frame pm) (\<lambda>loaded.
       if \<not> fst loaded then Some (Inr (None, snd loaded))
       else case pm_inframe (snd loaded) of
         None \<Rightarrow> Some (Inl (Bad_pointer ''pm->inframe''))
       | Some f \<Rightarrow>
           (case fr_packets f of
              [] \<Rightarrow>
                bindo (dns_worker_packet_matcher_advance_time_to (snd loaded) (time_end f)) (\<lambda>pm.
                bindo (dns_packet_frame_destroy (pm_heap pm) f) (\<lambda>h.
                  dns_worker_packet_matcher_next_packet (pm\<lparr>pm_heap := h, pm_inframe := None\<rparr>)))
            | p # ps \<Rightarrow>
                bindo (Some (deref (pm_heap (snd loaded)) p)) (\<lambda>pkt.
                bindo (dns_worker_packet_matcher_advance_time_to
                         ((snd loaded)\<lparr>pm_inframe := Some (f\<lparr>fr_packets := ps\<rparr>)\<rparr>) (ts pkt)) (\<lambda>pm.
                  Some (Inr (Some p, pm))))))"

text \<open>The body of the loop of \<open>dns_worker_packet_matcher_main\<close>.\<close>

definition process_packet ::
    "(u8 list \<Rightarrow> u8 list \<Rightarrow> bool) \<Rightarrow> dns_worker_packet_matcher \<Rightarrow> pid \<Rightarrow> dns_worker_packet_matcher res" where
  "process_packet dname_eq pm p =
     bindr (deref (pm_heap pm) p) (\<lambda>pkt.
       if DNS_PACKET_IS_REQUEST pkt then
         bindr (dns_packet_hash_insert_packet (pm_heap pm) (pm_hash_table pm) p) (\<lambda>h.
           Inr (pm\<lparr>pm_hash_table := h, pm_packet_queue := pm_packet_queue pm @ [p]\<rparr>))
       else
         bindr (dns_packet_hash_get_match dname_eq (pm_heap pm) (pm_hash_table pm) p (pm_match_qname pm))
           (\<lambda>(req, h). case req of
              Some q \<Rightarrow> bindr (deref (pm_heap pm) q) (\<lambda>rq.
                Inr (pm\<lparr>pm_hash_table := h, pm_heap := (pm_heap pm)(q \<mapsto> rq\<lparr>response := Some p\<rparr>)\<rparr>))
            | None \<Rightarrow> Inr (pm\<lparr>pm_hash_table := h, pm_packet_queue := pm_packet_queue pm @ [p]\<rparr>)))"

partial_function (option) matcher_loop ::
    "(u8 list \<Rightarrow> u8 list \<Rightarrow> bool) \<Rightarrow> dns_worker_packet_matcher \<Rightarrow> dns_worker_packet_matcher run" where
  "matcher_loop dname_eq pm =
     bindo (dns_worker_packet_matcher_next_packet pm) (\<lambda>r.
       case fst r of
         None \<Rightarrow> Some (Inr (snd r))
       | Some p \<Rightarrow> bindo (Some (process_packet dname_eq (snd r) p)) (\<lambda>pm. matcher_loop dname_eq pm))"

text \<open>What \<open>dns_worker_packet_matcher_main\<close> does after the last packet.\<close>

definition matcher_finish :: "dns_worker_packet_matcher \<Rightarrow> dns_worker_packet_matcher run" where
  "matcher_finish pm =
     bindo (if pm_current_time pm \<noteq> DNS_NO_TIME
            then dns_worker_packet_matcher_advance_time_to pm
                   (pm_current_time pm + pm_matching_duration pm + 1)
            else Some (Inr pm)) (\<lambda>pm.
     bindo (case pm_outframe pm of
              None \<Rightarrow> Some (Inr pm)
            | Some f \<Rightarrow> bindo (pm_enqueue pm f) (\<lambda>pm. Some (Inr (pm\<lparr>pm_outframe := None\<rparr>)))) (\<lambda>pm.
     pm_enqueue pm (dns_packet_frame_create_final (pm_current_time pm))))"

definition dns_worker_packet_matcher_main ::
    "(u8 list \<Rightarrow> u8 list \<Rightarrow> bool) \<Rightarrow> dns_worker_packet_matcher \<Rightarrow> dns_worker_packet_matcher run" where
  "dns_worker_packet_matcher_main dname_eq pm = bindo (matcher_loop dname_eq pm) matcher_finish"

section \<open>Invariant\<close>

text \<open>
  A packet of the input: allocated, well formed, with a time. The requests in a list of
  packets that have no response yet.
\<close>

definition is_packet :: "heap \<Rightarrow> pid \<Rightarrow> bool" where
  "is_packet hp p \<longleftrightarrow> (case hp p of None \<Rightarrow> False | Some pkt \<Rightarrow> wf_packet pkt \<and> DNS_NO_TIME < ts pkt)"

definition unmatched :: "heap \<Rightarrow> pid list \<Rightarrow> pid set" where
  "unmatched hp ps = {p \<in> set ps. is_request hp p \<and> response (the (hp p)) = None}"

text \<open>
  A frame for the output: it lasts at most \<open>dur\<close>, it is not larger than \<open>max_size\<close> unless it
  holds a single packet, and its count and size are those of its packets.
\<close>

definition frame_fine :: "heap \<Rightarrow> int \<Rightarrow> int \<Rightarrow> dns_packet_frame \<Rightarrow> bool" where
  "frame_fine hp dur max_size f \<longleftrightarrow> DNS_NO_TIME < time_start f \<and> time_start f \<le> time_end f \<and>
     time_end f \<le> time_start f + dur \<and> frame_type f = 0 \<and> wf_frame hp f \<and>
     (fr_size f \<le> word_of_int max_size \<or> length (fr_packets f) \<le> 1)"

text \<open>Frames that follow each other without a gap, the last one ending at the given time.\<close>

fun contiguous :: "dns_packet_frame list \<Rightarrow> int \<Rightarrow> bool" where
  "contiguous [] t = True"
| "contiguous (f # fs) t \<longleftrightarrow>
     time_end f = (case fs of [] \<Rightarrow> t | g # _ \<Rightarrow> time_start g) \<and> contiguous fs t"

definition out_ok :: "dns_worker_packet_matcher \<Rightarrow> bool" where
  "out_ok pm \<longleftrightarrow> (case (pm_out pm, pm_outframe pm) of
      (Some fs, Some f) \<Rightarrow> contiguous fs (time_start f) \<and>
        (\<forall>g \<in> set (f # fs). frame_fine (pm_heap pm) (pm_frame_max_duration pm) (pm_frame_max_size pm) g)
    | _ \<Rightarrow> False)"

definition table_matches :: "dns_worker_packet_matcher \<Rightarrow> bool" where
  "table_matches pm \<longleftrightarrow> hash_inv (pm_heap pm) (pm_hash_table pm) \<and>
     set (hash_contents (pm_hash_table pm)) = unmatched (pm_heap pm) (pm_packet_queue pm)"

definition queue_ok :: "dns_worker_packet_matcher \<Rightarrow> bool" where
  "queue_ok pm \<longleftrightarrow> distinct (pm_packet_queue pm) \<and> (\<forall>p \<in> set (pm_packet_queue pm). is_packet (pm_heap pm) p)"

definition pm_ok :: "dns_worker_packet_matcher \<Rightarrow> bool" where
  "pm_ok pm \<longleftrightarrow> 0 < pm_matching_duration pm \<and> 0 < pm_frame_max_duration pm \<and>
     out_ok pm \<and> table_matches pm \<and> queue_ok pm"

text \<open>The packets behind the matcher's input, in the order in which they leave.\<close>

definition stream :: "dns_worker_packet_matcher \<Rightarrow> pid list" where
  "stream pm = concat (map fr_packets (case pm_out pm of None \<Rightarrow> [] | Some fs \<Rightarrow> fs)) @
     (case pm_outframe pm of None \<Rightarrow> [] | Some f \<Rightarrow> fr_packets f) @ pm_packet_queue pm"

text \<open>What advancing the time leaves alone.\<close>

definition kept :: "dns_worker_packet_matcher \<Rightarrow> dns_worker_packet_matcher \<Rightarrow> bool" where
  "kept pm pm' \<longleftrightarrow> pm_heap pm' = pm_heap pm \<and> pm_in pm' = pm_in pm \<and> pm_inframe pm' = pm_inframe pm \<and>
     pm_matching_duration pm' = pm_matching_duration pm \<and>
     pm_frame_max_duration pm' = pm_frame_max_duration pm \<and>
     pm_match_qname pm' = pm_match_qname pm \<and> pm_frame_max_size pm' = pm_frame_max_size pm \<and>
     stream pm' = stream pm \<and> set (pm_packet_queue pm') \<subseteq> set (pm_packet_queue pm)"

lemma kept_refl [simp]: "kept pm pm"
  by (simp add: kept_def)

lemma kept_trans: "kept pm pm' \<Longrightarrow> kept pm' pm'' \<Longrightarrow> kept pm pm''"
  by (auto simp: kept_def)

lemma contiguous_snoc: "contiguous (fs @ [f]) t \<longleftrightarrow> contiguous fs (time_start f) \<and> time_end f = t"
  by (induction fs) (auto split: list.splits)

lemma out_okE:
  assumes "out_ok pm"
  obtains fs f where "pm_out pm = Some fs" and "pm_outframe pm = Some f"
    and "contiguous fs (time_start f)"
    and "\<And>g. g \<in> set fs \<Longrightarrow> frame_fine (pm_heap pm) (pm_frame_max_duration pm) (pm_frame_max_size pm) g"
    and "frame_fine (pm_heap pm) (pm_frame_max_duration pm) (pm_frame_max_size pm) f"
  using assms by (auto simp: out_ok_def split: option.splits)

lemma is_packetE:
  assumes "is_packet hp p"
  obtains pkt where "hp p = Some pkt" and "wf_packet pkt" and "DNS_NO_TIME < ts pkt"
  using assms by (auto simp: is_packet_def split: option.splits)

section \<open>Advancing the time\<close>

text \<open>Passing the output frame on.\<close>

definition frame_passed :: "dns_worker_packet_matcher \<Rightarrow> dns_packet_frame list \<Rightarrow> dns_packet_frame \<Rightarrow>
    dns_worker_packet_matcher" where
  "frame_passed pm fs f = pm\<lparr>pm_out := Some (fs @ [f]),
     pm_outframe := Some (dns_packet_frame_create (time_end f) (time_end f))\<rparr>"

lemma frame_passed_simps [simp]:
  "pm_heap (frame_passed pm fs f) = pm_heap pm" "pm_in (frame_passed pm fs f) = pm_in pm"
  "pm_out (frame_passed pm fs f) = Some (fs @ [f])" "pm_hash_table (frame_passed pm fs f) = pm_hash_table pm"
  "pm_packet_queue (frame_passed pm fs f) = pm_packet_queue pm"
  "pm_matching_duration (frame_passed pm fs f) = pm_matching_duration pm"
  "pm_frame_max_duration (frame_passed pm fs f) = pm_frame_max_duration pm"
  "pm_match_qname (frame_passed pm fs f) = pm_match_qname pm"
  "pm_frame_max_size (frame_passed pm fs f) = pm_frame_max_size pm"
  "pm_inframe (frame_passed pm fs f) = pm_inframe pm"
  "pm_outframe (frame_passed pm fs f) = Some (dns_packet_frame_create (time_end f) (time_end f))"
  "pm_current_time (frame_passed pm fs f) = pm_current_time pm"
  by (simp_all add: frame_passed_def)

lemma output_frame_eq:
  assumes "pm_out pm = Some fs" and "pm_outframe pm = Some f"
  shows "dns_worker_packet_matcher_output_frame pm = Some (Inr (frame_passed pm fs f))"
  using assms by (simp add: dns_worker_packet_matcher_output_frame_def pm_enqueue_def frame_passed_def)

lemma wf_frame_time_end [simp]: "wf_frame hp (f\<lparr>time_end := t\<rparr>) = wf_frame hp f"
  by (simp add: wf_frame_def)

lemma frame_fine_create: "DNS_NO_TIME < t \<Longrightarrow> 0 < dur \<Longrightarrow> frame_fine hp dur sz (dns_packet_frame_create t t)"
  by (simp add: frame_fine_def)

lemma out_ok_passed:
  assumes "pm_out pm = Some fs" and "pm_outframe pm = Some f" and "out_ok pm" and "0 < pm_frame_max_duration pm"
  shows "out_ok (frame_passed pm fs f)" and "stream (frame_passed pm fs f) = stream pm"
proof -
  have ok: "contiguous fs (time_start f)"
    "\<And>g. g \<in> set (f # fs) \<Longrightarrow> frame_fine (pm_heap pm) (pm_frame_max_duration pm) (pm_frame_max_size pm) g"
    using assms(1-3) by (auto simp: out_ok_def)
  have "DNS_NO_TIME < time_end f" using ok(2) [of f] by (simp add: frame_fine_def)
  then show "out_ok (frame_passed pm fs f)"
    using ok assms(4) by (auto simp: out_ok_def contiguous_snoc intro: frame_fine_create)
  show "stream (frame_passed pm fs f) = stream pm" using assms(1,2) by (simp add: stream_def)
qed

lemma kept_passed:
  assumes "pm_out pm = Some fs" and "pm_outframe pm = Some f"
  shows "kept pm (frame_passed pm fs f)"
  using assms by (simp add: kept_def stream_def)

lemma unmatched_Cons:
  assumes "p \<notin> set q"
  shows "unmatched hp q = unmatched hp (p # q) - {p}"
  using assms by (auto simp: unmatched_def)

lemma is_request_iff:
  "hp p = Some pkt \<Longrightarrow> is_request hp p \<longleftrightarrow> wf_packet pkt \<and> DNS_PACKET_IS_REQUEST pkt"
  "hp p = Some pkt \<Longrightarrow> is_response hp p \<longleftrightarrow> wf_packet pkt \<and> DNS_PACKET_IS_RESPONSE pkt"
  by (simp_all add: is_request_def is_response_def)

text \<open>The packet that leaves is taken out of the hash table if it is an unmatched request.\<close>

lemma leave_table:
  assumes "table_matches pm" and "queue_ok pm" and "pm_packet_queue pm = p # q" and "pm_heap pm p = Some pkt"
  obtains h' where "(if DNS_PACKET_IS_REQUEST pkt \<and> response pkt = None
        then bindr (dns_packet_hash_remove_packet (pm_heap pm) (pm_hash_table pm) p)
               (\<lambda>h. Inr (pm'\<lparr>pm_hash_table := h\<rparr>))
        else Inr (pm'\<lparr>pm_hash_table := pm_hash_table pm\<rparr>)) = Inr (pm'\<lparr>pm_hash_table := h'\<rparr>)"
    and "hash_inv (pm_heap pm) h'" and "set (hash_contents h') = unmatched (pm_heap pm) q"
proof -
  have inv: "hash_inv (pm_heap pm) (pm_hash_table pm)"
    and mem: "set (hash_contents (pm_hash_table pm)) = unmatched (pm_heap pm) (p # q)"
    using assms(1,3) by (simp_all add: table_matches_def)
  have pq: "p \<notin> set q" and wf: "wf_packet pkt"
    using assms(2-4) by (auto simp: queue_ok_def is_packet_def)
  show thesis
  proof (cases "DNS_PACKET_IS_REQUEST pkt \<and> response pkt = None")
    case True
    then have "p \<in> rt.members (pm_heap pm) (pm_hash_table pm)"
      using assms(4) wf by (simp add: members_contents mem unmatched_def is_request_iff)
    with inv obtain h' where "dns_packet_hash_remove_packet (pm_heap pm) (pm_hash_table pm) p = Inr h'"
      "hash_inv (pm_heap pm) h'" "rt.members (pm_heap pm) h' = rt.members (pm_heap pm) (pm_hash_table pm) - {p}"
      by (rule rt.del_members)
    then show thesis
      using that True mem unmatched_Cons [OF pq, of "pm_heap pm"] by (simp add: members_contents)
  next
    case False
    then have "p \<notin> unmatched (pm_heap pm) (p # q)"
      using assms(4) by (auto simp: unmatched_def is_request_iff)
    then have "unmatched (pm_heap pm) (p # q) = unmatched (pm_heap pm) q"
      using unmatched_Cons [OF pq, of "pm_heap pm"] by simp
    then show thesis using that [of "pm_hash_table pm"] False inv mem by simp
  qed
qed

lemma frame_fine_with:
  assumes "frame_fine hp dur sz f" and "hp p = Some pkt" and "ts pkt \<le> time_start f + dur"
    and "fr_packets f = [] \<or> fr_size f + memory_size pkt \<le> word_of_int sz"
  shows "frame_fine hp dur sz (frame_with f p pkt)"
proof -
  have "wf_frame hp (frame_with f p pkt)"
    using wf_frame_append [of hp f p] append_packet_Some [of hp p pkt f] assms(1,2)
    by (simp add: frame_fine_def)
  then show ?thesis using assms by (auto simp: frame_fine_def)
qed

text \<open>The frame the packet goes into: the current one, or a new one if that is too full.\<close>

lemma make_room:
  assumes ok: "out_ok pm" "0 < pm_frame_max_duration pm"
    and out: "pm_out pm = Some fs" "pm_outframe pm = Some f"
    and ts: "ts pkt \<le> time_start f + pm_frame_max_duration pm"
  obtains pm1 fs1 f1 where
    "(if fr_size f + memory_size pkt > word_of_int (pm_frame_max_size pm)
      then dns_worker_packet_matcher_output_frame pm else Some (Inr pm)) = Some (Inr pm1)"
    and "pm_out pm1 = Some fs1" and "pm_outframe pm1 = Some f1" and "out_ok pm1" and "kept pm pm1"
    and "pm_hash_table pm1 = pm_hash_table pm" and "pm_packet_queue pm1 = pm_packet_queue pm"
    and "time_start f \<le> time_start f1" and "ts pkt \<le> time_start f1 + pm_frame_max_duration pm"
    and "fr_packets f1 = [] \<or> fr_size f1 + memory_size pkt \<le> word_of_int (pm_frame_max_size pm)"
proof (cases "fr_size f + memory_size pkt > word_of_int (pm_frame_max_size pm)")
  case True
  have "time_start f \<le> time_end f" using ok(1) out by (simp add: out_ok_def frame_fine_def)
  then show thesis
    using True output_frame_eq [OF out] out_ok_passed(1) [OF out ok] kept_passed [OF out] ts
    by (intro that [of "frame_passed pm fs f" "fs @ [f]" "dns_packet_frame_create (time_end f) (time_end f)"]) simp_all
next
  case False
  then show thesis using ok out ts by (intro that [of pm fs f]) auto
qed

lemma if_SomeI: "(if c then a else b) = z \<Longrightarrow> (if c then Some a else Some b) = Some z"
  by (simp split: if_splits)

lemma output_packet_ok:
  assumes ok: "pm_ok pm" and out: "pm_out pm = Some fs" "pm_outframe pm = Some f"
    and q: "pm_packet_queue pm = p # q" and p: "pm_heap pm p = Some pkt"
    and ts: "ts pkt \<le> time_start f + pm_frame_max_duration pm"
  obtains pm' f' where "output_packet pm f p pkt ev_time = Some (Inr pm')" and "pm_ok pm'" and "kept pm pm'"
    and "pm_packet_queue pm' = q" and "pm_current_time pm' = ev_time"
    and "pm_outframe pm' = Some f'" and "time_start f \<le> time_start f'"
proof -
  have ok': "out_ok pm" "0 < pm_frame_max_duration pm" "table_matches pm" "queue_ok pm"
    "0 < pm_matching_duration pm"
    using ok by (simp_all add: pm_ok_def)
  from ok'(1,2) out ts obtain pm1 fs1 f1 where
    room: "(if fr_size f + memory_size pkt > word_of_int (pm_frame_max_size pm)
      then dns_worker_packet_matcher_output_frame pm else Some (Inr pm)) = Some (Inr pm1)"
    and out1: "pm_out pm1 = Some fs1" "pm_outframe pm1 = Some f1" "out_ok pm1"
    and k1: "kept pm pm1" "pm_hash_table pm1 = pm_hash_table pm" "pm_packet_queue pm1 = pm_packet_queue pm"
    and f1: "time_start f \<le> time_start f1" "ts pkt \<le> time_start f1 + pm_frame_max_duration pm"
      "fr_packets f1 = [] \<or> fr_size f1 + memory_size pkt \<le> word_of_int (pm_frame_max_size pm)"
    by (rule make_room)
  have same: "pm_heap pm1 = pm_heap pm" "pm_frame_max_duration pm1 = pm_frame_max_duration pm"
    "pm_frame_max_size pm1 = pm_frame_max_size pm" "pm_matching_duration pm1 = pm_matching_duration pm"
    using k1(1) by (simp_all add: kept_def)
  define pm2 where "pm2 = pm1\<lparr>pm_packet_queue := q\<rparr>"
  obtain h' where rem: "(if DNS_PACKET_IS_REQUEST pkt \<and> response pkt = None
        then bindr (dns_packet_hash_remove_packet (pm_heap pm) (pm_hash_table pm) p)
               (\<lambda>h. Inr (pm2\<lparr>pm_hash_table := h\<rparr>))
        else Inr (pm2\<lparr>pm_hash_table := pm_hash_table pm\<rparr>)) = Inr (pm2\<lparr>pm_hash_table := h'\<rparr>)"
    and h': "hash_inv (pm_heap pm) h'" "set (hash_contents h') = unmatched (pm_heap pm) q"
    using leave_table [OF ok'(3,4) q p] by blast
  define pm' where "pm' = pm2\<lparr>pm_hash_table := h', pm_outframe := Some (frame_with f1 p pkt),
    pm_current_time := ev_time\<rparr>"
  have pm2_same: "pm2\<lparr>pm_hash_table := pm_hash_table pm\<rparr> = pm2" "pm_heap pm2 = pm_heap pm"
    "pm_hash_table pm2 = pm_hash_table pm"
    using k1(2) same(1) by (simp_all add: pm2_def)
  have left: "(if DNS_PACKET_IS_REQUEST pkt \<and> response pkt = None
        then Some (bindr (dns_packet_hash_remove_packet (pm_heap pm2) (pm_hash_table pm2) p)
               (\<lambda>h. Inr (pm2\<lparr>pm_hash_table := h\<rparr>)))
        else Some (Inr pm2)) = Some (Inr (pm2\<lparr>pm_hash_table := h'\<rparr>))"
    using rem unfolding pm2_same by (rule if_SomeI)
  have pm2_eq: "pm1\<lparr>pm_packet_queue := remove1 p (pm_packet_queue pm1)\<rparr> = pm2"
    using q k1(3) by (simp add: pm2_def)
  have run: "output_packet pm f p pkt ev_time = Some (Inr pm')"
    unfolding output_packet_def room bindo_simps Let_def pm2_eq left
    using p out1(2) same(1) by (simp add: pm'_def pm2_def append_packet_Some)
  have fine: "frame_fine (pm_heap pm) (pm_frame_max_duration pm) (pm_frame_max_size pm) (frame_with f1 p pkt)"
    by (rule frame_fine_with) (use out1 same p f1 in \<open>simp_all add: out_ok_def\<close>)
  have "out_ok pm'" using out1 fine same by (simp add: out_ok_def pm'_def pm2_def)
  moreover have "table_matches pm'" using h' same(1) by (simp add: table_matches_def pm'_def pm2_def)
  moreover have "queue_ok pm'" using ok'(4) q same(1) by (simp add: queue_ok_def pm'_def pm2_def)
  ultimately have "pm_ok pm'" using ok'(2,5) same by (simp add: pm_ok_def pm'_def pm2_def)
  moreover have "stream pm' = stream pm1"
    using out1(1,2) k1(3) q by (simp add: stream_def pm'_def pm2_def)
  then have "kept pm pm'" using k1(1) q unfolding kept_def by (simp add: pm'_def pm2_def) auto
  ultimately show thesis
    using that [OF run, of "frame_with f1 p pkt"] f1(1) by (simp add: pm'_def pm2_def)
qed

text \<open>The loop ends: every round removes a packet, or starts a later frame, or is the last.\<close>

definition advance_measure :: "int \<Rightarrow> dns_worker_packet_matcher \<Rightarrow> nat" where
  "advance_measure time pm = length (pm_packet_queue pm) +
     (case pm_outframe pm of None \<Rightarrow> 0 | Some f \<Rightarrow> nat (time - time_start f))"

definition all_due :: "int \<Rightarrow> dns_worker_packet_matcher \<Rightarrow> bool" where
  "all_due time pm \<longleftrightarrow>
     (\<forall>p \<in> set (pm_packet_queue pm). ts (the (pm_heap pm p)) + pm_matching_duration pm < time)"

lemma queue_head_ok:
  assumes "queue_ok pm"
  shows "queue_head pm = Inr (case pm_packet_queue pm of [] \<Rightarrow> None | p # _ \<Rightarrow> Some (p, the (pm_heap pm p)))"
  using assms by (auto simp: queue_head_def queue_ok_def elim!: is_packetE split: list.splits)

lemma kept_time [simp]: "kept pm (pm\<lparr>pm_current_time := t\<rparr>)"
  by (simp add: kept_def stream_def)

lemma pm_ok_time [simp]: "pm_ok (pm\<lparr>pm_current_time := t\<rparr>) = pm_ok pm"
  by (simp add: pm_ok_def out_ok_def table_matches_def queue_ok_def cong: option.case_cong)

text \<open>The round that ends the frame because it lasts long enough.\<close>

lemma frame_round_ok:
  assumes ok: "pm_ok pm" and out: "pm_out pm = Some fs" "pm_outframe pm = Some f"
    and ev: "ev_time = time_start f + pm_frame_max_duration pm + pm_matching_duration pm"
  obtains pm' f' where "bindo (Some (assertr (time_end f \<le> ev_time - pm_matching_duration pm)
         ''pm->outframe->time_end <= ev_time - pm->matching_duration'')) (\<lambda>_.
       dns_worker_packet_matcher_output_frame
         (pm\<lparr>pm_outframe := Some (f\<lparr>time_end := ev_time - pm_matching_duration pm\<rparr>),
             pm_current_time := ev_time\<rparr>)) = Some (Inr pm')"
    and "pm_ok pm'" and "kept pm pm'" and "pm_packet_queue pm' = pm_packet_queue pm"
    and "pm_current_time pm' = ev_time" and "pm_outframe pm' = Some f'"
    and "time_start f' = time_start f + pm_frame_max_duration pm"
proof -
  have ok': "out_ok pm" "0 < pm_frame_max_duration pm" "table_matches pm" "queue_ok pm"
    "0 < pm_matching_duration pm"
    using ok by (simp_all add: pm_ok_def)
  define g where "g = f\<lparr>time_end := ev_time - pm_matching_duration pm\<rparr>"
  define pm1 where "pm1 = pm\<lparr>pm_outframe := Some g, pm_current_time := ev_time\<rparr>"
  have f: "time_end f \<le> time_start f + pm_frame_max_duration pm"
    using ok'(1) out by (simp add: out_ok_def frame_fine_def)
  have out1: "pm_out pm1 = Some fs" "pm_outframe pm1 = Some g" using out by (simp_all add: pm1_def)
  have "out_ok pm1"
    using ok'(1,2) out ev by (simp add: out_ok_def pm1_def g_def frame_fine_def)
  note passed = out_ok_passed [OF out1 this]
  let ?pm = "frame_passed pm1 fs g"
  have "pm_ok ?pm"
    using ok' passed by (simp add: pm_ok_def table_matches_def queue_ok_def pm1_def)
  moreover have "kept pm pm1" using out by (simp add: kept_def stream_def pm1_def g_def)
  then have "kept pm ?pm" using kept_passed [OF out1] kept_trans by blast
  moreover have "assertr (time_end f \<le> ev_time - pm_matching_duration pm) s = Inr ()" for s
    using f ev by simp
  ultimately show thesis
    using output_frame_eq [OF out1] ev
    by (intro that [of ?pm "dns_packet_frame_create (time_end g) (time_end g)"])
      (simp_all add: pm1_def g_def)
qed

lemma advance_step_ok:
  assumes ok: "pm_ok pm" and now: "pm_current_time pm < time"
  obtains pm' where "advance_step pm time = Some (Inr pm')" and "pm_ok pm'" and "kept pm pm'"
    and "pm_current_time pm' \<le> time"
    and "pm_current_time pm' = time \<or> advance_measure time pm' < advance_measure time pm"
    and "pm_current_time pm' = time \<Longrightarrow> all_due time pm \<Longrightarrow> pm_packet_queue pm' = []"
proof -
  have ok': "out_ok pm" "0 < pm_frame_max_duration pm" "queue_ok pm" "0 < pm_matching_duration pm"
    using ok by (simp_all add: pm_ok_def)
  from ok'(1) obtain fs f where out: "pm_out pm = Some fs" "pm_outframe pm = Some f"
    by (rule out_okE)
  define frame_time where
    "frame_time = time_start f + pm_frame_max_duration pm + pm_matching_duration pm"
  define head where "head = (case pm_packet_queue pm of [] \<Rightarrow> None | p # _ \<Rightarrow> Some (p, the (pm_heap pm p)))"
  define ev_time where "ev_time = (case head of None \<Rightarrow> frame_time
    | Some (p, pk) \<Rightarrow> min frame_time (ts pk + pm_matching_duration pm))"
  have step: "advance_step pm time =
      (if ev_time > time then Some (Inr (pm\<lparr>pm_current_time := time\<rparr>))
       else if ev_time = frame_time then
         bindo (Some (assertr (time_end f \<le> ev_time - pm_matching_duration pm)
                  ''pm->outframe->time_end <= ev_time - pm->matching_duration'')) (\<lambda>_.
           dns_worker_packet_matcher_output_frame
             (pm\<lparr>pm_outframe := Some (f\<lparr>time_end := ev_time - pm_matching_duration pm\<rparr>),
                 pm_current_time := ev_time\<rparr>))
       else (case head of
              None \<Rightarrow> Some (Inl (Bad_pointer ''pkt''))
            | Some (p, pk) \<Rightarrow> output_packet pm f p pk ev_time))"
    unfolding advance_step_def queue_head_ok [OF ok'(3)] bindo_simps out option.case Let_def
      head_def [symmetric] frame_time_def [symmetric] ev_time_def [symmetric] ..
  have due: "ev_time < time" if "all_due time pm" "pm_packet_queue pm \<noteq> []"
    using that by (auto simp: all_due_def ev_time_def head_def min_less_iff_disj neq_Nil_conv)
  consider (late) "ev_time > time" | (frame) "ev_time \<le> time" "ev_time = frame_time"
    | (packet) "ev_time \<le> time" "ev_time \<noteq> frame_time" by linarith
  then show thesis
  proof cases
    case late
    then show thesis using ok due by (intro that [of "pm\<lparr>pm_current_time := time\<rparr>"]) (auto simp: step)
  next
    case frame
    from ok out frame(2) [unfolded frame_time_def] obtain pm' f' where
      r: "bindo (Some (assertr (time_end f \<le> ev_time - pm_matching_duration pm)
         ''pm->outframe->time_end <= ev_time - pm->matching_duration'')) (\<lambda>_.
       dns_worker_packet_matcher_output_frame
         (pm\<lparr>pm_outframe := Some (f\<lparr>time_end := ev_time - pm_matching_duration pm\<rparr>),
             pm_current_time := ev_time\<rparr>)) = Some (Inr pm')"
      "pm_ok pm'" "kept pm pm'" "pm_packet_queue pm' = pm_packet_queue pm" "pm_current_time pm' = ev_time"
      "pm_outframe pm' = Some f'" "time_start f' = time_start f + pm_frame_max_duration pm"
      by (rule frame_round_ok)
    have "advance_step pm time = Some (Inr pm')" unfolding step using frame r(1) by simp
    moreover have "advance_measure time pm' < advance_measure time pm"
      using frame ok'(2,4) out(2) r(4,6,7) by (simp add: advance_measure_def frame_time_def)
    ultimately show thesis using that r frame(1) due by force
  next
    case packet
    then obtain p q where q: "pm_packet_queue pm = p # q" and head: "head = Some (p, the (pm_heap pm p))"
      by (cases "pm_packet_queue pm") (simp_all add: ev_time_def head_def)
    then obtain pkt where p: "pm_heap pm p = Some pkt"
      using ok'(3) by (auto simp: queue_ok_def elim: is_packetE)
    have ev: "ev_time = ts pkt + pm_matching_duration pm" "ts pkt \<le> time_start f + pm_frame_max_duration pm"
      using packet(2) head p by (auto simp: ev_time_def frame_time_def min_def split: if_splits)
    from ok out q p ev(2) obtain pm' f' where
      r: "output_packet pm f p pkt ev_time = Some (Inr pm')" "pm_ok pm'" "kept pm pm'"
        "pm_packet_queue pm' = q" "pm_current_time pm' = ev_time" "pm_outframe pm' = Some f'"
        "time_start f \<le> time_start f'"
      by (rule output_packet_ok)
    have "advance_step pm time = Some (Inr pm')" unfolding step using packet head p r(1) by simp
    moreover have "advance_measure time pm' < advance_measure time pm"
      using out(2) q r(4,6,7) by (simp add: advance_measure_def)
    ultimately show thesis using that r(2,3,5) packet(1) due q by force
  qed
qed

lemma kept_due: "kept pm pm' \<Longrightarrow> all_due time pm \<Longrightarrow> all_due time pm'"
  by (auto simp: kept_def all_due_def)

lemma advance_loop_ok:
  assumes "pm_ok pm"
  shows "\<exists>pm'. advance_loop pm time = Some (Inr pm') \<and> pm_ok pm' \<and> kept pm pm' \<and>
    pm_current_time pm' = max (pm_current_time pm) time \<and>
    (pm_current_time pm < time \<and> all_due time pm \<longrightarrow> pm_packet_queue pm' = [])"
  using assms
proof (induction "advance_measure time pm" arbitrary: pm rule: less_induct)
  case less
  show ?case
  proof (cases "pm_current_time pm < time")
    case True
    with less.prems obtain pm1 where step: "advance_step pm time = Some (Inr pm1)" "pm_ok pm1" "kept pm pm1"
      "pm_current_time pm1 \<le> time"
      and m: "pm_current_time pm1 = time \<or> advance_measure time pm1 < advance_measure time pm"
      and e: "pm_current_time pm1 = time \<Longrightarrow> all_due time pm \<Longrightarrow> pm_packet_queue pm1 = []"
      by (rule advance_step_ok) blast
    have unfold: "advance_loop pm time = advance_loop pm1 time"
      using True step(1) by (simp add: advance_loop.simps [of pm])
    show ?thesis
    proof (cases "pm_current_time pm1 = time")
      case now: True
      then have "advance_loop pm1 time = Some (Inr pm1)" by (simp add: advance_loop.simps)
      then show ?thesis using unfold step(2,3) now True e by simp
    next
      case False
      then obtain pm2 where "advance_loop pm1 time = Some (Inr pm2)" "pm_ok pm2" "kept pm1 pm2"
        "pm_current_time pm2 = max (pm_current_time pm1) time"
        "pm_current_time pm1 < time \<and> all_due time pm1 \<longrightarrow> pm_packet_queue pm2 = []"
        using less.hyps [of pm1] m step(2) by auto
      then show ?thesis
        using unfold step(3,4) True False kept_trans [OF step(3)] kept_due [OF step(3)] by auto
    qed
  next
    case False
    then have "advance_loop pm time = Some (Inr pm)" by (simp add: advance_loop.simps)
    then show ?thesis using False less.prems by auto
  qed
qed

lemma advance_time_to_ok:
  assumes "pm_ok pm" and "DNS_NO_TIME < time" and "DNS_NO_TIME < pm_current_time pm"
  obtains pm' where "dns_worker_packet_matcher_advance_time_to pm time = Some (Inr pm')"
    and "pm_ok pm'" and "kept pm pm'" and "pm_current_time pm' = max (pm_current_time pm) time"
    and "pm_current_time pm < time \<Longrightarrow> all_due time pm \<Longrightarrow> pm_packet_queue pm' = []"
proof (cases "time < pm_current_time pm - 1000")
  case True
  then show thesis
    using assms by (intro that [of pm]) (simp_all add: dns_worker_packet_matcher_advance_time_to_def)
next
  case False
  then have "dns_worker_packet_matcher_advance_time_to pm time = advance_loop pm time"
    using assms(2,3) by (simp add: dns_worker_packet_matcher_advance_time_to_def)
  then show thesis using advance_loop_ok [OF assms(1), of time] that by auto
qed

section \<open>Reading the input\<close>

text \<open>
  The frames the input sends: each has the count of its packets and, unless it is empty and
  was never given a time, times; the packets are new; the last frame is the final one.
\<close>

definition fresh :: "heap \<Rightarrow> pid \<Rightarrow> bool" where
  "fresh hp p \<longleftrightarrow> is_packet hp p \<and> response (the (hp p)) = None"

definition inframe_ok :: "heap \<Rightarrow> dns_packet_frame \<Rightarrow> bool" where
  "inframe_ok hp f \<longleftrightarrow> DNS_NO_TIME < time_end f \<and> (\<forall>p \<in> set (fr_packets f). fresh hp p)"

fun input_ok :: "heap \<Rightarrow> dns_packet_frame list \<Rightarrow> bool" where
  "input_ok hp [] = False"
| "input_ok hp (f # fs) =
     (if frame_type f = 1 then fr_packets f = [] \<and> fs = []
      else fr_count f = length (fr_packets f) \<and>
        (fr_packets f = [] \<and> time_start f = DNS_NO_TIME \<or> DNS_NO_TIME < time_start f \<and> inframe_ok hp f) \<and>
        input_ok hp fs)"

text \<open>The packets the matcher has still to read.\<close>

definition pending :: "dns_worker_packet_matcher \<Rightarrow> pid list" where
  "pending pm = (case pm_inframe pm of None \<Rightarrow> [] | Some f \<Rightarrow> fr_packets f) @ concat (map fr_packets (pm_in pm))"

definition shape_ok :: "dns_worker_packet_matcher \<Rightarrow> bool" where
  "shape_ok pm \<longleftrightarrow> input_ok (pm_heap pm) (pm_in pm) \<and>
     (case pm_inframe pm of None \<Rightarrow> True | Some f \<Rightarrow> inframe_ok (pm_heap pm) f)"

text \<open>The matcher before the first frame, and after it.\<close>

definition idle :: "dns_worker_packet_matcher \<Rightarrow> bool" where
  "idle pm \<longleftrightarrow> pm_out pm = Some [] \<and> pm_outframe pm = None \<and> pm_inframe pm = None \<and> pm_packet_queue pm = [] \<and>
     pm_current_time pm = DNS_NO_TIME \<and>
     0 < pm_matching_duration pm \<and> 0 < pm_frame_max_duration pm \<and> table_matches pm"

definition running :: "dns_worker_packet_matcher \<Rightarrow> bool" where
  "running pm \<longleftrightarrow> pm_ok pm \<and> DNS_NO_TIME < pm_current_time pm \<and>
     (\<forall>p \<in> set (pm_packet_queue pm). ts (the (pm_heap pm p)) \<le> pm_current_time pm)"

definition moved :: "dns_worker_packet_matcher \<Rightarrow> dns_worker_packet_matcher \<Rightarrow> bool" where
  "moved pm pm' \<longleftrightarrow> kept (pm\<lparr>pm_in := pm_in pm', pm_inframe := pm_inframe pm'\<rparr>) pm'"

lemma stream_in [simp]:
  "stream (pm\<lparr>pm_in := x\<rparr>) = stream pm" "stream (pm\<lparr>pm_inframe := y\<rparr>) = stream pm"
  by (simp_all add: stream_def)

lemma moved_iff:
  "moved pm pm' \<longleftrightarrow> pm_heap pm' = pm_heap pm \<and> pm_matching_duration pm' = pm_matching_duration pm \<and>
     pm_frame_max_duration pm' = pm_frame_max_duration pm \<and>
     pm_match_qname pm' = pm_match_qname pm \<and> pm_frame_max_size pm' = pm_frame_max_size pm \<and>
     stream pm' = stream pm \<and> set (pm_packet_queue pm') \<subseteq> set (pm_packet_queue pm)"
  by (auto simp: moved_def kept_def)

lemma kept_moved: "kept pm pm' \<Longrightarrow> moved pm pm'"
  by (simp add: moved_iff kept_def)

lemma moved_refl [simp]: "moved pm pm"
  by (simp add: moved_iff)

lemma moved_trans: "moved pm pm' \<Longrightarrow> moved pm' pm'' \<Longrightarrow> moved pm pm''"
  by (auto simp: moved_iff)

lemma pm_ok_in [simp]:
  "pm_ok (pm\<lparr>pm_in := x\<rparr>) = pm_ok pm" "pm_ok (pm\<lparr>pm_inframe := y\<rparr>) = pm_ok pm"
  by (simp_all add: pm_ok_def out_ok_def table_matches_def queue_ok_def cong: option.case_cong)

lemma running_in [simp]:
  "running (pm\<lparr>pm_in := x\<rparr>) = running pm" "running (pm\<lparr>pm_inframe := y\<rparr>) = running pm"
  by (simp_all add: running_def)

lemma running_advance:
  assumes "running pm" and "DNS_NO_TIME < time"
  obtains pm' where "dns_worker_packet_matcher_advance_time_to pm time = Some (Inr pm')"
    and "running pm'" and "kept pm pm'" and "time \<le> pm_current_time pm'"
proof -
  have r: "pm_ok pm" "DNS_NO_TIME < pm_current_time pm" using assms(1) by (simp_all add: running_def)
  from r(1) assms(2) r(2) show thesis
  proof (rule advance_time_to_ok)
    fix pm'
    assume "dns_worker_packet_matcher_advance_time_to pm time = Some (Inr pm')" "pm_ok pm'" "kept pm pm'"
      "pm_current_time pm' = max (pm_current_time pm) time"
    moreover have "running pm'"
      using calculation assms by (auto simp: running_def kept_def le_max_iff_disj)
    ultimately show thesis using that by simp
  qed
qed

lemma frame_destroy_empty:
  "fr_packets f = [] \<Longrightarrow> dns_packet_frame_destroy hp f = Some (Inr hp)"
  by (simp add: dns_packet_frame_destroy_def)

lemma input_ok_pending: "input_ok hp fs \<Longrightarrow> p \<in> set (concat (map fr_packets fs)) \<Longrightarrow> fresh hp p"
  by (induction hp fs rule: input_ok.induct) (auto simp: inframe_ok_def split: if_splits)

text \<open>The first frame starts the matcher.\<close>

definition started :: "dns_worker_packet_matcher \<Rightarrow> dns_packet_frame \<Rightarrow> dns_worker_packet_matcher" where
  "started pm f = pm\<lparr>pm_outframe := Some (dns_packet_frame_create (time_start f) (time_start f)),
     pm_current_time := time_start f\<rparr>"

lemma started_running:
  assumes "idle pm" and "DNS_NO_TIME < time_start f"
  shows "running (started pm f)" and "kept pm (started pm f)"
  using assms frame_fine_create [of "time_start f" "pm_frame_max_duration pm"]
  by (simp_all add: idle_def running_def pm_ok_def started_def out_ok_def table_matches_def queue_ok_def
      kept_def stream_def)

lemma idle_in [simp]: "idle (pm\<lparr>pm_in := x\<rparr>) = idle pm"
  by (simp add: idle_def table_matches_def)

lemma idle_or_running_outframe:
  "idle pm \<Longrightarrow> pm_outframe pm = None" "running pm \<Longrightarrow> pm_outframe pm \<noteq> None"
  by (auto simp: idle_def running_def pm_ok_def elim: out_okE)

lemma load_frame_loaded: "pm_inframe pm = Some f \<Longrightarrow> load_frame pm = Some (Inr (True, pm))"
  by (simp add: load_frame.simps)

lemma load_frame_ok:
  assumes "idle pm \<or> running pm" and "pm_inframe pm = None" and "pm_in pm = fs" and "input_ok (pm_heap pm) fs"
  shows "(\<exists>pm'. load_frame pm = Some (Inr (False, pm')) \<and> (idle pm' \<or> running pm') \<and> moved pm pm' \<and>
       pending pm = []) \<or>
     (\<exists>pm'. load_frame pm = Some (Inr (True, pm')) \<and> running pm' \<and> moved pm pm' \<and> shape_ok pm' \<and>
       pm_inframe pm' \<noteq> None \<and> pending pm' = pending pm \<and> length (pm_in pm') < length (pm_in pm))"
  using assms
proof (induction fs arbitrary: pm)
  case (Cons f fs)
  let ?pm = "pm\<lparr>pm_in := fs\<rparr>"
  note load = load_frame.simps [of pm]
  consider (final) "frame_type f = 1" "fr_packets f = []" "fs = []"
    | (skip) "frame_type f \<noteq> 1" "fr_packets f = []" "fr_count f = 0" "time_start f = DNS_NO_TIME"
        "input_ok (pm_heap pm) fs"
    | (frame) "frame_type f \<noteq> 1" "DNS_NO_TIME < time_start f" "inframe_ok (pm_heap pm) f"
        "input_ok (pm_heap pm) fs"
    using Cons.prems(4) by (auto split: if_splits)
  then show ?case
  proof cases
    case final
    have "load_frame pm = Some (Inr (False, ?pm))"
      using Cons.prems(2,3) final by (simp add: load frame_destroy_empty)
    moreover have "moved pm ?pm" by (simp add: moved_iff)
    moreover have "pending pm = []" using Cons.prems(2,3) final by (simp add: pending_def)
    ultimately show ?thesis using Cons.prems(1) final(3) by (intro disjI1 exI [of _ ?pm]) simp
  next
    case skip
    have "load_frame pm = load_frame ?pm"
      using Cons.prems(2,3) skip by (simp add: load frame_destroy_empty)
    moreover have "pending ?pm = pending pm" using Cons.prems(2,3) skip by (simp add: pending_def)
    moreover have "moved pm pm'" if "moved ?pm pm'" for pm' using that by (simp add: moved_iff)
    ultimately show ?thesis using Cons.IH [of ?pm] Cons.prems skip(5) by (auto simp: less_Suc_eq)
  next
    case frame
    let ?pm1 = "?pm\<lparr>pm_inframe := Some f\<rparr>"
    define pm2 where "pm2 = (if pm_outframe pm = None then started ?pm1 f else ?pm1)"
    have pm2: "running pm2" "kept ?pm1 pm2"
    proof -
      have "idle pm \<Longrightarrow> running (started ?pm f) \<and> kept ?pm (started ?pm f)"
        using started_running [of ?pm f] frame(2) by simp
      moreover have "started ?pm1 f = (started ?pm f)\<lparr>pm_inframe := Some f\<rparr>" by (simp add: started_def)
      moreover have "kept ?pm (started ?pm f) \<Longrightarrow> kept ?pm1 ((started ?pm f)\<lparr>pm_inframe := Some f\<rparr>)"
        by (simp add: kept_def)
      ultimately show "running pm2" "kept ?pm1 pm2"
        using Cons.prems(1) idle_or_running_outframe [of pm] by (auto simp: pm2_def)
    qed
    from pm2(1) frame(2) obtain pm3 where
      adv: "dns_worker_packet_matcher_advance_time_to pm2 (time_start f) = Some (Inr pm3)"
      and pm3: "running pm3" "kept pm2 pm3" by (rule running_advance)
    have k: "kept ?pm1 pm3" using kept_trans pm2(2) pm3(2) by blast
    then have inf: "pm_inframe pm3 = Some f" "pm_in pm3 = fs" "pm_heap pm3 = pm_heap pm" by (simp_all add: kept_def)
    have "load_frame pm = load_frame pm3"
      using Cons.prems(2,3) frame(1,2) adv unfolding load pm2_def started_def
      by (simp add: Let_def split: if_splits)
    then have "load_frame pm = Some (Inr (True, pm3))" using load_frame_loaded [OF inf(1)] by simp
    moreover have "moved pm pm3" using kept_moved [OF k] by (simp add: moved_iff)
    moreover have "shape_ok pm3" using inf frame(3,4) by (simp add: shape_ok_def)
    moreover have "pending pm3 = pending pm" using inf Cons.prems(2,3) by (simp add: pending_def)
    ultimately show ?thesis using pm3(1) inf Cons.prems(3) by (intro disjI2 exI [of _ pm3]) simp
  qed
qed simp

definition input_measure :: "dns_worker_packet_matcher \<Rightarrow> nat" where
  "input_measure pm = length (pm_in pm) + (if pm_inframe pm = None then 0 else 1)"

lemma load_frame_cases:
  assumes "idle pm \<or> running pm" and "shape_ok pm"
  obtains (final) pm' where "load_frame pm = Some (Inr (False, pm'))" and "idle pm' \<or> running pm'"
      and "moved pm pm'" and "pending pm = []"
  | (loaded) pm' f where "load_frame pm = Some (Inr (True, pm'))" and "running pm'" and "moved pm pm'"
      and "shape_ok pm'" and "pm_inframe pm' = Some f" and "pending pm' = pending pm"
      and "length (pm_in pm') < input_measure pm"
proof (cases "pm_inframe pm")
  case None
  then show thesis
    using load_frame_ok [OF assms(1) None refl] assms(2) final loaded
    by (auto simp: shape_ok_def input_measure_def)
next
  case (Some f)
  then have "running pm" using assms(1) by (auto simp: idle_def)
  then show thesis
    using Some assms(2) load_frame_loaded [OF Some] loaded [of pm f] by (simp add: input_measure_def)
qed

lemma shape_ok_kept: "kept pm pm' \<Longrightarrow> shape_ok pm' = shape_ok pm"
  by (simp add: shape_ok_def kept_def split: option.splits)

lemma pending_kept: "kept pm pm' \<Longrightarrow> pending pm' = pending pm"
  by (simp add: pending_def kept_def)

lemma next_packet_ok:
  assumes "idle pm \<or> running pm" and "shape_ok pm"
  shows "(\<exists>pm'. dns_worker_packet_matcher_next_packet pm = Some (Inr (None, pm')) \<and>
       (idle pm' \<or> running pm') \<and> moved pm pm' \<and> pending pm = []) \<or>
     (\<exists>p pm'. dns_worker_packet_matcher_next_packet pm = Some (Inr (Some p, pm')) \<and> running pm' \<and>
       moved pm pm' \<and> shape_ok pm' \<and> pending pm = p # pending pm' \<and>
       ts (the (pm_heap pm p)) \<le> pm_current_time pm')"
  using assms
proof (induction "input_measure pm" arbitrary: pm rule: less_induct)
  case less
  note step = dns_worker_packet_matcher_next_packet.simps [of pm]
  from less.prems show ?case
  proof (cases rule: load_frame_cases)
    case (final pm')
    then show ?thesis by (intro disjI1 exI [of _ pm']) (simp add: step)
  next
    case (loaded pm1 f)
    have inf: "inframe_ok (pm_heap pm1) f" using loaded(4,5) by (simp add: shape_ok_def)
    show ?thesis
    proof (cases "fr_packets f")
      case Nil
      from loaded(2) inf obtain pm2 where
        adv: "dns_worker_packet_matcher_advance_time_to pm1 (time_end f) = Some (Inr pm2)"
        and pm2: "running pm2" "kept pm1 pm2"
        by (metis inframe_ok_def running_advance)
      let ?pm3 = "pm2\<lparr>pm_inframe := None\<rparr>"
      have "dns_worker_packet_matcher_next_packet pm = dns_worker_packet_matcher_next_packet ?pm3"
        using loaded(1,5) Nil adv by (simp add: step frame_destroy_empty)
      moreover have "running ?pm3" using pm2(1) by simp
      moreover have in3: "pm_in ?pm3 = pm_in pm1" "pm_heap ?pm3 = pm_heap pm1" using pm2(2) by (simp_all add: kept_def)
      then have "shape_ok ?pm3" using loaded(4) by (simp add: shape_ok_def)
      moreover have "pending ?pm3 = pending pm"
        using in3 loaded(5,6) Nil by (simp add: pending_def)
      moreover have "input_measure ?pm3 < input_measure pm"
        using loaded(7) in3(1) by (simp add: input_measure_def)
      moreover have m: "moved pm ?pm3"
        using loaded(3) kept_moved [OF pm2(2)] by (auto simp: moved_iff)
      moreover have "pm_heap pm2 = pm_heap pm" using m by (simp add: moved_iff)
      ultimately show ?thesis using less.hyps [of ?pm3] moved_trans [OF m] by auto
    next
      case (Cons p ps)
      let ?pm2 = "pm1\<lparr>pm_inframe := Some (f\<lparr>fr_packets := ps\<rparr>)\<rparr>"
      have p: "fresh (pm_heap pm1) p" using inf Cons by (simp add: inframe_ok_def)
      then obtain pkt where pkt: "pm_heap pm1 p = Some pkt" "DNS_NO_TIME < ts pkt"
        by (auto simp: fresh_def elim: is_packetE)
      have "running ?pm2" using loaded(2) by simp
      then obtain pm3 where
        adv: "dns_worker_packet_matcher_advance_time_to ?pm2 (ts pkt) = Some (Inr pm3)"
        and pm3: "running pm3" "kept ?pm2 pm3" "ts pkt \<le> pm_current_time pm3"
        using running_advance pkt(2) by blast
      have "dns_worker_packet_matcher_next_packet pm = Some (Inr (Some p, pm3))"
        using loaded(1,5) Cons pkt(1) adv by (simp add: step)
      moreover have "moved pm pm3"
        using loaded(3) kept_moved [OF pm3(2)] by (auto simp: moved_iff)
      moreover have "shape_ok pm3"
        using loaded(4) inf Cons by (simp add: shape_ok_kept [OF pm3(2)]) (simp add: shape_ok_def inframe_ok_def)
      moreover have "pending pm = p # pending pm3"
        unfolding pending_kept [OF pm3(2)] loaded(6) [symmetric] using loaded(5) Cons by (simp add: pending_def)
      moreover have "pm_heap pm p = Some pkt" using loaded(3) pkt(1) by (simp add: moved_iff)
      ultimately show ?thesis using pm3(1,3) by (intro disjI2 exI [of _ p] exI [of _ pm3]) simp
    qed
  qed
qed

section \<open>Processing a packet\<close>

text \<open>Two heaps with the same packets, up to the responses they have been given.\<close>

definition forget :: "dns_packet \<Rightarrow> dns_packet" where
  "forget pkt = pkt\<lparr>response := None\<rparr>"

definition same_packets :: "heap \<Rightarrow> heap \<Rightarrow> bool" where
  "same_packets hp hp' \<longleftrightarrow> (\<forall>p. map_option forget (hp p) = map_option forget (hp' p))"

lemma forget_simps [simp]:
  "wf_packet (forget pkt) = wf_packet pkt" "ts (forget pkt) = ts pkt" "memory_size (forget pkt) = memory_size pkt"
  "DNS_PACKET_IS_REQUEST (forget pkt) = DNS_PACKET_IS_REQUEST pkt"
  "DNS_PACKET_IS_RESPONSE (forget pkt) = DNS_PACKET_IS_RESPONSE pkt"
  "match_key (forget pkt) = match_key pkt" "knot_packet (forget pkt) = knot_packet pkt"
  "forget (pkt\<lparr>response := r\<rparr>) = forget pkt"
  by (simp_all add: forget_def wf_packet_def match_key_def packet_getter_defs)

lemma same_packets_refl [simp]: "same_packets hp hp"
  by (simp add: same_packets_def)

lemma same_packets_trans: "same_packets hp hp' \<Longrightarrow> same_packets hp' hp'' \<Longrightarrow> same_packets hp hp''"
  by (simp add: same_packets_def)

lemma same_packets_upd:
  "hp q = Some rq \<Longrightarrow> same_packets hp (hp(q \<mapsto> rq\<lparr>response := r\<rparr>))"
  by (simp add: same_packets_def)

lemma same_packetsE:
  assumes "same_packets hp hp'"
  obtains (none) "hp p = None" and "hp' p = None"
  | (some) pkt pkt' where "hp p = Some pkt" and "hp' p = Some pkt'" and "forget pkt = forget pkt'"
  using assms unfolding same_packets_def by (cases "hp p"; cases "hp' p") (auto dest: spec [of _ p])

lemma same_packets_Some:
  assumes "same_packets hp hp'" and "hp p = Some a"
  shows "\<exists>a'. hp' p = Some a' \<and> forget a' = forget a"
  using assms(1) by (cases rule: same_packetsE [where p = p]) (simp_all add: assms(2))

lemma forget_eqD:
  assumes "forget a = forget b"
  shows "wf_packet a = wf_packet b" and "ts a = ts b" and "memory_size a = memory_size b"
    and "DNS_PACKET_IS_REQUEST a = DNS_PACKET_IS_REQUEST b"
    and "DNS_PACKET_IS_RESPONSE a = DNS_PACKET_IS_RESPONSE b"
    and "match_key a = match_key b" and "knot_packet a = knot_packet b"
  using assms by (metis forget_simps)+

lemma same_packets_cong:
  assumes "same_packets hp hp'"
  shows "is_packet hp' p = is_packet hp p" and "is_request hp' p = is_request hp p"
    and "is_response hp' p = is_response hp p"
    and "hp' p = None \<longleftrightarrow> hp p = None"
    and "hp p \<noteq> None \<Longrightarrow> memory_size (the (hp' p)) = memory_size (the (hp p)) \<and>
      ts (the (hp' p)) = ts (the (hp p)) \<and> key_of hp' p = key_of hp p"
proof -
  have "is_packet hp' p = is_packet hp p \<and> is_request hp' p = is_request hp p \<and>
    is_response hp' p = is_response hp p \<and> (hp' p = None \<longleftrightarrow> hp p = None) \<and>
    (hp p \<noteq> None \<longrightarrow> memory_size (the (hp' p)) = memory_size (the (hp p)) \<and>
      ts (the (hp' p)) = ts (the (hp p)) \<and> key_of hp' p = key_of hp p)"
    using assms
  proof (cases rule: same_packetsE [where p = p])
    case (some pkt pkt')
    then show ?thesis
      using forget_eqD [OF some(3)] by (simp add: is_packet_def is_request_def is_response_def key_of_def)
  qed (simp add: is_packet_def is_request_def is_response_def)
  then show "is_packet hp' p = is_packet hp p" and "is_request hp' p = is_request hp p"
    and "is_response hp' p = is_response hp p" and "hp' p = None \<longleftrightarrow> hp p = None"
    and "hp p \<noteq> None \<Longrightarrow> memory_size (the (hp' p)) = memory_size (the (hp p)) \<and>
      ts (the (hp' p)) = ts (the (hp p)) \<and> key_of hp' p = key_of hp p" by blast+
qed

lemma qname_match_cong:
  "knot_packet a = knot_packet a' \<Longrightarrow> knot_packet b = knot_packet b' \<Longrightarrow>
   dns_packet_qname_match dname_eq a b = dns_packet_qname_match dname_eq a' b'"
  by (simp add: dns_packet_qname_match_def DNS_PACKET_IS_REQUEST_def DNS_PACKET_IS_RESPONSE_def)

lemma accepts_cong:
  assumes "same_packets hp hp'" and "hp r \<noteq> None" and "hp q \<noteq> None"
  shows "accepts_at dname_eq mq hp' r q = accepts_at dname_eq mq hp r q"
proof -
  obtain a b where a: "hp r = Some a" and b: "hp q = Some b" using assms(2,3) by auto
  obtain a' where a': "hp' r = Some a'" "forget a' = forget a" using same_packets_Some [OF assms(1) a] by blast
  obtain b' where b': "hp' q = Some b'" "forget b' = forget b" using same_packets_Some [OF assms(1) b] by blast
  have "knot_packet b' = knot_packet b" "knot_packet a' = knot_packet a"
    using forget_eqD(7) a'(2) b'(2) by blast+
  then have "dns_packet_qname_match dname_eq b' a' = dns_packet_qname_match dname_eq b a"
    by (intro qname_match_cong)
  then show ?thesis by (simp add: accepts_at_def accepts_def a b a'(1) b'(1))
qed

lemma frame_fine_cong:
  assumes "same_packets hp hp'" and "frame_fine hp dur sz f"
  shows "frame_fine hp' dur sz f"
proof -
  have wf: "wf_frame hp f" using assms(2) by (simp add: frame_fine_def)
  then have some: "hp p \<noteq> None" if "p \<in> set (fr_packets f)" for p
    using that by (simp add: wf_frame_def)
  then have m: "map (\<lambda>p. memory_size (the (hp' p))) (fr_packets f) = map (\<lambda>p. memory_size (the (hp p))) (fr_packets f)"
    using same_packets_cong(5) [OF assms(1)] by simp
  have "\<forall>p \<in> set (fr_packets f). hp' p \<noteq> None"
    using some same_packets_cong(4) [OF assms(1)] by blast
  then have "wf_frame hp' f" using wf unfolding wf_frame_def m by blast
  then show ?thesis using assms(2) by (simp add: frame_fine_def)
qed

lemma input_ok_cong:
  assumes "same_packets hp hp'" and "\<And>p. p \<in> set (concat (map fr_packets fs)) \<Longrightarrow> hp' p = hp p"
  shows "input_ok hp' fs = input_ok hp fs"
  using assms(2)
proof (induction fs)
  case (Cons f fs)
  have "inframe_ok hp' f = inframe_ok hp f"
    using Cons.prems by (auto simp: inframe_ok_def fresh_def is_packet_def)
  then show ?case using Cons by simp
qed simp

text \<open>What processing a packet leaves alone.\<close>

definition fed :: "dns_worker_packet_matcher \<Rightarrow> dns_worker_packet_matcher \<Rightarrow> bool" where
  "fed pm pm' \<longleftrightarrow> pm_in pm' = pm_in pm \<and> pm_inframe pm' = pm_inframe pm \<and> pm_out pm' = pm_out pm \<and>
     pm_outframe pm' = pm_outframe pm \<and> pm_current_time pm' = pm_current_time pm \<and>
     pm_matching_duration pm' = pm_matching_duration pm \<and>
     pm_frame_max_duration pm' = pm_frame_max_duration pm \<and>
     pm_match_qname pm' = pm_match_qname pm \<and> pm_frame_max_size pm' = pm_frame_max_size pm"

lemma running_queued:
  assumes "running pm" and "fresh (pm_heap pm) p" and "p \<notin> set (pm_packet_queue pm)"
    and "ts (the (pm_heap pm p)) \<le> pm_current_time pm"
    and "hash_inv (pm_heap pm) h"
    and "set (hash_contents h) = set (hash_contents (pm_hash_table pm)) \<union>
      (if is_request (pm_heap pm) p then {p} else {})"
    and pm': "pm' = pm\<lparr>pm_hash_table := h, pm_packet_queue := pm_packet_queue pm @ [p]\<rparr>"
  shows "running pm'" and "fed pm pm'" and "stream pm' = stream pm @ [p]"
proof -
  have "table_matches pm'"
    using assms(1,2,5,6) by (auto simp: running_def pm_ok_def table_matches_def pm' unmatched_def fresh_def)
  moreover have "out_ok pm'" using assms(1) by (simp add: running_def pm_ok_def out_ok_def pm' cong: option.case_cong)
  moreover have "queue_ok pm'"
    using assms(1-3) by (auto simp: running_def pm_ok_def queue_ok_def pm' fresh_def)
  ultimately show "running pm'" using assms(1,4) by (simp add: running_def pm_ok_def pm')
  show "fed pm pm'" by (simp add: fed_def pm')
  show "stream pm' = stream pm @ [p]" by (simp add: stream_def pm')
qed

lemma running_matched:
  assumes run: "running pm" and q: "q \<in> set (pm_packet_queue pm)" "pm_heap pm q = Some rq"
    and h: "hash_inv (pm_heap pm) h" "set (hash_contents h) = set (hash_contents (pm_hash_table pm)) - {q}"
    and pm': "pm' = pm\<lparr>pm_hash_table := h, pm_heap := (pm_heap pm)(q \<mapsto> rq\<lparr>response := Some p\<rparr>)\<rparr>"
  shows "running pm'" and "fed pm pm'" and "stream pm' = stream pm"
proof -
  let ?hp = "pm_heap pm" and ?hp' = "(pm_heap pm)(q \<mapsto> rq\<lparr>response := Some p\<rparr>)"
  note same = same_packets_upd [of ?hp q rq "Some p", OF q(2)]
  have ok: "table_matches pm" "out_ok pm" "queue_ok pm" using run by (simp_all add: running_def pm_ok_def)
  have "hash_inv ?hp' h"
    by (rule hash_heap_cong(1) [OF h(1)]) (use h(2) in auto)
  moreover have "unmatched ?hp' (pm_packet_queue pm) = unmatched ?hp (pm_packet_queue pm) - {q}"
    using same_packets_cong(2) [OF same] by (auto simp: unmatched_def)
  ultimately have "table_matches pm'" using ok(1) h(2) by (simp add: table_matches_def pm')
  moreover have "out_ok pm'"
    using ok(2) frame_fine_cong [OF same] by (auto simp: out_ok_def pm' split: option.splits)
  moreover have "queue_ok pm'"
    using ok(3) same_packets_cong(1) [OF same] by (simp add: queue_ok_def pm')
  ultimately show "running pm'"
    using run q(2) by (auto simp: running_def pm_ok_def pm')
  show "fed pm pm'" by (simp add: fed_def pm')
  show "stream pm' = stream pm" by (simp add: stream_def pm')
qed

lemma process_packet_cases:
  assumes run: "running pm" and p: "fresh (pm_heap pm) p" "p \<notin> set (pm_packet_queue pm)"
    "ts (the (pm_heap pm p)) \<le> pm_current_time pm"
  obtains (queued) pm' where "process_packet dname_eq pm p = Inr pm'" and "running pm'" and "fed pm pm'"
      and "stream pm' = stream pm @ [p]" and "pm_heap pm' = pm_heap pm"
  | (matched) q rq pm' where "process_packet dname_eq pm p = Inr pm'" and "running pm'" and "fed pm pm'"
      and "stream pm' = stream pm" and "q \<in> set (pm_packet_queue pm)"
      and "pm_heap pm q = Some rq" and "response rq = None"
      and "is_request (pm_heap pm) q" and "is_response (pm_heap pm) p"
      and "key_of (pm_heap pm) q = key_of (pm_heap pm) p"
      and "accepts_at dname_eq (pm_match_qname pm) (pm_heap pm) p q"
      and "pm_heap pm' = (pm_heap pm)(q \<mapsto> rq\<lparr>response := Some p\<rparr>)"
proof -
  let ?hp = "pm_heap pm" and ?h = "pm_hash_table pm"
  obtain pkt where pkt: "?hp p = Some pkt" "wf_packet pkt"
    using p(1) by (auto simp: fresh_def elim: is_packetE)
  have inv: "hash_inv ?hp ?h" and mem: "set (hash_contents ?h) = unmatched ?hp (pm_packet_queue pm)"
    using run by (simp_all add: running_def pm_ok_def table_matches_def)
  show thesis
  proof (cases "DNS_PACKET_IS_REQUEST pkt")
    case True
    then have req: "is_request ?hp p" using pkt by (simp add: is_request_iff)
    have "p \<notin> rt.members ?hp ?h" using p(2) by (auto simp: members_contents mem unmatched_def)
    with inv req obtain h where h: "dns_packet_hash_insert_packet ?hp ?h p = Inr h" "hash_inv ?hp h"
      "rt.members ?hp h = insert p (rt.members ?hp ?h)" by (rule rt.ins_members)
    let ?pm = "pm\<lparr>pm_hash_table := h, pm_packet_queue := pm_packet_queue pm @ [p]\<rparr>"
    have "process_packet dname_eq pm p = Inr ?pm" using pkt True h(1) by (simp add: process_packet_def)
    then show thesis
      using queued running_queued [OF run p h(2) _ refl] h(3) req by (simp add: members_contents)
  next
    case False
    then have rsp: "is_response ?hp p" "\<not> is_request ?hp p"
      using pkt by (simp_all add: is_request_iff DNS_PACKET_IS_REQUEST_def)
    from inv rsp(1) show thesis
    proof (cases rule: rt.get_members [where dname_eq = dname_eq and match_qname = "pm_match_qname pm"])
      case (none h)
      let ?pm = "pm\<lparr>pm_hash_table := h, pm_packet_queue := pm_packet_queue pm @ [p]\<rparr>"
      have "process_packet dname_eq pm p = Inr ?pm" using pkt False none(1) by (simp add: process_packet_def)
      then show thesis
        using queued running_queued [OF run p none(2) _ refl] none(3) rsp(2) by (simp add: members_contents)
    next
      case (found q h)
      have q: "q \<in> set (pm_packet_queue pm)" "is_request ?hp q" "response (the (?hp q)) = None"
        using found(3) by (simp_all add: members_contents mem unmatched_def)
      then obtain rq where rq: "?hp q = Some rq" "response rq = None"
        using is_request_Some by fastforce
      let ?pm = "pm\<lparr>pm_hash_table := h, pm_heap := ?hp(q \<mapsto> rq\<lparr>response := Some p\<rparr>)\<rparr>"
      have "process_packet dname_eq pm p = Inr ?pm"
        using pkt False found(1) rq(1) by (simp add: process_packet_def)
      then show thesis
        using matched [of ?pm q rq] running_matched [OF run q(1) rq(1) found(2) _ refl] found(4-6) q rq rsp(1)
        by (simp add: members_contents)
    qed
  qed
qed

section \<open>The whole run\<close>

text \<open>
  The account of the packets that the matcher has read (\<open>seen\<close>): they are in the stream in
  their order, except the responses that a request in the stream owns; each of those is
  owned once, by a request it matches.
\<close>

definition response_of :: "heap \<Rightarrow> pid \<Rightarrow> pid option" where
  "response_of hp p = (case hp p of None \<Rightarrow> None | Some pkt \<Rightarrow> response pkt)"

definition answered :: "heap \<Rightarrow> pid list \<Rightarrow> pid set" where
  "answered hp ps = {r. \<exists>p \<in> set ps. response_of hp p = Some r}"

definition pair_ok :: "(u8 list \<Rightarrow> u8 list \<Rightarrow> bool) \<Rightarrow> bool \<Rightarrow> heap \<Rightarrow> pid \<Rightarrow> pid \<Rightarrow> bool" where
  "pair_ok dname_eq mq hp q r \<longleftrightarrow> is_request hp q \<and> is_response hp r \<and> key_of hp q = key_of hp r \<and>
     accepts_at dname_eq mq hp r q"

definition accounted ::
    "(u8 list \<Rightarrow> u8 list \<Rightarrow> bool) \<Rightarrow> bool \<Rightarrow> heap \<Rightarrow> pid list \<Rightarrow> heap \<Rightarrow> pid list \<Rightarrow> bool" where
  "accounted dname_eq mq hp0 seen hp st \<longleftrightarrow>
     same_packets hp0 hp \<and> st = filter (\<lambda>p. p \<notin> answered hp st) seen \<and>
     answered hp st \<subseteq> set seen \<and>
     (\<forall>q \<in> set st. \<forall>r. response_of hp q = Some r \<longrightarrow> pair_ok dname_eq mq hp0 q r) \<and>
     (\<forall>q \<in> set st. \<forall>q' \<in> set st. \<forall>r. response_of hp q = Some r \<and> response_of hp q' = Some r \<longrightarrow> q = q') \<and>
     (\<forall>r \<in> answered hp st. response_of hp r = None)"

lemma accounted_set:
  assumes "accounted dname_eq mq hp0 seen hp st"
  shows "set st = set seen - answered hp st"
proof -
  have "st = filter (\<lambda>p. p \<notin> answered hp st) seen" using assms by (simp add: accounted_def)
  then have "set st = set (filter (\<lambda>p. p \<notin> answered hp st) seen)" by (rule arg_cong)
  then show ?thesis by auto
qed

lemma answered_snoc: "response_of hp p = None \<Longrightarrow> answered hp (ps @ [p]) = answered hp ps"
  by (auto simp: answered_def)

lemma accounted_queued:
  assumes acc: "accounted dname_eq mq hp0 seen hp st" and "p \<notin> set seen" and "response_of hp p = None"
  shows "accounted dname_eq mq hp0 (seen @ [p]) hp (st @ [p])"
proof -
  have "p \<notin> answered hp st" using assms by (auto simp: accounted_def)
  moreover have "st = filter (\<lambda>x. x \<notin> answered hp st) seen" using acc by (simp add: accounted_def)
  ultimately have "st @ [p] = filter (\<lambda>x. x \<notin> answered hp (st @ [p])) (seen @ [p])"
    unfolding answered_snoc [OF assms(3)] by simp
  moreover have "\<forall>q \<in> set (st @ [p]). \<forall>r. response_of hp q = Some r \<longrightarrow> q \<in> set st"
    using assms(3) by simp
  moreover have "answered hp st \<subseteq> set (seen @ [p])" using acc by (auto simp: accounted_def)
  ultimately show ?thesis
    using acc unfolding accounted_def answered_snoc [OF assms(3)] by blast
qed

lemma accounted_matched:
  assumes acc: "accounted dname_eq mq hp0 seen hp st" and p: "p \<notin> set seen" "response_of hp p = None"
    and q: "q \<in> set st" "hp q = Some rq" "response rq = None" and pair: "pair_ok dname_eq mq hp0 q p"
    and hp': "hp' = hp(q \<mapsto> rq\<lparr>response := Some p\<rparr>)"
  shows "accounted dname_eq mq hp0 (seen @ [p]) hp' st"
proof -
  have resp: "response_of hp' x = (if x = q then Some p else response_of hp x)" for x
    by (simp add: response_of_def hp')
  have rq: "response_of hp q = None" using q by (simp add: response_of_def)
  have ans: "answered hp' st = insert p (answered hp st)"
    using q(1) rq by (auto simp: answered_def resp) (metis option.distinct(1))
  have sub: "answered hp st \<subseteq> set seen" and st: "st = filter (\<lambda>p. p \<notin> answered hp st) seen"
    and same: "same_packets hp0 hp" using acc by (simp_all add: accounted_def)
  have set_st: "set st = set seen - answered hp st" using acc by (rule accounted_set)
  have "filter (\<lambda>x. x \<notin> answered hp' st) (seen @ [p]) = filter (\<lambda>x. x \<notin> answered hp st) seen"
    using p(1) by (auto simp: ans intro: filter_cong)
  then have "st = filter (\<lambda>x. x \<notin> answered hp' st) (seen @ [p])" using st by simp
  moreover have "same_packets hp0 hp'"
    using same_packets_trans [OF same same_packets_upd [of hp q rq "Some p"]] q(2) by (simp add: hp')
  moreover have "answered hp' st \<subseteq> set (seen @ [p])" using sub by (auto simp: ans)
  moreover have "\<forall>x \<in> set st. \<forall>r. response_of hp' x = Some r \<longrightarrow> pair_ok dname_eq mq hp0 x r"
    using acc pair by (auto simp: accounted_def resp)
  moreover have "\<forall>x \<in> set st. \<forall>y \<in> set st. \<forall>r.
      response_of hp' x = Some r \<and> response_of hp' y = Some r \<longrightarrow> x = y"
  proof -
    have "response_of hp x \<noteq> Some p" if "x \<in> set st" for x
      using p(1) sub that by (auto simp: answered_def)
    then show ?thesis using acc by (auto simp: accounted_def resp)
  qed
  moreover have "\<forall>r \<in> answered hp' st. response_of hp' r = None"
  proof
    fix r assume r: "r \<in> answered hp' st"
    have "q \<noteq> p" using p(1) q(1) set_st by blast
    moreover have "q \<notin> answered hp st" using q(1) set_st by blast
    ultimately show "response_of hp' r = None"
      using r acc p(2) by (auto simp: ans resp accounted_def)
  qed
  ultimately show ?thesis unfolding accounted_def by blast
qed

lemma owned_Cons: "owned hp p = p # (case response_of hp p of None \<Rightarrow> [] | Some r \<Rightarrow> [r])"
  by (simp add: owned_def response_of_def split: option.splits)

lemma answered_Cons:
  "answered hp (p # ps) = (case response_of hp p of None \<Rightarrow> {} | Some r \<Rightarrow> {r}) \<union> answered hp ps"
  by (auto simp: answered_def split: option.splits)

lemma answered_Nil [simp]: "answered hp [] = {}"
  by (simp add: answered_def)

lemma set_owned_all: "set (owned_all hp ps) = set ps \<union> answered hp ps"
  by (induction ps) (auto simp: owned_all_Cons owned_Cons answered_Cons split: option.splits)

lemma owned_all_distinct:
  assumes "distinct ps" and "\<And>q q' r. q \<in> set ps \<Longrightarrow> q' \<in> set ps \<Longrightarrow>
      response_of hp q = Some r \<Longrightarrow> response_of hp q' = Some r \<Longrightarrow> q = q'"
    and "answered hp ps \<inter> set ps = {}"
  shows "distinct (owned_all hp ps)"
  using assms
proof (induction ps)
  case (Cons p ps)
  have IH: "distinct (owned_all hp ps)"
    by (rule Cons.IH) (use Cons.prems(1,3) Cons.prems(2) in \<open>auto simp: answered_Cons\<close>)
  show ?case
  proof (cases "response_of hp p")
    case None
    then show ?thesis
      using IH Cons.prems(1,3) by (simp add: owned_all_Cons owned_Cons set_owned_all answered_Cons)
  next
    case (Some r)
    have "r \<notin> answered hp ps"
      using Cons.prems(1) Cons.prems(2) [of p _ r] Some by (auto simp: answered_def)
    then show ?thesis
      using IH Cons.prems(1,3) Some by (auto simp: owned_all_Cons owned_Cons set_owned_all answered_Cons)
  qed
qed simp

text \<open>What is accounted for is owned exactly once.\<close>

lemma accounted_owned:
  assumes acc: "accounted dname_eq mq hp0 seen hp st" and "distinct seen"
  shows "mset (owned_all hp st) = mset seen"
proof -
  have "distinct (filter (\<lambda>p. p \<notin> answered hp st) seen)" using assms(2) by simp
  moreover have "st = filter (\<lambda>p. p \<notin> answered hp st) seen" and sub: "answered hp st \<subseteq> set seen"
    using acc by (simp_all add: accounted_def)
  ultimately have d: "distinct st" by metis
  have inj: "q = q'" if "q \<in> set st" "q' \<in> set st" "response_of hp q = Some r" "response_of hp q' = Some r" for q q' r
    using acc that unfolding accounted_def by blast
  have dis: "answered hp st \<inter> set st = {}" using accounted_set [OF acc] by blast
  have "distinct (owned_all hp st)"
    using d inj dis by (rule owned_all_distinct)
  moreover have "set (owned_all hp st) = set seen"
    using sub accounted_set [OF acc] unfolding set_owned_all by blast
  ultimately show ?thesis using assms(2) by (simp add: set_eq_iff_mset_eq_distinct)
qed

text \<open>The configuration of the matcher never changes.\<close>

definition same_conf :: "dns_worker_packet_matcher \<Rightarrow> dns_worker_packet_matcher \<Rightarrow> bool" where
  "same_conf pm pm' \<longleftrightarrow> pm_matching_duration pm' = pm_matching_duration pm \<and>
     pm_frame_max_duration pm' = pm_frame_max_duration pm \<and>
     pm_match_qname pm' = pm_match_qname pm \<and> pm_frame_max_size pm' = pm_frame_max_size pm"

lemma same_conf_simps [simp]: "same_conf pm pm"
  by (simp add: same_conf_def)

lemma same_conf_trans: "same_conf pm pm' \<Longrightarrow> same_conf pm' pm'' \<Longrightarrow> same_conf pm pm''"
  by (simp add: same_conf_def)

lemma moved_conf: "moved pm pm' \<Longrightarrow> same_conf pm pm'"
  by (simp add: same_conf_def moved_iff)

lemma fed_conf: "fed pm pm' \<Longrightarrow> same_conf pm pm'"
  by (simp add: same_conf_def fed_def)

lemma pending_fresh: "shape_ok pm \<Longrightarrow> p \<in> set (pending pm) \<Longrightarrow> fresh (pm_heap pm) p"
  using input_ok_pending by (auto simp: shape_ok_def pending_def inframe_ok_def split: option.splits)

lemma fed_pending: "fed pm pm' \<Longrightarrow> pending pm' = pending pm"
  by (simp add: fed_def pending_def)

lemma fed_shape:
  assumes "fed pm pm'" and "shape_ok pm" and "same_packets (pm_heap pm) (pm_heap pm')"
    and "\<And>p. p \<in> set (pending pm) \<Longrightarrow> pm_heap pm' p = pm_heap pm p"
  shows "shape_ok pm'"
proof -
  have "input_ok (pm_heap pm') (pm_in pm) = input_ok (pm_heap pm) (pm_in pm)"
    by (rule input_ok_cong [OF assms(3)]) (use assms(4) in \<open>auto simp: pending_def\<close>)
  moreover have "inframe_ok (pm_heap pm') f = inframe_ok (pm_heap pm) f" if "pm_inframe pm = Some f" for f
    using assms(4) that by (auto simp: pending_def inframe_ok_def fresh_def is_packet_def)
  ultimately show ?thesis using assms(1,2) by (auto simp: shape_ok_def fed_def split: option.splits)
qed

lemma fresh_response: "fresh hp p \<Longrightarrow> response_of hp p = None"
  by (auto simp: fresh_def response_of_def is_packet_def split: option.splits)

text \<open>The state of the loop between two packets.\<close>

definition loop_inv ::
    "(u8 list \<Rightarrow> u8 list \<Rightarrow> bool) \<Rightarrow> heap \<Rightarrow> pid list \<Rightarrow> dns_worker_packet_matcher \<Rightarrow> bool" where
  "loop_inv dname_eq hp0 seen pm \<longleftrightarrow> (idle pm \<or> running pm) \<and>
     accounted dname_eq (pm_match_qname pm) hp0 seen (pm_heap pm) (stream pm)"

lemma loop_step:
  assumes run: "running pm" and shape: "shape_ok pm" and d: "p \<notin> set seen" "p \<notin> set (pending pm)"
    and dp: "set seen \<inter> set (pending pm) = {}"
    and acc: "accounted dname_eq (pm_match_qname pm) hp0 seen (pm_heap pm) (stream pm)"
    and p: "fresh (pm_heap pm) p" "ts (the (pm_heap pm p)) \<le> pm_current_time pm"
  obtains pm' where "process_packet dname_eq pm p = Inr pm'" and "loop_inv dname_eq hp0 (seen @ [p]) pm'"
    and "shape_ok pm'" and "pending pm' = pending pm" and "same_conf pm pm'"
proof -
  let ?hp = "pm_heap pm"
  have seen: "set (stream pm) \<subseteq> set seen" using accounted_set [OF acc] by blast
  have queue: "set (pm_packet_queue pm) \<subseteq> set (stream pm)" by (auto simp: stream_def)
  have "p \<notin> set (pm_packet_queue pm)" using d(1) seen queue by blast
  from run p(1) this p(2) show thesis
  proof (cases rule: process_packet_cases [where dname_eq = dname_eq])
    case (queued pm')
    have "accounted dname_eq (pm_match_qname pm) hp0 (seen @ [p]) ?hp (stream pm @ [p])"
      using accounted_queued [OF acc d(1)] fresh_response [OF p(1)] by simp
    moreover have "shape_ok pm'" using fed_shape [OF queued(3) shape] queued(5) by simp
    ultimately show thesis
      using that queued fed_conf [OF queued(3)] fed_pending [OF queued(3)]
      by (simp add: loop_inv_def same_conf_def)
  next
    case (matched q rq pm')
    have same: "same_packets hp0 ?hp" using acc by (simp add: accounted_def)
    have "?hp p \<noteq> None" using p(1) by (auto simp: fresh_def elim: is_packetE)
    moreover have "?hp q \<noteq> None" using matched(6) by simp
    ultimately have some: "hp0 p \<noteq> None" "hp0 q \<noteq> None"
      using same_packets_cong(4) [OF same, of p] same_packets_cong(4) [OF same, of q] by simp_all
    have "pair_ok dname_eq (pm_match_qname pm) hp0 q p"
      using matched(8-11) same_packets_cong [OF same] accepts_cong [OF same some] some
      by (simp add: pair_ok_def)
    moreover have q: "q \<in> set (stream pm)" using matched(5) queue by blast
    ultimately have "accounted dname_eq (pm_match_qname pm) hp0 (seen @ [p]) (pm_heap pm') (stream pm)"
      using accounted_matched [OF acc d(1) fresh_response [OF p(1)] _ matched(6,7)] matched(12) by simp
    moreover have "pm_heap pm' x = ?hp x" if "x \<in> set (pending pm)" for x
      using that q seen dp matched(12) by auto
    then have "shape_ok pm'"
      using fed_shape [OF matched(3) shape] same_packets_upd [of ?hp q rq "Some p"] matched(6,12) by simp
    ultimately show thesis
      using that matched(1-4) fed_conf [OF matched(3)] fed_pending [OF matched(3)]
      by (simp add: loop_inv_def same_conf_def)
  qed
qed

lemma matcher_loop_ok:
  assumes "loop_inv dname_eq hp0 seen pm" and "shape_ok pm" and "distinct (seen @ pending pm)"
  shows "\<exists>pm'. matcher_loop dname_eq pm = Some (Inr pm') \<and> same_conf pm pm' \<and>
    loop_inv dname_eq hp0 (seen @ pending pm) pm'"
  using assms
proof (induction "pending pm" arbitrary: pm seen)
  case Nil
  note step = matcher_loop.simps [of dname_eq pm]
  have pend: "pending pm = []" using Nil.hyps by simp
  have st: "idle pm \<or> running pm"
    and acc: "accounted dname_eq (pm_match_qname pm) hp0 seen (pm_heap pm) (stream pm)"
    using Nil.prems(1) by (simp_all add: loop_inv_def)
  from next_packet_ok [OF st Nil.prems(2)] obtain pm' where
    n: "dns_worker_packet_matcher_next_packet pm = Some (Inr (None, pm'))" "idle pm' \<or> running pm'" "moved pm pm'"
    unfolding pend by blast
  have "matcher_loop dname_eq pm = Some (Inr pm')" using n(1) by (simp add: step)
  moreover have "loop_inv dname_eq hp0 seen pm'" using n(2,3) acc by (simp add: loop_inv_def moved_iff)
  ultimately show ?case using moved_conf [OF n(3)] by (simp add: pend)
next
  case (Cons p ps)
  note step = matcher_loop.simps [of dname_eq pm]
  have pend: "pending pm = p # ps" using Cons.hyps(2) by simp
  have st: "idle pm \<or> running pm"
    and acc: "accounted dname_eq (pm_match_qname pm) hp0 seen (pm_heap pm) (stream pm)"
    using Cons.prems(1) by (simp_all add: loop_inv_def)
  from next_packet_ok [OF st Cons.prems(2)] obtain pm1 where
    n: "dns_worker_packet_matcher_next_packet pm = Some (Inr (Some p, pm1))" "running pm1" "moved pm pm1"
      "shape_ok pm1" "pending pm1 = ps" "ts (the (pm_heap pm p)) \<le> pm_current_time pm1"
    unfolding pend list.inject by blast
  have heap: "pm_heap pm1 = pm_heap pm" "pm_match_qname pm1 = pm_match_qname pm" "stream pm1 = stream pm"
    using n(3) by (simp_all add: moved_iff)
  have d: "distinct (seen @ p # ps)" using Cons.prems(3) by (simp add: pend)
  have fr: "fresh (pm_heap pm) p" by (rule pending_fresh [OF Cons.prems(2)]) (simp add: pend)
  obtain pm2 where p2: "process_packet dname_eq pm1 p = Inr pm2"
    "loop_inv dname_eq hp0 (seen @ [p]) pm2" "shape_ok pm2" "pending pm2 = pending pm1" "same_conf pm1 pm2"
    by (rule loop_step [OF n(2,4), of p seen dname_eq hp0])
      (use d n(5,6) fr acc in \<open>auto simp: heap\<close>)
  have run: "matcher_loop dname_eq pm = matcher_loop dname_eq pm2" using n(1) p2(1) by (simp add: step)
  have ps: "ps = pending pm2" using n(5) p2(4) by simp
  have "distinct ((seen @ [p]) @ pending pm2)" using d by (simp flip: ps)
  from Cons.hyps(1) [OF ps p2(2,3) this] obtain pm' where "matcher_loop dname_eq pm2 = Some (Inr pm')"
    "same_conf pm2 pm'" "loop_inv dname_eq hp0 ((seen @ [p]) @ pending pm2) pm'"
    by blast
  moreover have "same_conf pm pm2" using same_conf_trans moved_conf [OF n(3)] p2(5) by blast
  ultimately show ?case using same_conf_trans run by (auto simp: pend simp flip: ps)
qed

lemma matcher_finish_ok:
  assumes "idle pm \<or> running pm"
  obtains pm' fs t t' where "matcher_finish pm = Some (Inr pm')"
    and "pm_out pm' = Some (fs @ [dns_packet_frame_create_final t])" and "pm_heap pm' = pm_heap pm"
    and "concat (map fr_packets fs) = stream pm" and "contiguous fs t'"
    and "\<forall>g \<in> set fs. frame_fine (pm_heap pm) (pm_frame_max_duration pm) (pm_frame_max_size pm) g"
  using assms
proof
  assume "idle pm"
  then show thesis
    by (intro that [of "pm\<lparr>pm_out := Some [dns_packet_frame_create_final DNS_NO_TIME]\<rparr>" "[]" DNS_NO_TIME])
      (simp_all add: matcher_finish_def idle_def pm_enqueue_def stream_def)
next
  assume run: "running pm"
  let ?time = "pm_current_time pm + pm_matching_duration pm + 1"
  have ok: "pm_ok pm" "DNS_NO_TIME < pm_current_time pm" "0 < pm_matching_duration pm"
    using run by (simp_all add: running_def pm_ok_def)
  have due: "all_due ?time pm" using run by (auto simp: running_def all_due_def)
  have t: "DNS_NO_TIME < ?time" "pm_current_time pm < ?time" using ok(2,3) by simp_all
  obtain pm1 where
    adv: "dns_worker_packet_matcher_advance_time_to pm ?time = Some (Inr pm1)" and pm1: "pm_ok pm1" "kept pm pm1"
      and q: "pm_packet_queue pm1 = []"
    using advance_time_to_ok [OF ok(1) t(1) ok(2)] t(2) due by metis
  have "out_ok pm1" using pm1(1) by (simp add: pm_ok_def)
  then obtain fs f where out: "pm_out pm1 = Some fs" "pm_outframe pm1 = Some f" "contiguous fs (time_start f)"
    and fine: "\<And>g. g \<in> set fs \<Longrightarrow> frame_fine (pm_heap pm1) (pm_frame_max_duration pm1) (pm_frame_max_size pm1) g"
      "frame_fine (pm_heap pm1) (pm_frame_max_duration pm1) (pm_frame_max_size pm1) f"
    by (rule out_okE) blast
  have k: "pm_heap pm1 = pm_heap pm" "pm_frame_max_duration pm1 = pm_frame_max_duration pm"
    "pm_frame_max_size pm1 = pm_frame_max_size pm" "stream pm1 = stream pm"
    using pm1(2) by (simp_all add: kept_def)
  let ?t = "pm_current_time pm1"
  let ?pm' = "pm1\<lparr>pm_out := Some (fs @ [f] @ [dns_packet_frame_create_final ?t]), pm_outframe := None\<rparr>"
  show thesis
  proof (rule that [of ?pm' "fs @ [f]" ?t "time_end f"])
    show "matcher_finish pm = Some (Inr ?pm')"
      using ok(2) adv out(1,2) by (simp add: matcher_finish_def pm_enqueue_def)
    show "concat (map fr_packets (fs @ [f])) = stream pm"
      using out q k(4) by (simp add: stream_def)
    show "contiguous (fs @ [f]) (time_end f)" using out(3) by (simp add: contiguous_snoc)
    show "\<forall>g \<in> set (fs @ [f]). frame_fine (pm_heap pm) (pm_frame_max_duration pm) (pm_frame_max_size pm) g"
      using fine k(1-3) by auto
  qed (simp_all add: k)
qed

text \<open>What the input promises, and a matcher set up for it.\<close>

definition matcher_ready ::
    "u64 \<Rightarrow> u64 \<Rightarrow> heap \<Rightarrow> dns_config \<Rightarrow> dns_packet_frame list \<Rightarrow> bool" where
  "matcher_ready random1 random2 hp conf frames \<longleftrightarrow> dns_collector_conf_commit conf = None \<and>
     0 < dns_fsec_to_us_time (match_window_sec conf) \<and> 0x100 < random1 + push_bit 32 random2 \<and>
     input_ok hp frames \<and> distinct (concat (map fr_packets frames))"

lemma matcher_create_ok:
  assumes "matcher_ready random1 random2 hp conf frames"
  obtains pm where "dns_worker_packet_matcher_create random1 random2 hp conf frames True = Inr pm"
    and "idle pm" and "shape_ok pm" and "pending pm = concat (map fr_packets frames)" and "stream pm = []"
    and "pm_heap pm = hp" and "pm_match_qname pm = (match_qname conf \<noteq> 0)"
    and "pm_frame_max_duration pm = dns_fsec_to_us_time (max_frame_duration_sec conf)"
    and "pm_frame_max_size pm = max_frame_size conf"
proof -
  let ?h = "dns_packet_hash_create random1 random2 WORKER_PACKET_MATCHER_MIN_HASH_SIZE 0"
  have r: "0 < dns_fsec_to_us_time (match_window_sec conf)" "input_ok hp frames"
    "0 < dns_fsec_to_us_time (max_frame_duration_sec conf)" "hash_inv hp ?h" "hash_contents ?h = []"
    using assms conf_frame_duration [of conf] hash_create_inv(1) [of 0 random1 random2 WORKER_PACKET_MATCHER_MIN_HASH_SIZE hp]
    by (simp_all add: matcher_ready_def WORKER_PACKET_MATCHER_MIN_HASH_SIZE_def hash_contents_def
        dns_packet_hash_create_def)
  let ?pm = "\<lparr>pm_heap = hp, pm_in = frames, pm_out = Some [], pm_hash_table = ?h, pm_packet_queue = [],
        pm_matching_duration = dns_fsec_to_us_time (match_window_sec conf),
        pm_frame_max_duration = dns_fsec_to_us_time (max_frame_duration_sec conf),
        pm_match_qname = (match_qname conf \<noteq> 0), pm_frame_max_size = max_frame_size conf,
        pm_inframe = None, pm_outframe = None, pm_current_time = DNS_NO_TIME\<rparr>"
  show thesis
    by (rule that [of ?pm]) (use r in \<open>simp_all add: dns_worker_packet_matcher_create_def idle_def
        table_matches_def unmatched_def shape_ok_def pending_def stream_def\<close>)
qed

text \<open>The run of the whole thread.\<close>

definition matcher_run ::
    "(u8 list \<Rightarrow> u8 list \<Rightarrow> bool) \<Rightarrow> u64 \<Rightarrow> u64 \<Rightarrow> heap \<Rightarrow> dns_config \<Rightarrow> dns_packet_frame list \<Rightarrow>
     dns_worker_packet_matcher run" where
  "matcher_run dname_eq random1 random2 hp conf frames =
     bindo (Some (dns_worker_packet_matcher_create random1 random2 hp conf frames True))
       (dns_worker_packet_matcher_main dname_eq)"

lemma matcher_run_ok:
  assumes "matcher_ready random1 random2 hp conf frames"
  obtains pm fs t t' where "matcher_run dname_eq random1 random2 hp conf frames = Some (Inr pm)"
    and "pm_out pm = Some (fs @ [dns_packet_frame_create_final t])"
    and "accounted dname_eq (match_qname conf \<noteq> 0) hp (concat (map fr_packets frames)) (pm_heap pm)
      (concat (map fr_packets fs))"
    and "contiguous fs t'"
    and "\<forall>g \<in> set fs. frame_fine (pm_heap pm) (dns_fsec_to_us_time (max_frame_duration_sec conf))
      (max_frame_size conf) g"
proof -
  from assms obtain pm0 where
    c: "dns_worker_packet_matcher_create random1 random2 hp conf frames True = Inr pm0" "idle pm0" "shape_ok pm0"
    and pend: "pending pm0 = concat (map fr_packets frames)" and st: "stream pm0 = []" and hp: "pm_heap pm0 = hp"
    and conf: "pm_match_qname pm0 = (match_qname conf \<noteq> 0)"
      "pm_frame_max_duration pm0 = dns_fsec_to_us_time (max_frame_duration_sec conf)"
      "pm_frame_max_size pm0 = max_frame_size conf"
    by (rule matcher_create_ok)
  have "loop_inv dname_eq hp [] pm0" using c(2) st hp by (simp add: loop_inv_def accounted_def)
  moreover have "distinct ([] @ pending pm0)" using assms pend by (simp add: matcher_ready_def)
  ultimately obtain pm1 where l: "matcher_loop dname_eq pm0 = Some (Inr pm1)" "same_conf pm0 pm1"
    "loop_inv dname_eq hp (pending pm0) pm1"
    using matcher_loop_ok [of dname_eq hp "[]" pm0] c(3) by auto
  have "idle pm1 \<or> running pm1" using l(3) by (simp add: loop_inv_def)
  then obtain pm fs t t' where f: "matcher_finish pm1 = Some (Inr pm)"
    "pm_out pm = Some (fs @ [dns_packet_frame_create_final t])" "pm_heap pm = pm_heap pm1"
    "concat (map fr_packets fs) = stream pm1" "contiguous fs t'"
    "\<forall>g \<in> set fs. frame_fine (pm_heap pm1) (pm_frame_max_duration pm1) (pm_frame_max_size pm1) g"
    by (rule matcher_finish_ok)
  have "matcher_run dname_eq random1 random2 hp conf frames = Some (Inr pm)"
    using c(1) l(1) f(1) by (simp add: matcher_run_def dns_worker_packet_matcher_main_def)
  then show thesis
    using that [of pm fs t t'] f l(2,3) conf pend by (simp add: loop_inv_def same_conf_def)
qed

section \<open>Properties\<close>

text \<open>
  C2: the matcher thread loses and duplicates nothing. On every input that ends with a final
  frame the thread runs to its end (every loop ends, no assertion fails, no bad pointer is
  followed), the last frame it sends is the final one, and the packets of the frames it sends,
  together with the responses that these packets own, are exactly the packets it received.
\<close>

theorem matcher_conserves:
  assumes "matcher_ready random1 random2 hp conf frames"
  shows "\<exists>pm fs t. matcher_run dname_eq random1 random2 hp conf frames = Some (Inr pm) \<and>
    pm_out pm = Some (fs @ [dns_packet_frame_create_final t]) \<and>
    mset (owned_all (pm_heap pm) (concat (map fr_packets fs))) = mset (concat (map fr_packets frames))"
proof -
  have "distinct (concat (map fr_packets frames))" using assms by (simp add: matcher_ready_def)
  then show ?thesis using matcher_run_ok [OF assms, of dname_eq] accounted_owned by metis
qed

definition ex_frames :: "dns_packet_frame list" where
  "ex_frames = [\<lparr>time_start = 10, time_end = 20, frame_type = 0, fr_packets = [5, 6, 7], fr_count = 3, fr_size = 0\<rparr>,
     dns_packet_frame_create_final 20]"

lemma ex_matcher_ready: "matcher_ready 1000003 0 ex_heap3 dns_collector_conf_init ex_frames"
proof -
  have "dns_collector_conf_commit dns_collector_conf_init = None"
    by (simp add: dns_collector_conf_commit_def dns_collector_conf_init_def DNS_OUTPUT_TYPE_CSV_def
        c_char_def isalnum_def bad_separators_def all_fields_def dns_of_LAST_def)
  moreover have "0 < dns_fsec_to_us_time (match_window_sec dns_collector_conf_init)"
    by (simp add: dns_collector_conf_init_def dns_fsec_to_us_time_def c_trunc_def)
  moreover have "fresh ex_heap3 5" "fresh ex_heap3 6" "fresh ex_heap3 7"
    by (simp_all add: fresh_def is_packet_def ex_heap3_simps ex_packet_simps)
  then have "input_ok ex_heap3 ex_frames"
    by (simp add: ex_frames_def inframe_ok_def DNS_NO_TIME_def)
  ultimately show ?thesis by (simp add: matcher_ready_def ex_frames_def)
qed

theorem matcher_conserves_witness:
  "\<exists>pm fs t. matcher_run (=) 1000003 0 ex_heap3 dns_collector_conf_init ex_frames = Some (Inr pm) \<and>
    pm_out pm = Some (fs @ [dns_packet_frame_create_final t]) \<and>
    mset (owned_all (pm_heap pm) (concat (map fr_packets fs))) = {#5, 6, 7#}"
  using matcher_conserves [OF ex_matcher_ready, of "(=)"] by (simp add: ex_frames_def)

text \<open>
  C3: the packets leave in the order in which they came, only the matched responses are taken
  out of the stream; each of those is owned by exactly one request, from the same client to
  the same server with the same id, address family and transport, and with the same name if
  the configuration asks for it.
\<close>

theorem matcher_pairs:
  assumes "matcher_ready random1 random2 hp conf frames"
    and "matcher_run dname_eq random1 random2 hp conf frames = Some (Inr pm)" and "pm_out pm = Some outs"
  shows "concat (map fr_packets outs) =
      filter (\<lambda>p. p \<notin> answered (pm_heap pm) (concat (map fr_packets outs))) (concat (map fr_packets frames)) \<and>
    (\<forall>q \<in> set (concat (map fr_packets outs)). \<forall>r. response_of (pm_heap pm) q = Some r \<longrightarrow>
       pair_ok dname_eq (match_qname conf \<noteq> 0) hp q r)"
proof -
  from assms(1) obtain pm' fs t t' where r: "matcher_run dname_eq random1 random2 hp conf frames = Some (Inr pm')"
    "pm_out pm' = Some (fs @ [dns_packet_frame_create_final t])"
    and acc: "accounted dname_eq (match_qname conf \<noteq> 0) hp (concat (map fr_packets frames)) (pm_heap pm')
      (concat (map fr_packets fs))"
    by (rule matcher_run_ok)
  have "pm = pm'" using r(1) assms(2) by simp
  then have "outs = fs @ [dns_packet_frame_create_final t]" using r(2) assms(3) by (simp only: option.inject)
  then have "concat (map fr_packets outs) = concat (map fr_packets fs)" by simp
  then show ?thesis using acc \<open>pm = pm'\<close> unfolding accounted_def by simp
qed

theorem matcher_pairs_witness:
  "\<exists>pm outs. matcher_run (=) 1000003 0 ex_heap3 dns_collector_conf_init ex_frames = Some (Inr pm) \<and>
    pm_out pm = Some outs \<and>
    concat (map fr_packets outs) = filter (\<lambda>p. p \<notin> answered (pm_heap pm) (concat (map fr_packets outs))) [5, 6, 7]"
proof -
  obtain pm fs t where r: "matcher_run (=) 1000003 0 ex_heap3 dns_collector_conf_init ex_frames = Some (Inr pm)"
    "pm_out pm = Some (fs @ [dns_packet_frame_create_final t])"
    using matcher_run_ok [OF ex_matcher_ready, of "(=)"] by metis
  have "concat (map fr_packets ex_frames) = [5, 6, 7]" by (simp add: ex_frames_def)
  then show ?thesis using r matcher_pairs [OF ex_matcher_ready r] by metis
qed

text \<open>
  C4: the frames sent before the final one follow each other without gaps, last at most the
  configured duration, are not larger than the configured size unless they hold a single
  packet, and report the count and size of their packets.
\<close>

theorem matcher_frames:
  assumes "matcher_ready random1 random2 hp conf frames"
    and "matcher_run dname_eq random1 random2 hp conf frames = Some (Inr pm)" and "pm_out pm = Some outs"
  shows "\<exists>t. contiguous (butlast outs) t \<and> frame_type (last outs) = 1 \<and> (\<forall>f \<in> set (butlast outs).
    time_start f \<le> time_end f \<and>
    time_end f \<le> time_start f + dns_fsec_to_us_time (max_frame_duration_sec conf) \<and>
    (fr_size f \<le> word_of_int (max_frame_size conf) \<or> length (fr_packets f) \<le> 1) \<and>
    fr_count f = length (fr_packets f) \<and>
    fr_size f = sum_list (map (\<lambda>p. memory_size (the (pm_heap pm p))) (fr_packets f)))"
proof -
  from assms(1) obtain pm' fs t t' where r: "matcher_run dname_eq random1 random2 hp conf frames = Some (Inr pm')"
    "pm_out pm' = Some (fs @ [dns_packet_frame_create_final t])" "contiguous fs t'"
    and fine: "\<forall>g \<in> set fs. frame_fine (pm_heap pm') (dns_fsec_to_us_time (max_frame_duration_sec conf))
      (max_frame_size conf) g"
    by (rule matcher_run_ok)
  have "pm = pm'" using r(1) assms(2) by simp
  then have "outs = fs @ [dns_packet_frame_create_final t]" using r(2) assms(3) by (simp only: option.inject)
  then have outs: "butlast outs = fs" "last outs = dns_packet_frame_create_final t" by simp_all
  have "\<forall>f \<in> set fs. time_start f \<le> time_end f \<and>
      time_end f \<le> time_start f + dns_fsec_to_us_time (max_frame_duration_sec conf) \<and>
      (fr_size f \<le> word_of_int (max_frame_size conf) \<or> length (fr_packets f) \<le> 1) \<and>
      fr_count f = length (fr_packets f) \<and>
      fr_size f = sum_list (map (\<lambda>p. memory_size (the (pm_heap pm p))) (fr_packets f))"
    using fine unfolding frame_fine_def wf_frame_def \<open>pm = pm'\<close> by blast
  then show ?thesis unfolding outs using r(3) by auto
qed

theorem matcher_frames_witness:
  "\<exists>pm outs t. matcher_run (=) 1000003 0 ex_heap3 dns_collector_conf_init ex_frames = Some (Inr pm) \<and>
    pm_out pm = Some outs \<and> contiguous (butlast outs) t \<and> frame_type (last outs) = 1"
proof -
  obtain pm fs t where r: "matcher_run (=) 1000003 0 ex_heap3 dns_collector_conf_init ex_frames = Some (Inr pm)"
    "pm_out pm = Some (fs @ [dns_packet_frame_create_final t])"
    using matcher_run_ok [OF ex_matcher_ready, of "(=)"] by metis
  show ?thesis using r matcher_frames [OF ex_matcher_ready r] by blast
qed

text \<open>
  C6: advancing the time ends, whatever is queued, moves the matcher's clock to the given time
  but never back, keeps the invariant (the hash table holds exactly the unmatched requests of
  the queue), and neither loses nor reorders packets.
\<close>

theorem advance_time_total:
  assumes "pm_ok pm" and "DNS_NO_TIME < time" and "DNS_NO_TIME < pm_current_time pm"
  shows "\<exists>pm'. dns_worker_packet_matcher_advance_time_to pm time = Some (Inr pm') \<and> pm_ok pm' \<and>
    pm_current_time pm' = max (pm_current_time pm) time \<and> stream pm' = stream pm \<and>
    set (pm_packet_queue pm') \<subseteq> set (pm_packet_queue pm) \<and> pm_heap pm' = pm_heap pm"
proof -
  from assms obtain pm' where "dns_worker_packet_matcher_advance_time_to pm time = Some (Inr pm')" "pm_ok pm'"
    "kept pm pm'" "pm_current_time pm' = max (pm_current_time pm) time"
    by (rule advance_time_to_ok)
  then show ?thesis by (intro exI [of _ pm']) (simp add: kept_def)
qed

theorem advance_time_total_witness:
  "\<exists>pm pm'. dns_worker_packet_matcher_create 1000003 0 ex_heap3 dns_collector_conf_init ex_frames True = Inr pm \<and>
    dns_worker_packet_matcher_advance_time_to (started pm (hd ex_frames)) 1000000 = Some (Inr pm') \<and>
    pm_current_time pm' = 1000000"
proof -
  obtain pm where c: "dns_worker_packet_matcher_create 1000003 0 ex_heap3 dns_collector_conf_init ex_frames True = Inr pm"
    "idle pm" using matcher_create_ok [OF ex_matcher_ready] by metis
  have "DNS_NO_TIME < time_start (hd ex_frames)" by (simp add: ex_frames_def DNS_NO_TIME_def)
  from started_running(1) [OF c(2) this]
  have s: "pm_ok (started pm (hd ex_frames))" "DNS_NO_TIME < pm_current_time (started pm (hd ex_frames))"
    by (simp_all add: running_def)
  have t: "pm_current_time (started pm (hd ex_frames)) = 10" by (simp add: started_def ex_frames_def)
  have "DNS_NO_TIME < 1000000" by (simp add: DNS_NO_TIME_def)
  from advance_time_total [OF s(1) this s(2)] c(1) t show ?thesis by auto
qed


end
