(* ===== verification/Dump.thy ===== *)
theory Dump
  imports Dns_Config Dns_Packet
begin

text \<open>
  \<^verbatim>\<open>src/dump.h\<close> and \<^verbatim>\<open>src/dump.c\<close>: the packets that cannot be parsed are written to rotated
  pcap files, limited by a token bucket. libtrace is the parameter \<open>dump_env\<close>: what its calls
  return during one operation. A floating-point number is a rational. An open trace is the
  list of the packets written to it with the sizes libtrace reported, \<open>dd_files\<close> are the traces
  closed so far.
\<close>

section \<open>The dumper\<close>

record libtrace_out =
  lo_uri :: "u8 list"
  lo_packets :: "(libtrace_packet \<times> int) list"

text \<open>
  What the libraries answer: \<open>strftime\<close>, whether creating the output fails, the results of the
  two \<open>trace_config_output\<close> calls, the result of \<open>trace_write_packet\<close>, and the clock.
\<close>

record dump_env =
  de_strftime :: "nat \<Rightarrow> u8 list \<Rightarrow> int \<Rightarrow> u8 list"
  de_create_err :: bool
  de_config_type :: int
  de_config_level :: int
  de_write :: int
  de_clock :: timespec

record dns_dump =
  dd_period_sec :: int
  dd_path_fmt :: "u8 list"
  dd_uri :: "u8 list option"
  dd_trace :: "libtrace_out option"
  dd_opened :: int
  dd_compress_type :: trace_compresstype
  dd_compress_level :: int
  dd_rate :: rat
  dd_tokens :: rat
  dd_last_event :: int
  dd_current_dumped :: u64
  dd_current_bytes :: u64
  dd_current_skipped :: u64
  dd_files :: "libtrace_out list"

definition DUMP_BURST_MULT :: rat where
  "DUMP_BURST_MULT = 10"

definition DNS_OUTPUT_FILENAME_EXTRA :: nat where
  "DNS_OUTPUT_FILENAME_EXTRA = 64"

definition dns_dump_create :: "dns_config \<Rightarrow> dns_dump res" where
  "dns_dump_create conf =
     (let i = dump_compress_type conf in
      if 0 \<le> i \<and> nat i < length dns_dump_compress_types_num then
        Inr \<lparr>dd_period_sec = dump_period_sec conf, dd_path_fmt = dump_path_fmt conf, dd_uri = None,
          dd_trace = None, dd_opened = 0,
          dd_compress_type = dns_dump_compress_types_num ! nat i,
          dd_compress_level = dump_compress_level conf, dd_rate = dump_rate_limit conf,
          dd_tokens = DUMP_BURST_MULT * dump_rate_limit conf, dd_last_event = DNS_NO_TIME,
          dd_current_dumped = 0, dd_current_bytes = 0, dd_current_skipped = 0, dd_files = []\<rparr>
      else Inl (Bad_pointer ''dns_dump_compress_types_num''))"

definition dns_dump_close :: "dns_dump \<Rightarrow> dns_dump res" where
  "dns_dump_close dump =
     (case dd_trace dump of
        None \<Rightarrow> Inr dump
      | Some tr \<Rightarrow>
          bindr (assertr (dd_uri dump \<noteq> None) ''dump->uri'') (\<lambda>_.
            Inr (dump\<lparr>dd_files := dd_files dump @ [tr], dd_trace := None, dd_uri := None\<rparr>)))"

text \<open>The bytes of \<open>"pcapfile:"\<close>.\<close>

definition pcapfile_prefix :: "u8 list" where
  "pcapfile_prefix = [112, 99, 97, 112, 102, 105, 108, 101, 58]"

definition dns_dump_open :: "dump_env \<Rightarrow> dns_dump \<Rightarrow> int \<Rightarrow> (dns_ret \<times> dns_dump) res" where
  "dns_dump_open E dump time =
     bindr (assertr (dd_trace dump = None) ''dump && !dump->trace && dump->path_fmt'') (\<lambda>_.
       let path_len = length (dd_path_fmt dump) + DNS_OUTPUT_FILENAME_EXTRA + 10 in
       bindr (dns_us_time_strftime (de_strftime E) (path_len - length pcapfile_prefix)
                (dd_path_fmt dump) time) (\<lambda>name.
       if name = [] then Inl (Died ''Expanded filename expansion too long.'')
       else
         let dump = dump\<lparr>dd_uri := Some (pcapfile_prefix @ name)\<rparr> in
         if de_create_err E then Inr (DNS_RET_ERR, dump)
         else if dd_compress_level dump > 0 \<and> dd_compress_type dump \<noteq> TRACE_OPTION_COMPRESSTYPE_NONE \<and>
                 (de_config_type E < 0 \<or> de_config_level E < 0)
         then Inr (DNS_RET_ERR, dump)
         else Inr (DNS_RET_OK, dump\<lparr>
           dd_trace := Some \<lparr>lo_uri = pcapfile_prefix @ name, lo_packets = []\<rparr>,
           dd_tokens := DUMP_BURST_MULT * dd_rate dump, dd_last_event := time, dd_opened := time,
           dd_current_dumped := 0, dd_current_skipped := 0, dd_current_bytes := 0\<rparr>)))"

text \<open>\<open>dns_dump_destroy\<close> frees the dumper; a trace must not be open.\<close>

definition dns_dump_destroy :: "dns_dump \<Rightarrow> unit res" where
  "dns_dump_destroy dump = assertr (dd_trace dump = None) ''dump && !dump->trace''"

text \<open>
  The rate limit at the beginning of \<open>dns_dump_packet\<close>: the tokens grow with the time up to the
  burst; with less than none the packet is skipped (\<open>True\<close>).
\<close>

definition dump_rate_limited :: "dns_dump \<Rightarrow> int \<Rightarrow> (bool \<times> dns_dump) res" where
  "dump_rate_limited dump time =
     (if dd_rate dump > 1 / 1000000 then
        bindr (dns_us_time_to_fsec (time - dd_last_event dump)) (\<lambda>sec.
          let tokens = min (dd_tokens dump + dd_rate dump * sec) (DUMP_BURST_MULT * dd_rate dump);
              dump = dump\<lparr>dd_tokens := tokens, dd_last_event := time\<rparr> in
          if tokens < 0
          then Inr (True, dump\<lparr>dd_current_skipped := dd_current_skipped dump + 1\<rparr>)
          else Inr (False, dump))
      else Inr (False, dump))"

text \<open>Writing the packet to the open trace, the end of \<open>dns_dump_packet\<close>.\<close>

definition dump_write :: "dump_env \<Rightarrow> dns_dump \<Rightarrow> libtrace_packet \<Rightarrow> (dns_ret \<times> dns_dump) res" where
  "dump_write E dump packet =
     (case dd_trace dump of
        None \<Rightarrow> Inl (Bad_pointer ''dump->trace'')
      | Some tr \<Rightarrow>
          if de_write E \<le> 0 then Inr (DNS_RET_ERR, dump)
          else Inr (DNS_RET_OK, dump\<lparr>
            dd_trace := Some (tr\<lparr>lo_packets := lo_packets tr @ [(packet, de_write E)]\<rparr>),
            dd_current_dumped := dd_current_dumped dump + 1,
            dd_current_bytes := dd_current_bytes dump + word_of_int (de_write E),
            dd_tokens := dd_tokens dump - of_int (de_write E)\<rparr>))"

text \<open>Rotation and opening of a new dump file, then the write.\<close>

definition dump_rotate_write ::
    "dump_env \<Rightarrow> dns_dump \<Rightarrow> int \<Rightarrow> libtrace_packet \<Rightarrow> (dns_ret \<times> dns_dump) res" where
  "dump_rotate_write E dump time packet =
     bindr (if dd_trace dump \<noteq> None \<and> dd_period_sec dump > 0 \<and>
               dns_next_rotation (de_clock E) (dd_period_sec dump) (dd_opened dump) time
            then dns_dump_close dump else Inr dump) (\<lambda>dump.
     if dd_trace dump = None then
       bindr (dns_dump_open E dump time) (\<lambda>(r, dump).
         if r \<noteq> DNS_RET_OK then Inr (r, dump) else dump_write E dump packet)
     else dump_write E dump packet)"

text \<open>The event time of a dumped packet: never before the last event.\<close>

definition dump_first_event :: "dns_dump \<Rightarrow> libtrace_packet \<Rightarrow> dns_dump" where
  "dump_first_event dump packet =
     (if dd_last_event dump = DNS_NO_TIME
      then dump\<lparr>dd_last_event := dns_us_time_from_timespec (lt_timespec packet)\<rparr> else dump)"

definition dns_dump_packet ::
    "dump_env \<Rightarrow> dns_dump \<Rightarrow> libtrace_packet \<Rightarrow> (dns_ret \<times> dns_dump) res" where
  "dns_dump_packet E dump packet =
     (let time = dns_us_time_from_timespec (lt_timespec packet);
          dump = dump_first_event dump packet;
          time = max time (dd_last_event dump) in
      bindr (dump_rate_limited dump time) (\<lambda>(limited, dump).
        if limited then Inr (DNS_RET_OK, dump) else dump_rotate_write E dump time packet))"

section \<open>Invariant\<close>

text \<open>
  An open trace has its name; the tokens left and the bytes written together never exceed the
  burst plus what the rate has granted since the trace was opened; the tokens are never further
  below zero than the size of one packet.
\<close>

definition trace_bytes :: "libtrace_out \<Rightarrow> int" where
  "trace_bytes tr = sum_list (map snd (lo_packets tr))"

definition granted :: "dns_dump \<Rightarrow> rat" where
  "granted dump = DUMP_BURST_MULT * dd_rate dump +
     dd_rate dump * (of_int (dd_last_event dump - dd_opened dump) / 1000000)"

definition limiting :: "dns_dump \<Rightarrow> bool" where
  "limiting dump \<longleftrightarrow> dd_rate dump > 1 / 1000000"

definition dump_inv :: "int \<Rightarrow> dns_dump \<Rightarrow> bool" where
  "dump_inv M dump \<longleftrightarrow> (limiting dump \<longrightarrow> - of_int M \<le> dd_tokens dump) \<and>
     (case dd_trace dump of
        None \<Rightarrow> True
      | Some tr \<Rightarrow> dd_uri dump = Some (lo_uri tr) \<and>
          (limiting dump \<longrightarrow> dd_tokens dump + of_int (trace_bytes tr) \<le> granted dump))"

lemma trace_bytes_simps [simp]:
  "trace_bytes \<lparr>lo_uri = u, lo_packets = []\<rparr> = 0"
  "trace_bytes (tr\<lparr>lo_packets := lo_packets tr @ [(p, n)]\<rparr>) = trace_bytes tr + n"
  by (simp_all add: trace_bytes_def)

lemma dump_create_inv: "0 \<le> M \<Longrightarrow> dns_dump_create conf = Inr dump \<Longrightarrow> dump_inv M dump \<and> dd_trace dump = None"
  by (auto simp: dns_dump_create_def Let_def dump_inv_def limiting_def DUMP_BURST_MULT_def split: if_splits)

lemma dump_close_inv:
  assumes "dump_inv M dump"
  shows "\<exists>d. dns_dump_close dump = Inr d \<and> dump_inv M d \<and> dd_trace d = None \<and>
    dd_files d = dd_files dump @ (case dd_trace dump of None \<Rightarrow> [] | Some tr \<Rightarrow> [tr])"
  using assms by (auto simp: dns_dump_close_def dump_inv_def limiting_def split: option.splits)

lemma dump_open_inv:
  assumes "dump_inv M dump" and "dns_dump_open E dump time = Inr (r, d)" and "0 \<le> M"
  shows "dump_inv M d" and "r = DNS_RET_OK \<Longrightarrow> dd_trace d \<noteq> None \<and> (limiting d \<longrightarrow> 0 \<le> dd_tokens d)"
    and "dd_files d = dd_files dump"
  using assms
  by (auto simp: dns_dump_open_def Let_def res_simps dns_us_time_strftime_def dump_inv_def limiting_def
      granted_def DUMP_BURST_MULT_def split: if_splits)

lemma dump_write_inv:
  assumes "dump_inv M dump" and "dump_write E dump p = Inr (r, d)" and "de_write E \<le> M"
    and "limiting dump \<Longrightarrow> 0 \<le> dd_tokens dump"
  shows "dump_inv M d" and "dd_files d = dd_files dump"
proof -
  have M: "(of_int (de_write E) :: rat) \<le> of_int M" using assms(3) by simp
  show "dump_inv M d"
    using assms M by (auto simp: dump_write_def dump_inv_def limiting_def granted_def split: option.splits if_splits)
  show "dd_files d = dd_files dump"
    using assms(2) by (auto simp: dump_write_def split: option.splits if_splits)
qed

lemma rate_limited_inv:
  assumes "dump_inv M dump" and "dump_rate_limited dump time = Inr (limited, d)" and "0 \<le> M"
    and "dd_last_event dump \<le> time"
  shows "dump_inv M d" and "\<not> limited \<Longrightarrow> limiting d \<Longrightarrow> 0 \<le> dd_tokens d"
    and "dd_trace d = dd_trace dump" and "dd_files d = dd_files dump"
proof -
  have eq: "dd_rate d = dd_rate dump" "dd_uri d = dd_uri dump" "dd_opened d = dd_opened dump"
    "dd_trace d = dd_trace dump" "dd_files d = dd_files dump"
    using assms(2) by (auto simp: dump_rate_limited_def res_simps Let_def split: if_splits)
  then show "dd_trace d = dd_trace dump" "dd_files d = dd_files dump" by simp_all
  show "\<not> limited \<Longrightarrow> limiting d \<Longrightarrow> 0 \<le> dd_tokens d"
    using assms(2) by (auto simp: dump_rate_limited_def limiting_def res_simps Let_def split: if_splits)
  show "dump_inv M d"
  proof (cases "limiting dump")
    case False
    then show ?thesis using assms(1) eq by (simp add: dump_inv_def limiting_def split: option.splits)
  next
    case True
    let ?sec = "of_int (time - dd_last_event dump) / 1000000 :: rat"
    have rate: "0 \<le> dd_rate dump" and sec: "0 \<le> ?sec"
      using True assms(4) by (simp_all add: limiting_def)
    have t: "dd_tokens d = min (dd_tokens dump + dd_rate dump * ?sec) (DUMP_BURST_MULT * dd_rate dump)"
      and l: "dd_last_event d = time"
      using assms(2) True by (auto simp: dump_rate_limited_def limiting_def dns_us_time_to_fsec_def res_simps
          Let_def split: if_splits)
    have "- of_int M \<le> dd_tokens dump" using assms(1) True by (simp add: dump_inv_def)
    moreover have "0 \<le> dd_rate dump * ?sec" using rate sec by (rule mult_nonneg_nonneg)
    moreover have "0 \<le> DUMP_BURST_MULT * dd_rate dump" using rate by (simp add: DUMP_BURST_MULT_def)
    moreover have "(- of_int M :: rat) \<le> 0" using assms(3) by simp
    ultimately have low: "- of_int M \<le> dd_tokens d" unfolding t by linarith
    have "granted d = granted dump + dd_rate dump * ?sec"
      using eq l by (simp add: granted_def algebra_simps diff_divide_distrib)
    moreover have "dd_tokens d \<le> dd_tokens dump + dd_rate dump * ?sec" unfolding t by simp
    ultimately show ?thesis
      using assms(1) eq low True by (auto simp: dump_inv_def limiting_def split: option.splits)
  qed
qed

lemma rotate_write_inv:
  assumes inv: "dump_inv M dump" and run: "dump_rotate_write E dump time p = Inr (r, d)"
    and M: "0 \<le> M" "de_write E \<le> M" and tok: "limiting dump \<Longrightarrow> 0 \<le> dd_tokens dump"
  shows "dump_inv M d"
proof -
  from run obtain d2 where c: "(if dd_trace dump \<noteq> None \<and> dd_period_sec dump > 0 \<and>
               dns_next_rotation (de_clock E) (dd_period_sec dump) (dd_opened dump) time
            then dns_dump_close dump else Inr dump) = Inr d2"
    and k: "(if dd_trace d2 = None then
       bindr (dns_dump_open E d2 time) (\<lambda>(r, dump).
         if r \<noteq> DNS_RET_OK then Inr (r, dump) else dump_write E dump p)
     else dump_write E d2 p) = Inr (r, d)"
    unfolding dump_rotate_write_def bindr_Inr_iff by blast
  have d2: "dump_inv M d2" "dd_trace d2 \<noteq> None \<Longrightarrow> d2 = dump"
    using c inv dump_close_inv [OF inv] by (auto split: if_splits)
  show ?thesis
  proof (cases "dd_trace d2 = None")
    case True
    then obtain r3 d3 where o: "dns_dump_open E d2 time = Inr (r3, d3)"
      and "(if r3 \<noteq> DNS_RET_OK then Inr (r3, d3) else dump_write E d3 p) = Inr (r, d)"
      using k by (auto simp: bindr_Inr_iff)
    then show ?thesis
      using dump_open_inv [OF d2(1) o M(1)] dump_write_inv(1) [of M d3 E p r d] M(2) by (auto split: if_splits)
  next
    case False
    then have "dump_write E dump p = Inr (r, d)" using k d2(2) by (auto split: if_splits)
    then show ?thesis using dump_write_inv(1) [OF inv _ M(2) tok] by blast
  qed
qed

lemma first_event_inv:
  assumes "dump_inv M dump" and "DNS_NO_TIME < dns_us_time_from_timespec (lt_timespec p)"
  shows "dump_inv M (dump_first_event dump p)"
proof (cases "dd_last_event dump = DNS_NO_TIME \<and> limiting dump")
  case True
  then have "granted dump \<le> granted (dump_first_event dump p)"
    using assms(2) by (simp add: dump_first_event_def granted_def limiting_def mult_left_mono divide_right_mono)
  then show ?thesis
    using assms(1) True by (auto simp: dump_inv_def dump_first_event_def limiting_def split: option.splits)
next
  case False
  then show ?thesis
    using assms(1) by (auto simp: dump_inv_def dump_first_event_def limiting_def split: option.splits)
qed

lemma dump_packet_inv:
  assumes inv: "dump_inv M dump" and run: "dns_dump_packet E dump p = Inr (r, d)"
    and M: "0 \<le> M" "de_write E \<le> M" and time: "DNS_NO_TIME < dns_us_time_from_timespec (lt_timespec p)"
  shows "dump_inv M d"
proof -
  let ?d = "dump_first_event dump p"
  let ?t = "max (dns_us_time_from_timespec (lt_timespec p)) (dd_last_event ?d)"
  obtain lim d1 where rl: "dump_rate_limited ?d ?t = Inr (lim, d1)"
    and k: "(if lim then Inr (DNS_RET_OK, d1) else dump_rotate_write E d1 ?t p) = Inr (r, d)"
    using run by (auto simp: dns_dump_packet_def Let_def bindr_Inr_iff)
  note d1 = rate_limited_inv [OF first_event_inv [OF inv time] rl M(1)]
  show ?thesis
    using k d1(1,2) rotate_write_inv [OF _ _ M, of d1 ?t p r d] by (cases lim) simp_all
qed

text \<open>Dumping returns, as long as the file name can be expanded.\<close>

lemma dump_write_returns: "dd_trace dump \<noteq> None \<Longrightarrow> \<exists>r d. dump_write E dump p = Inr (r, d)"
  by (auto simp: dump_write_def)

lemma dump_open_returns:
  assumes "dd_trace dump = None" and "time \<noteq> DNS_NO_TIME" and "\<And>n f t. de_strftime E n f t \<noteq> []"
  shows "\<exists>r d. dns_dump_open E dump time = Inr (r, d) \<and> (r = DNS_RET_OK \<longrightarrow> dd_trace d \<noteq> None)"
  using assms by (simp add: dns_dump_open_def dns_us_time_strftime_def Let_def)

lemma rotate_write_returns:
  assumes "dump_inv M dump" and "time \<noteq> DNS_NO_TIME" and "\<And>n f t. de_strftime E n f t \<noteq> []"
  shows "\<exists>r d. dump_rotate_write E dump time p = Inr (r, d)"
proof -
  let ?c = "dd_trace dump \<noteq> None \<and> dd_period_sec dump > 0 \<and>
    dns_next_rotation (de_clock E) (dd_period_sec dump) (dd_opened dump) time"
  obtain d2 where d2: "(if ?c then dns_dump_close dump else Inr dump) = Inr d2"
    using dump_close_inv [OF assms(1)] by (cases ?c) auto
  show ?thesis
  proof (cases "dd_trace d2 = None")
    case True
    obtain r3 d3 where "dns_dump_open E d2 time = Inr (r3, d3)" "r3 = DNS_RET_OK \<longrightarrow> dd_trace d3 \<noteq> None"
      using dump_open_returns [OF True assms(2,3)] by blast
    then show ?thesis
      unfolding dump_rotate_write_def d2 using True dump_write_returns [of d3 E p] by (cases "r3 = DNS_RET_OK") auto
  next
    case False
    then show ?thesis unfolding dump_rotate_write_def d2 using dump_write_returns [of d2 E p] by auto
  qed
qed

lemma rate_limited_returns:
  "time - dd_last_event dump \<noteq> DNS_NO_TIME \<Longrightarrow> \<exists>lim d. dump_rate_limited dump time = Inr (lim, d)"
  by (simp add: dump_rate_limited_def dns_us_time_to_fsec_def Let_def) blast

lemma dump_packet_returns:
  assumes inv: "dump_inv M dump" and M: "0 \<le> M" and time: "DNS_NO_TIME < dns_us_time_from_timespec (lt_timespec p)"
    and str: "\<And>n f t. de_strftime E n f t \<noteq> []"
  shows "\<exists>r d. dns_dump_packet E dump p = Inr (r, d)"
proof -
  let ?d = "dump_first_event dump p"
  let ?t = "max (dns_us_time_from_timespec (lt_timespec p)) (dd_last_event ?d)"
  have "?t - dd_last_event ?d \<noteq> DNS_NO_TIME" by (simp add: DNS_NO_TIME_def max_def)
  then obtain lim d1 where rl: "dump_rate_limited ?d ?t = Inr (lim, d1)"
    using rate_limited_returns by blast
  have "dump_inv M d1" using rate_limited_inv(1) [OF first_event_inv [OF inv time] rl M] by simp
  then have "\<exists>r d. dump_rotate_write E d1 ?t p = Inr (r, d)"
    by (rule rotate_write_returns) (use time str in auto)
  then show ?thesis using rl by (auto simp: dns_dump_packet_def Let_def)
qed

section \<open>Properties\<close>

text \<open>A sequence of dumped packets.\<close>

fun dump_all :: "(dump_env \<times> libtrace_packet) list \<Rightarrow> dns_dump \<Rightarrow> dns_dump res" where
  "dump_all [] dump = Inr dump"
| "dump_all ((E, p) # calls) dump = bindr (dns_dump_packet E dump p) (\<lambda>(r, d). dump_all calls d)"

definition dump_calls_ok :: "int \<Rightarrow> (dump_env \<times> libtrace_packet) list \<Rightarrow> bool" where
  "dump_calls_ok M calls \<longleftrightarrow> 0 \<le> M \<and> (\<forall>(E, p) \<in> set calls. de_write E \<le> M \<and>
     (\<forall>n f t. de_strftime E n f t \<noteq> []) \<and> DNS_NO_TIME < dns_us_time_from_timespec (lt_timespec p))"

lemma dump_all_inv:
  assumes "dump_inv M dump" and "dump_calls_ok M calls"
  shows "\<exists>d. dump_all calls dump = Inr d \<and> dump_inv M d"
  using assms
proof (induction calls arbitrary: dump)
  case (Cons c calls)
  obtain E p where c: "c = (E, p)" by force
  have ok: "0 \<le> M" "de_write E \<le> M" "DNS_NO_TIME < dns_us_time_from_timespec (lt_timespec p)"
    "\<And>n f t. de_strftime E n f t \<noteq> []" "dump_calls_ok M calls"
    using Cons.prems(2) by (auto simp: dump_calls_ok_def c)
  obtain r d where d: "dns_dump_packet E dump p = Inr (r, d)"
    using dump_packet_returns [OF Cons.prems(1) ok(1,3,4)] by blast
  have "dump_inv M d" using dump_packet_inv [OF Cons.prems(1) d ok(1-3)] .
  then show ?case using Cons.IH [of d] ok(5) d by (simp add: c)
qed simp

text \<open>
  C17: the rate limit of the dump works: whatever packets are dumped and however libtrace
  answers, dumping returns, and the current file holds at most the burst of ten seconds plus the
  rate times the time since the file was opened, plus the size of one packet.
\<close>

theorem dump_rate_bounded:
  assumes "dns_dump_create conf = Inr dump" and "dump_calls_ok M calls"
  shows "\<exists>d. dump_all calls dump = Inr d \<and> (\<forall>tr. dd_trace d = Some tr \<and> dd_rate d > 1 / 1000000 \<longrightarrow>
    of_int (trace_bytes tr) \<le> 10 * dd_rate d +
      dd_rate d * (of_int (dd_last_event d - dd_opened d) / 1000000) + of_int M)"
proof -
  have "0 \<le> M" using assms(2) by (simp add: dump_calls_ok_def)
  then obtain d where d: "dump_all calls dump = Inr d" "dump_inv M d"
    using dump_all_inv [OF _ assms(2)] dump_create_inv [OF _ assms(1)] by blast
  have "of_int (trace_bytes tr) \<le> granted d + of_int M" if "dd_trace d = Some tr" "limiting d" for tr
    using d(2) that by (auto simp: dump_inv_def)
  then show ?thesis using d(1) by (auto simp: granted_def limiting_def DUMP_BURST_MULT_def)
qed

definition ex_dump_env :: "int \<Rightarrow> dump_env" where
  "ex_dump_env n = \<lparr>de_strftime = (\<lambda>_ fmt _. 100 # fmt), de_create_err = False, de_config_type = 0,
     de_config_level = 0, de_write = n, de_clock = \<lparr>ts_sec = 0, ts_nsec = 0\<rparr>\<rparr>"

definition ex_dump_conf :: dns_config where
  "ex_dump_conf = dns_collector_conf_init\<lparr>dump_path_fmt := [102], dump_rate_limit := 100\<rparr>"

theorem dump_rate_bounded_witness:
  "\<exists>dump d. dns_dump_create ex_dump_conf = Inr dump \<and>
    dump_all [(ex_dump_env 1500, ex_trace 17 []), (ex_dump_env 1500, ex_trace 17 [])] dump = Inr d \<and>
    (\<forall>tr. dd_trace d = Some tr \<and> dd_rate d > 1 / 1000000 \<longrightarrow>
      of_int (trace_bytes tr) \<le> 10 * dd_rate d +
        dd_rate d * (of_int (dd_last_event d - dd_opened d) / 1000000) + of_int 1500)"
proof -
  let ?calls = "[(ex_dump_env 1500, ex_trace 17 []), (ex_dump_env 1500, ex_trace 17 [])]"
  have c: "\<exists>dump. dns_dump_create ex_dump_conf = Inr dump"
    by (simp add: dns_dump_create_def ex_dump_conf_def dns_collector_conf_init_def dns_dump_compress_types_num_def)
  have "dump_calls_ok 1500 ?calls"
    by (simp add: dump_calls_ok_def ex_dump_env_def ex_trace_def dns_us_time_from_timespec_def DNS_NO_TIME_def)
  then show ?thesis using c dump_rate_bounded [of ex_dump_conf _ 1500 ?calls] by blast
qed

end
