(* ===== verification/Input.thy ===== *)
theory Input
  imports Packet_Matcher Dump
begin

text \<open>
  \<^verbatim>\<open>src/input.h\<close> and \<^verbatim>\<open>src/input.c\<close>: the input thread. It reads packets from libtrace, collects
  them into frames of a limited duration and size, and sends the frames to the matcher; packets
  that cannot be used go to the dumper.

  libtrace, the clock and libknot are parameters: \<open>input_env\<close> gives the clock at each of its
  readings and the dropped-packet counter, \<open>open_env\<close> the results of the calls that open a trace,
  and a list of observations what each round of the event loop sees. The queue is the list of
  the frames sent. A packet is allocated at the next unused address. Log messages are left out,
  the conversions evaluated for them (which can fail) are kept; the sleeps are left out.
\<close>

section \<open>The input\<close>

record dns_input =
  in_uri :: "u8 list"
  in_snaplen :: int
  in_promisc :: int
  in_bpf_string :: "u8 list option"
  in_online :: bool
  in_frame_max_duration :: int
  in_frame_max_size :: int
  in_real_time_grace :: int
  in_report_period_sec :: int
  in_last_report_time :: int
  in_total_packets_dropped :: u64
  in_total_packets_read :: u64
  in_total_bytes_read :: u64
  in_current_packets_dropped :: u64
  in_current_packets_read :: u64
  in_current_bytes_read :: u64
  in_bpf_filter :: bool
  in_trace :: bool
  in_packet :: bool
  in_frame :: "dns_packet_frame option"
  in_output :: "dns_packet_frame list"
  in_dumper :: "dns_dump option"
  in_heap :: heap
  in_next :: pid
  in_ticks :: nat

record input_env =
  ie_clock :: "nat \<Rightarrow> timespec"
  ie_dropped :: "nat \<Rightarrow> u64"
  ie_knot :: knot_lib

definition dns_input_create :: "heap \<Rightarrow> pid \<Rightarrow> dns_config \<Rightarrow> dns_input res" where
  "dns_input_create hp next conf =
     bindr (if dump_path_fmt conf \<noteq> [] then bindr (dns_dump_create conf) (\<lambda>d. Inr (Some d)) else Inr None) (\<lambda>dumper.
     Inr \<lparr>in_uri = input_uri conf, in_snaplen = input_snaplen conf, in_promisc = input_promiscuous conf,
       in_bpf_string = Some (input_filter conf), in_online = False,
       in_frame_max_duration = dns_fsec_to_us_time (max_frame_duration_sec conf),
       in_frame_max_size = max_frame_size conf,
       in_real_time_grace = dns_fsec_to_us_time (input_real_time_grace_sec conf),
       in_report_period_sec = report_period_sec conf, in_last_report_time = DNS_NO_TIME,
       in_total_packets_dropped = 0, in_total_packets_read = 0, in_total_bytes_read = 0,
       in_current_packets_dropped = 0, in_current_packets_read = 0, in_current_bytes_read = 0,
       in_bpf_filter = False, in_trace = False, in_packet = False,
       in_frame = Some (dns_packet_frame_create DNS_NO_TIME DNS_NO_TIME), in_output = [],
       in_dumper = dumper, in_heap = hp, in_next = next, in_ticks = 0\<rparr>)"

text \<open>\<open>dns_current_us_time\<close>: each reading of the clock is the next of the environment's.\<close>

definition current_us_time :: "input_env \<Rightarrow> dns_input \<Rightarrow> int \<times> dns_input" where
  "current_us_time E input =
     (dns_us_time_from_timespec (ie_clock E (in_ticks input)), input\<lparr>in_ticks := in_ticks input + 1\<rparr>)"

text \<open>The counters after a report.\<close>

definition dostat :: "dns_input \<Rightarrow> dns_input" where
  "dostat input = input\<lparr>
     in_total_packets_read := in_total_packets_read input + in_current_packets_read input,
     in_total_bytes_read := in_total_bytes_read input + in_current_bytes_read input,
     in_total_packets_dropped := in_total_packets_dropped input + in_current_packets_dropped input,
     in_current_packets_read := 0, in_current_bytes_read := 0, in_current_packets_dropped := 0\<rparr>"

text \<open>The times converted for the messages of a report.\<close>

definition report_messages :: "dns_input \<Rightarrow> int \<Rightarrow> unit res" where
  "report_messages input now =
     bindr (if in_last_report_time input \<noteq> DNS_NO_TIME
            then dns_us_time_to_fsec (now - in_last_report_time input) else Inr 0) (\<lambda>_.
     case in_frame input of
       Some f \<Rightarrow> if in_online input
         then bindr (dns_us_time_to_fsec (now - time_end f)) (\<lambda>_.
           bindr (dns_us_time_to_fsec (in_real_time_grace input + in_frame_max_duration input)) (\<lambda>_. Inr ()))
         else Inr ()
     | None \<Rightarrow> Inr ())"

definition report_dropped :: "input_env \<Rightarrow> dns_input \<Rightarrow> dns_input" where
  "report_dropped E input =
     (let dropped = ie_dropped E (in_ticks input) in
      if in_trace input then input\<lparr>in_current_packets_dropped := (if dropped = - 1 then 0 else dropped)\<rparr>
      else input)"

definition dns_input_report :: "input_env \<Rightarrow> dns_input \<Rightarrow> bool \<Rightarrow> dns_input res" where
  "dns_input_report E input force =
     (let (now, input) = current_us_time E input in
      if \<not> force \<and> \<not> dns_next_rotation (ie_clock E (in_ticks input)) (in_report_period_sec input)
                     (in_last_report_time input) now
      then Inr input
      else
        let input = report_dropped E input in
        bindr (report_messages input now) (\<lambda>_. Inr ((dostat input)\<lparr>in_last_report_time := now\<rparr>)))"

definition dns_input_output_frame :: "input_env \<Rightarrow> dns_input \<Rightarrow> dns_input res" where
  "dns_input_output_frame E input =
     bindr (assertr (in_frame input \<noteq> None) ''input && input->frame'') (\<lambda>_.
     bindr (dns_input_report E input False) (\<lambda>input.
       case in_frame input of
         None \<Rightarrow> Inl (Bad_pointer ''input->frame'')
       | Some f \<Rightarrow> Inr (input\<lparr>in_output := in_output input @ [f],
           in_frame := Some (dns_packet_frame_create (time_end f) (time_end f))\<rparr>)))"

text \<open>The loop of \<open>dns_input_advance_time_to\<close>; it may not end if the frame duration is not positive.\<close>

partial_function (option) input_advance_loop :: "input_env \<Rightarrow> dns_input \<Rightarrow> int \<Rightarrow> dns_input run" where
  "input_advance_loop E input time =
     (case in_frame input of
        None \<Rightarrow> Some (Inl (Bad_pointer ''input->frame''))
      | Some f \<Rightarrow>
          if time_start f + in_frame_max_duration input \<le> time then
            bindo (Some (assertr (time_end f \<le> time_start f + in_frame_max_duration input)
              ''input->frame->time_end <= input->frame->time_start + input->frame_max_duration'')) (\<lambda>_.
            bindo (Some (dns_input_output_frame E (input\<lparr>in_frame :=
                Some (f\<lparr>time_end := time_start f + in_frame_max_duration input\<rparr>)\<rparr>))) (\<lambda>input.
            input_advance_loop E input time))
          else Some (Inr (input\<lparr>in_frame := Some (f\<lparr>time_end := max (time_end f) time\<rparr>)\<rparr>)))"

text \<open>The arguments of the warning about a time before the frame.\<close>

definition late_warning :: "dns_packet_frame \<Rightarrow> int \<Rightarrow> unit res" where
  "late_warning f time =
     (if time < time_start f - 1000
      then bindr (dns_us_time_to_fsec time) (\<lambda>_. bindr (dns_us_time_to_fsec (time_start f)) (\<lambda>_.
             bindr (dns_us_time_to_fsec (time_end f)) (\<lambda>_. Inr ())))
      else Inr ())"

definition frame_started :: "dns_packet_frame \<Rightarrow> int \<Rightarrow> dns_packet_frame" where
  "frame_started f time =
     (if time_start f = DNS_NO_TIME then f\<lparr>time_start := time, time_end := time\<rparr> else f)"

definition dns_input_advance_time_to :: "input_env \<Rightarrow> dns_input \<Rightarrow> int \<Rightarrow> dns_input run" where
  "dns_input_advance_time_to E input time =
     (case in_frame input of
        None \<Rightarrow> Some (Inl (Bad_pointer ''input->frame''))
      | Some f \<Rightarrow>
          bindo (Some (late_warning (frame_started f time) time)) (\<lambda>_.
            input_advance_loop E (input\<lparr>in_frame := Some (frame_started f time)\<rparr>) time))"

definition dns_input_finish :: "input_env \<Rightarrow> dns_input \<Rightarrow> dns_input res" where
  "dns_input_finish E input =
     bindr (dns_input_output_frame E input) (\<lambda>input.
       case in_frame input of
         None \<Rightarrow> Inl (Bad_pointer ''input->frame'')
       | Some f \<Rightarrow>
           let input = input\<lparr>in_output := in_output input @ [f\<lparr>frame_type := 1\<rparr>], in_frame := None\<rparr> in
           (case in_dumper input of
              None \<Rightarrow> Inr input
            | Some d \<Rightarrow> bindr (dns_dump_close d) (\<lambda>d. Inr (input\<lparr>in_dumper := Some d\<rparr>))))"

definition dns_input_destroy :: "dns_input \<Rightarrow> unit res" where
  "dns_input_destroy input =
     bindr (assertr (\<not> in_trace input \<and> \<not> in_packet input \<and> in_frame input = None)
       ''input && !input->trace && !input->packet && !input->frame'') (\<lambda>_.
     case in_dumper input of None \<Rightarrow> Inr () | Some d \<Rightarrow> dns_dump_destroy d)"

definition dns_input_trace_close :: "dns_input \<Rightarrow> dns_input res" where
  "dns_input_trace_close input =
     bindr (assertr (in_trace input \<and> in_packet input \<and> in_frame input \<noteq> None)
       ''input && input->trace && input->packet && input->frame'') (\<lambda>_.
     Inr (input\<lparr>in_bpf_filter := False, in_trace := False, in_packet := False\<rparr>))"

section \<open>Opening a trace\<close>

text \<open>
  What libtrace answers: whether \<open>trace_create\<close> set an error, the results of the calls of
  \<open>trace_config\<close> and \<open>trace_start\<close>, and whether the packet could be allocated.
\<close>

record open_env =
  oe_create_err :: bool
  oe_snaplen :: int
  oe_promisc :: int
  oe_filter :: int
  oe_start :: int
  oe_packet :: bool

definition open_config :: "open_env \<Rightarrow> dns_input \<Rightarrow> int" where
  "open_config Op input =
     (let r = (if in_snaplen input > 0 then oe_snaplen Op else 0) in
      if r = 0 \<and> in_promisc input \<noteq> 0 \<and> in_online input then oe_promisc Op else r)"

text \<open>From the filter on: the filter is created and set, the trace started.\<close>

definition open_start :: "open_env \<Rightarrow> dns_input \<Rightarrow> (dns_ret \<times> dns_input) res" where
  "open_start Op input =
     (let start = (\<lambda>input.
        if oe_start Op < 0 then Inr (DNS_RET_ERR, input\<lparr>in_bpf_filter := False, in_trace := False\<rparr>)
        else if \<not> oe_packet Op then Inl (Died ''FATAL: libtrace packet allocation error!'')
        else Inr (DNS_RET_OK, input\<lparr>in_packet := True\<rparr>)) in
      if in_bpf_string input \<noteq> None then
        bindr (assertr (\<not> in_bpf_filter input) ''!input->bpf_filter'') (\<lambda>_.
          if oe_filter Op < 0 then Inr (DNS_RET_ERR, input\<lparr>in_bpf_filter := True, in_trace := False\<rparr>)
          else start (input\<lparr>in_bpf_filter := True\<rparr>))
      else start input)"

definition dns_input_trace_open :: "input_env \<Rightarrow> open_env \<Rightarrow> dns_input \<Rightarrow> (dns_ret \<times> dns_input) run" where
  "dns_input_trace_open E Op input =
     bindo (Some (assertr (\<not> in_trace input \<and> \<not> in_packet input)
       ''input && input->uri && !input->trace && !input->packet'')) (\<lambda>_.
     if oe_create_err Op then Some (Inr (DNS_RET_ERR, input))
     else
       bindo (let input = input\<lparr>in_trace := True\<rparr> in
              if in_online input
              then let (now, input) = current_us_time E input in dns_input_advance_time_to E input now
              else Some (Inr input)) (\<lambda>input.
       if open_config Op input < 0 then Some (Inr (DNS_RET_ERR, input\<lparr>in_trace := False\<rparr>))
       else Some (open_start Op input)))"

section \<open>The event loop\<close>

text \<open>
  What one round of the loop sees: whether \<open>dns_global_stop\<close> is set, and otherwise the event. An
  event carries what libtrace and \<open>select\<close> answer while it is handled: the packet and the
  answers for the dumper; whether the trace ended with an error; whether \<open>select\<close> failed other
  than by an interrupt.
\<close>

datatype trace_event =
    Stop_requested
  | TRACE_EVENT_PACKET libtrace_packet dump_env
  | TRACE_EVENT_TERMINATE bool
  | TRACE_EVENT_SLEEP
  | TRACE_EVENT_IOWAIT bool
  | TRACE_EVENT_OTHER

text \<open>Giving a packet that was not accepted to the dumper.\<close>

definition dump_dropped :: "dump_env \<Rightarrow> dns_input \<Rightarrow> libtrace_packet \<Rightarrow> dns_input res" where
  "dump_dropped de input tp =
     (case in_dumper input of
        None \<Rightarrow> Inr input
      | Some d \<Rightarrow> bindr (dns_dump_packet de d tp) (\<lambda>(r, d).
          if r \<noteq> DNS_RET_OK
          then bindr (dns_dump_destroy d) (\<lambda>_. Inr (input\<lparr>in_dumper := None\<rparr>))
          else Inr (input\<lparr>in_dumper := Some d\<rparr>)))"

text \<open>Adding an accepted packet to the current frame, or to a new one if it would grow too big.\<close>

definition accept_packet :: "input_env \<Rightarrow> dns_input \<Rightarrow> dns_packet \<Rightarrow> dns_input run" where
  "accept_packet E input pkt =
     (let p = in_next input;
          input = input\<lparr>in_heap := (in_heap input)(p \<mapsto> pkt), in_next := p + 1\<rparr> in
      bindo (dns_input_advance_time_to E input (ts pkt)) (\<lambda>input.
      bindo (Some (case in_frame input of
          None \<Rightarrow> Inl (Bad_pointer ''input->frame'')
        | Some f \<Rightarrow>
            if fr_count f > 0 \<and> fr_size f + memory_size pkt > word_of_int (in_frame_max_size input)
            then dns_input_output_frame E input else Inr input)) (\<lambda>input.
      case in_frame input of
        None \<Rightarrow> Some (Inl (Bad_pointer ''input->frame''))
      | Some f \<Rightarrow> bindo (Some (dns_packet_frame_append_packet (in_heap input) f p)) (\<lambda>f.
          Some (Inr (input\<lparr>in_frame := Some f\<rparr>))))))"

definition dns_input_process_read_packet ::
    "input_env \<Rightarrow> dump_env \<Rightarrow> dns_input \<Rightarrow> libtrace_packet \<Rightarrow> dns_input run" where
  "dns_input_process_read_packet E de input tp =
     (let input = input\<lparr>in_current_packets_read := in_current_packets_read input + 1,
            in_current_bytes_read := in_current_bytes_read input + lt_wire_length tp\<rparr> in
      bindo (Some (dns_packet_create_from_libtrace (ie_knot E) tp)) (\<lambda>(r, pkt).
        if r \<noteq> DNS_RET_OK then Some (dump_dropped de input tp)
        else case pkt of
          None \<Rightarrow> Some (Inl (Assert_failed ''pkt != NULL''))
        | Some pkt \<Rightarrow> accept_packet E input pkt))"

definition dns_input_process_catch_real_time :: "input_env \<Rightarrow> dns_input \<Rightarrow> dns_input run" where
  "dns_input_process_catch_real_time E input =
     (if in_online input then
        let (now, input) = current_us_time E input in
        case in_frame input of
          None \<Rightarrow> Some (Inl (Bad_pointer ''input->frame''))
        | Some f \<Rightarrow>
            if now > time_end f + in_real_time_grace input
            then dns_input_advance_time_to E input (now - in_real_time_grace input)
            else Some (Inr input)
      else Some (Inr input))"

text \<open>One round of the loop: \<open>None\<close> goes on, \<open>Some r\<close> returns \<open>r\<close>.\<close>

definition report_and_close :: "input_env \<Rightarrow> dns_input \<Rightarrow> dns_ret \<Rightarrow> (dns_ret option \<times> dns_input) res" where
  "report_and_close E input r =
     bindr (dns_input_report E input True) (\<lambda>input.
     bindr (dns_input_trace_close input) (\<lambda>input. Inr (Some r, input)))"

fun input_round :: "input_env \<Rightarrow> dns_input \<Rightarrow> trace_event \<Rightarrow> (dns_ret option \<times> dns_input) run" where
  "input_round E input Stop_requested = Some (report_and_close E input DNS_RET_OK)"
| "input_round E input (TRACE_EVENT_PACKET tp de) =
     bindo (dns_input_process_read_packet E de input tp) (\<lambda>input. Some (Inr (None, input)))"
| "input_round E input (TRACE_EVENT_TERMINATE err) =
     Some (report_and_close E input (if err then DNS_RET_ERR else DNS_RET_OK))"
| "input_round E input TRACE_EVENT_SLEEP =
     bindo (dns_input_process_catch_real_time E input) (\<lambda>input. Some (Inr (None, input)))"
| "input_round E input (TRACE_EVENT_IOWAIT failed) =
     bindo (dns_input_process_catch_real_time E input) (\<lambda>input.
       if failed
       then bindo (Some (dns_input_trace_close input)) (\<lambda>input. Some (Inr (Some DNS_RET_ERR, input)))
       else Some (Inr (None, input)))"
| "input_round E input TRACE_EVENT_OTHER = Some (Inl (Died ''Unknown trace event''))"

text \<open>The loop of \<open>dns_input_process\<close>; with no more events it waits for ever.\<close>

fun input_loop :: "input_env \<Rightarrow> trace_event list \<Rightarrow> dns_input \<Rightarrow> (dns_ret \<times> dns_input) run" where
  "input_loop E [] input = Some (Inl Blocked)"
| "input_loop E (ev # evs) input =
     bindo (input_round E input ev) (\<lambda>(r, input).
       case r of None \<Rightarrow> input_loop E evs input | Some r \<Rightarrow> Some (Inr (r, input)))"

definition dns_input_process ::
    "input_env \<Rightarrow> open_env \<Rightarrow> trace_event list \<Rightarrow> dns_input \<Rightarrow> u8 list option \<Rightarrow> (dns_ret \<times> dns_input) run" where
  "dns_input_process E Op evs input offline_uri =
     bindo (Some (assertr (in_online input = (offline_uri = None)) ''(!!input->online) == (!offline_uri)'')) (\<lambda>_.
     let input = (case offline_uri of None \<Rightarrow> input | Some u \<Rightarrow> input\<lparr>in_uri := u\<rparr>) in
     bindo (dns_input_trace_open E Op input) (\<lambda>(r, input).
       if r \<noteq> DNS_RET_OK then Some (Inr (r, input))
       else
         let input = (if in_last_report_time input = DNS_NO_TIME
                      then (let (now, input) = current_us_time E input in input\<lparr>in_last_report_time := now\<rparr>)
                      else input) in
         input_loop E evs input))"

section \<open>Invariant\<close>

text \<open>
  The frames sent and the current frame: either no packet has come yet and the frame has no time,
  or the frames follow each other without a gap and each keeps its limits. All packets are new and
  different, and allocated below the next address.
\<close>

definition chain_ok :: "heap \<Rightarrow> int \<Rightarrow> int \<Rightarrow> dns_packet_frame list \<Rightarrow> dns_packet_frame \<Rightarrow> bool" where
  "chain_ok hp dur sz outs f \<longleftrightarrow>
     (if time_start f = DNS_NO_TIME then f = dns_packet_frame_create DNS_NO_TIME DNS_NO_TIME \<and> outs = []
      else contiguous outs (time_start f) \<and> time_end f < 2 ^ 62 \<and> (\<forall>g \<in> set (f # outs). frame_fine hp dur sz g))"

definition in_pids :: "dns_input \<Rightarrow> pid list" where
  "in_pids input = concat (map fr_packets (in_output input)) @
     (case in_frame input of None \<Rightarrow> [] | Some f \<Rightarrow> fr_packets f)"

definition pids_ok :: "dns_input \<Rightarrow> bool" where
  "pids_ok input \<longleftrightarrow> distinct (in_pids input) \<and>
     (\<forall>p \<in> set (in_pids input). fresh (in_heap input) p \<and> p < in_next input)"

definition clock_ok :: "input_env \<Rightarrow> bool" where
  "clock_ok E \<longleftrightarrow> (\<forall>n. 0 \<le> dns_us_time_from_timespec (ie_clock E n) \<and>
     dns_us_time_from_timespec (ie_clock E n) < 2 ^ 62)"

definition settings_ok :: "dns_input \<Rightarrow> bool" where
  "settings_ok input \<longleftrightarrow> 0 < in_frame_max_duration input \<and> 0 \<le> in_real_time_grace input \<and>
     in_real_time_grace input < 2 ^ 62 \<and>
     (in_last_report_time input = DNS_NO_TIME \<or> 0 \<le> in_last_report_time input \<and> in_last_report_time input < 2 ^ 62)"

definition input_inv :: "dns_input \<Rightarrow> bool" where
  "input_inv input \<longleftrightarrow> settings_ok input \<and> pids_ok input \<and>
     (case in_frame input of
        None \<Rightarrow> False
      | Some f \<Rightarrow> chain_ok (in_heap input) (in_frame_max_duration input) (in_frame_max_size input) (in_output input) f)"

text \<open>A report changes the clock and the counters only; the packets read in all are kept.\<close>

definition quiet :: "dns_input \<Rightarrow> dns_input" where
  "quiet input = input\<lparr>in_ticks := 0, in_last_report_time := 0,
     in_total_packets_dropped := 0, in_total_packets_read := 0, in_total_bytes_read := 0,
     in_current_packets_dropped := 0, in_current_packets_read := 0, in_current_bytes_read := 0\<rparr>"

definition reads :: "dns_input \<Rightarrow> u64 \<times> u64" where
  "reads input = (in_total_packets_read input + in_current_packets_read input,
     in_total_bytes_read input + in_current_bytes_read input)"

text \<open>What moving frames to the queue leaves alone.\<close>

definition unframed :: "dns_input \<Rightarrow> dns_input" where
  "unframed input = (quiet input)\<lparr>in_frame := None, in_output := []\<rparr>"

lemma quietD:
  assumes "quiet a = quiet b"
  shows "in_frame a = in_frame b" and "in_output a = in_output b" and "unframed a = unframed b"
proof -
  have "in_frame (quiet a) = in_frame (quiet b)" "in_output (quiet a) = in_output (quiet b)" by (simp_all add: assms)
  then show "in_frame a = in_frame b" "in_output a = in_output b" by (simp_all add: quiet_def)
  show "unframed a = unframed b" by (simp add: unframed_def assms)
qed

lemma unframedD:
  assumes "unframed a = unframed b"
  shows "in_heap a = in_heap b" and "in_next a = in_next b" and "in_frame_max_duration a = in_frame_max_duration b"
    and "in_frame_max_size a = in_frame_max_size b" and "in_real_time_grace a = in_real_time_grace b"
    and "in_online a = in_online b" and "in_trace a = in_trace b" and "in_packet a = in_packet b"
    and "in_bpf_filter a = in_bpf_filter b" and "in_dumper a = in_dumper b" and "in_bpf_string a = in_bpf_string b"
    and "in_snaplen a = in_snaplen b" and "in_promisc a = in_promisc b"
proof -
  have "in_heap (unframed a) = in_heap (unframed b)" "in_next (unframed a) = in_next (unframed b)"
    "in_frame_max_duration (unframed a) = in_frame_max_duration (unframed b)"
    "in_frame_max_size (unframed a) = in_frame_max_size (unframed b)"
    "in_real_time_grace (unframed a) = in_real_time_grace (unframed b)"
    "in_online (unframed a) = in_online (unframed b)" "in_trace (unframed a) = in_trace (unframed b)"
    "in_packet (unframed a) = in_packet (unframed b)" "in_bpf_filter (unframed a) = in_bpf_filter (unframed b)"
    "in_dumper (unframed a) = in_dumper (unframed b)" "in_bpf_string (unframed a) = in_bpf_string (unframed b)"
    "in_snaplen (unframed a) = in_snaplen (unframed b)" "in_promisc (unframed a) = in_promisc (unframed b)"
    by (simp_all add: assms)
  then show "in_heap a = in_heap b" "in_next a = in_next b" "in_frame_max_duration a = in_frame_max_duration b"
    "in_frame_max_size a = in_frame_max_size b" "in_real_time_grace a = in_real_time_grace b"
    "in_online a = in_online b" "in_trace a = in_trace b" "in_packet a = in_packet b"
    "in_bpf_filter a = in_bpf_filter b" "in_dumper a = in_dumper b" "in_bpf_string a = in_bpf_string b"
    "in_snaplen a = in_snaplen b" "in_promisc a = in_promisc b"
    by (simp_all add: unframed_def quiet_def)
qed

text \<open>The current frame's end is a time that the report can subtract.\<close>

definition end_ok :: "dns_input \<Rightarrow> bool" where
  "end_ok input \<longleftrightarrow> (case in_frame input of None \<Rightarrow> True | Some f \<Rightarrow> time_end f < 2 ^ 62)"

lemma report_messages_returns:
  assumes "settings_ok input" and "end_ok input" and "0 \<le> now" and "now < 2 ^ 62"
  shows "report_messages input now = Inr ()"
proof -
  have "in_last_report_time input = DNS_NO_TIME \<or> now - in_last_report_time input \<noteq> DNS_NO_TIME"
    "in_real_time_grace input + in_frame_max_duration input \<noteq> DNS_NO_TIME"
    "\<forall>f. in_frame input = Some f \<longrightarrow> now - time_end f \<noteq> DNS_NO_TIME"
    using assms by (auto simp: settings_ok_def end_ok_def DNS_NO_TIME_def split: option.splits)
  then show ?thesis by (auto simp: report_messages_def to_fsec_returns split: option.splits)
qed

lemma report_dropped_kept:
  "settings_ok (report_dropped E input) = settings_ok input" "end_ok (report_dropped E input) = end_ok input"
  "quiet (report_dropped E input) = quiet input" "reads (report_dropped E input) = reads input"
  by (simp_all add: report_dropped_def Let_def settings_ok_def end_ok_def quiet_def reads_def)

lemma ticks_kept:
  "settings_ok (input\<lparr>in_ticks := n\<rparr>) = settings_ok input" "end_ok (input\<lparr>in_ticks := n\<rparr>) = end_ok input"
  "quiet (input\<lparr>in_ticks := n\<rparr>) = quiet input" "reads (input\<lparr>in_ticks := n\<rparr>) = reads input"
  by (simp_all add: settings_ok_def end_ok_def quiet_def reads_def)

lemma dostat_kept:
  "quiet ((dostat input)\<lparr>in_last_report_time := now\<rparr>) = quiet input"
  "reads ((dostat input)\<lparr>in_last_report_time := now\<rparr>) = reads input"
  "settings_ok input \<Longrightarrow> 0 \<le> now \<Longrightarrow> now < 2 ^ 62 \<Longrightarrow> settings_ok ((dostat input)\<lparr>in_last_report_time := now\<rparr>)"
  by (simp_all add: dostat_def settings_ok_def quiet_def reads_def)

lemma report_ok:
  assumes "clock_ok E" and "settings_ok input" and "end_ok input"
  shows "\<exists>input'. dns_input_report E input force = Inr input' \<and> quiet input' = quiet input \<and>
    reads input' = reads input \<and> settings_ok input'"
proof -
  define now where "now = dns_us_time_from_timespec (ie_clock E (in_ticks input))"
  define i where "i = input\<lparr>in_ticks := in_ticks input + 1\<rparr>"
  define j where "j = report_dropped E i"
  have now: "0 \<le> now" "now < 2 ^ 62" using assms(1) by (simp_all add: clock_ok_def now_def)
  have j: "quiet j = quiet input" "reads j = reads input" "settings_ok j" "end_ok j"
    using assms(2,3) by (simp_all add: j_def i_def report_dropped_kept ticks_kept)
  have i: "quiet i = quiet input" "reads i = reads input" "settings_ok i"
    using assms(2) by (simp_all add: i_def ticks_kept)
  have "dns_input_report E input force \<in> {Inr i, Inr ((dostat j)\<lparr>in_last_report_time := now\<rparr>)}"
    using report_messages_returns [OF j(3,4) now]
    by (simp add: dns_input_report_def current_us_time_def Let_def now_def [symmetric] i_def [symmetric, simplified]
        j_def [symmetric])
  then show ?thesis using i j dostat_kept [where input = j and now = now] now by auto
qed

lemma frame_fine_end: "frame_fine hp dur sz f \<Longrightarrow> time_end f \<le> e \<Longrightarrow> e \<le> time_start f + dur \<Longrightarrow>
    frame_fine hp dur sz (f\<lparr>time_end := e\<rparr>)"
  by (auto simp: frame_fine_def wf_frame_def)

lemma frame_fine_new: "DNS_NO_TIME < t \<Longrightarrow> 0 < dur \<Longrightarrow> frame_fine hp dur sz (dns_packet_frame_create t t)"
  by (simp add: frame_fine_def)

lemma chain_ok_sent:
  assumes "chain_ok hp dur sz outs f" and "DNS_NO_TIME \<noteq> time_start f" and "0 < dur"
    and "time_end f \<le> e" and "e \<le> time_start f + dur" and "e < 2 ^ 62"
  shows "chain_ok hp dur sz (outs @ [f\<lparr>time_end := e\<rparr>]) (dns_packet_frame_create e e)"
proof -
  have f: "frame_fine hp dur sz f" "contiguous outs (time_start f)" "\<forall>g \<in> set outs. frame_fine hp dur sz g"
    using assms(1,2) by (simp_all add: chain_ok_def)
  then have "DNS_NO_TIME < e" using assms(4) by (simp add: frame_fine_def)
  moreover have "contiguous (outs @ [f\<lparr>time_end := e\<rparr>]) e" using f(2) by (simp add: contiguous_snoc)
  ultimately show ?thesis
    using f frame_fine_end [OF f(1) assms(4,5)] frame_fine_new [of e dur] assms(3,6) by (simp add: chain_ok_def)
qed

text \<open>\<open>dns_input_output_frame\<close> sends the frame and starts the next one where it ends.\<close>

lemma output_frame_ok:
  assumes "clock_ok E" and "settings_ok input" and "in_frame input = Some f" and "time_end f < 2 ^ 62"
  shows "\<exists>input'. dns_input_output_frame E input = Inr input' \<and> unframed input' = unframed input \<and>
    reads input' = reads input \<and> settings_ok input' \<and> in_output input' = in_output input @ [f] \<and>
    in_frame input' = Some (dns_packet_frame_create (time_end f) (time_end f))"
proof -
  obtain i where i: "dns_input_report E input False = Inr i" "quiet i = quiet input" "reads i = reads input" "settings_ok i"
    using report_ok [OF assms(1,2)] assms(3,4) by (auto simp: end_ok_def)
  have q: "in_frame i = Some f" "in_output i = in_output input" "unframed i = unframed input"
    using quietD [OF i(2)] assms(3) by simp_all
  let ?i = "i\<lparr>in_output := in_output i @ [f], in_frame := Some (dns_packet_frame_create (time_end f) (time_end f))\<rparr>"
  have "dns_input_output_frame E input = Inr ?i"
    using assms(3) i(1) q by (simp add: dns_input_output_frame_def)
  moreover have "unframed ?i = unframed i" "reads ?i = reads i" "settings_ok ?i"
    using i(4) by (simp_all add: unframed_def quiet_def reads_def settings_ok_def)
  ultimately show ?thesis using q i(3) by auto
qed

text \<open>
  Moving the time forward. \<open>stepped\<close> is what every operation on frames keeps: the packets in order
  and everything else but the frames.
\<close>

definition stepped :: "dns_input \<Rightarrow> dns_input \<Rightarrow> bool" where
  "stepped a b \<longleftrightarrow> unframed b = unframed a \<and> reads b = reads a \<and> in_pids b = in_pids a"

lemma stepped_trans: "stepped a b \<Longrightarrow> stepped b c \<Longrightarrow> stepped a c"
  by (simp add: stepped_def)

text \<open>The invariant with the current frame at hand, which has a time.\<close>

definition timed :: "dns_input \<Rightarrow> dns_packet_frame \<Rightarrow> bool" where
  "timed input f \<longleftrightarrow> input_inv input \<and> in_frame input = Some f \<and> time_start f \<noteq> DNS_NO_TIME"

lemma timedD:
  assumes "timed input f"
  shows "settings_ok input" and "pids_ok input" and "in_frame input = Some f" and "time_start f \<noteq> DNS_NO_TIME"
    and "chain_ok (in_heap input) (in_frame_max_duration input) (in_frame_max_size input) (in_output input) f"
    and "frame_fine (in_heap input) (in_frame_max_duration input) (in_frame_max_size input) f"
    and "time_end f < 2 ^ 62" and "0 < in_frame_max_duration input"
  using assms by (auto simp: timed_def input_inv_def chain_ok_def settings_ok_def)

lemma pids_ok_cong: "stepped a b \<Longrightarrow> pids_ok a \<Longrightarrow> pids_ok b"
  using unframedD(1,2) [of b a] by (simp add: stepped_def pids_ok_def)

lemma settings_frame [simp]: "settings_ok (input\<lparr>in_frame := x\<rparr>) = settings_ok input"
  "reads (input\<lparr>in_frame := x\<rparr>) = reads input" "unframed (input\<lparr>in_frame := x\<rparr>) = unframed input"
  by (simp_all add: settings_ok_def reads_def unframed_def quiet_def)

text \<open>Sending the current frame with its end moved to \<open>e\<close>.\<close>

lemma send_timed:
  assumes "clock_ok E" and t: "timed input f" and e: "time_end f \<le> e" "e \<le> time_start f + in_frame_max_duration input" "e < 2 ^ 62"
  shows "\<exists>input'. dns_input_output_frame E (input\<lparr>in_frame := Some (f\<lparr>time_end := e\<rparr>)\<rparr>) = Inr input' \<and>
    timed input' (dns_packet_frame_create e e) \<and> stepped input input'"
proof -
  let ?i = "input\<lparr>in_frame := Some (f\<lparr>time_end := e\<rparr>)\<rparr>"
  note t = timedD [OF t]
  obtain i where i: "dns_input_output_frame E ?i = Inr i" "unframed i = unframed input" "reads i = reads input"
    "settings_ok i" "in_output i = in_output input @ [f\<lparr>time_end := e\<rparr>]" "in_frame i = Some (dns_packet_frame_create e e)"
    using output_frame_ok [OF assms(1), of ?i "f\<lparr>time_end := e\<rparr>"] t(1) e(3) by auto
  have "in_pids i = in_pids input" using t(3) i(5,6) by (simp add: in_pids_def)
  then have st: "stepped input i" using i(2,3) by (simp add: stepped_def)
  have "DNS_NO_TIME < e" using t(6) e(1) by (simp add: frame_fine_def)
  then have "timed i (dns_packet_frame_create e e)"
    using chain_ok_sent [OF t(5) _ t(8) e] t(4) pids_ok_cong [OF st t(2)] i(4-6) unframedD(1,3,4) [OF i(2)]
    by (simp add: timed_def input_inv_def)
  then show ?thesis using i(1) st by blast
qed

lemma input_advance_loop_ok:
  assumes "clock_ok E" and "timed input f" and "time < 2 ^ 62"
  shows "\<exists>input' f'. input_advance_loop E input time = Some (Inr input') \<and> timed input' f' \<and> stepped input input' \<and>
    time \<le> time_end f'"
  using assms(2)
proof (induction "nat (time - time_start f)" arbitrary: input f rule: less_induct)
  case less
  note t = timedD [OF less.prems]
  let ?d = "in_frame_max_duration input"
  have fine: "time_start f \<le> time_end f" "time_end f \<le> time_start f + ?d" using t(6) by (simp_all add: frame_fine_def)
  show ?case
  proof (cases "time_start f + ?d \<le> time")
    case True
    obtain i where i: "dns_input_output_frame E (input\<lparr>in_frame := Some (f\<lparr>time_end := time_start f + ?d\<rparr>)\<rparr>) = Inr i"
      "timed i (dns_packet_frame_create (time_start f + ?d) (time_start f + ?d))" "stepped input i"
      using send_timed [OF assms(1) less.prems, of "time_start f + ?d"] fine True assms(3) by auto
    have "nat (time - (time_start f + ?d)) < nat (time - time_start f)" using True t(8) by simp
    then obtain input' f' where "input_advance_loop E i time = Some (Inr input')" "timed input' f'" "stepped i input'"
      "time \<le> time_end f'"
      using less.hyps [OF _ i(2)] by auto
    then show ?thesis
      using i(1,3) True fine(2) t(3) stepped_trans by (subst input_advance_loop.simps) (simp, blast)
  next
    case False
    let ?f = "f\<lparr>time_end := max (time_end f) time\<rparr>"
    let ?i = "input\<lparr>in_frame := Some ?f\<rparr>"
    have "stepped input ?i" using t(3) by (simp add: stepped_def in_pids_def)
    moreover have "frame_fine (in_heap input) ?d (in_frame_max_size input) ?f"
      using frame_fine_end [OF t(6)] fine False by simp
    then have "timed ?i ?f"
      using t pids_ok_cong [OF \<open>stepped input ?i\<close> t(2)] assms(3) by (simp add: timed_def input_inv_def chain_ok_def)
    ultimately show ?thesis using False t(3) by (subst input_advance_loop.simps) auto
  qed
qed

lemma frame_started_timed:
  assumes "input_inv input" and "in_frame input = Some f" and "DNS_NO_TIME < time" and "time < 2 ^ 62"
  shows "timed (input\<lparr>in_frame := Some (frame_started f time)\<rparr>) (frame_started f time)"
    and "stepped input (input\<lparr>in_frame := Some (frame_started f time)\<rparr>)"
proof -
  let ?g = "frame_started f time"
  have c: "settings_ok input" "pids_ok input"
    "chain_ok (in_heap input) (in_frame_max_duration input) (in_frame_max_size input) (in_output input) f"
    using assms(1,2) by (simp_all add: input_inv_def)
  show st: "stepped input (input\<lparr>in_frame := Some ?g\<rparr>)"
    using assms(2) by (simp add: stepped_def in_pids_def frame_started_def)
  have "chain_ok (in_heap input) (in_frame_max_duration input) (in_frame_max_size input) (in_output input) ?g"
    using c(1,3) assms(3,4)
    by (auto simp: chain_ok_def frame_started_def frame_fine_def wf_frame_def settings_ok_def split: if_splits)
  moreover have "time_start ?g \<noteq> DNS_NO_TIME" using assms(3) by (simp add: frame_started_def)
  ultimately show "timed (input\<lparr>in_frame := Some ?g\<rparr>) ?g"
    using c pids_ok_cong [OF st] by (simp add: timed_def input_inv_def)
qed

lemma advance_to_ok:
  assumes "clock_ok E" and "input_inv input" and "DNS_NO_TIME < time" and "time < 2 ^ 62"
  shows "\<exists>input' f'. dns_input_advance_time_to E input time = Some (Inr input') \<and> timed input' f' \<and>
    stepped input input' \<and> time \<le> time_end f'"
proof -
  obtain f where f: "in_frame input = Some f" using assms(2) by (auto simp: input_inv_def split: option.splits)
  let ?g = "frame_started f time"
  let ?i = "input\<lparr>in_frame := Some ?g\<rparr>"
  note s = frame_started_timed [OF assms(2) f assms(3,4)]
  have "DNS_NO_TIME < time_start ?g" "DNS_NO_TIME < time_end ?g" using timedD(6) [OF s(1)] by (simp_all add: frame_fine_def)
  then have "late_warning ?g time = Inr ()" using assms(3) by (simp add: late_warning_def dns_us_time_to_fsec_def)
  then show ?thesis
    using input_advance_loop_ok [OF assms(1) s(1) assms(4)] stepped_trans [OF s(2)]
    by (auto simp: dns_input_advance_time_to_def f)
qed

text \<open>Accepting a packet.\<close>

definition in_content :: "dns_input \<Rightarrow> dns_packet option list" where
  "in_content input = map (in_heap input) (in_pids input)"

lemma stepped_content: "stepped a b \<Longrightarrow> in_content b = in_content a"
  using unframedD(1) [of b a] by (simp add: stepped_def in_content_def)

lemma frame_fine_heap:
  "frame_fine hp dur sz f \<Longrightarrow> p \<notin> set (fr_packets f) \<Longrightarrow> frame_fine (hp(p := x)) dur sz f"
  by (auto simp: frame_fine_def wf_frame_def intro!: arg_cong [where f = sum_list])

lemma alloc_inv:
  assumes "input_inv input" and "p = in_next input" and "i = input\<lparr>in_heap := (in_heap input)(p \<mapsto> pkt), in_next := p + 1\<rparr>"
  shows "input_inv i" and "p \<notin> set (in_pids i)" and "in_content i = in_content input" and "in_pids i = in_pids input"
    and "reads i = reads input"
proof -
  obtain f where f: "in_frame input = Some f" using assms(1) by (auto simp: input_inv_def split: option.splits)
  have ok: "settings_ok input" "pids_ok input"
    "chain_ok (in_heap input) (in_frame_max_duration input) (in_frame_max_size input) (in_output input) f"
    using assms(1) by (simp_all add: input_inv_def f)
  show pids: "in_pids i = in_pids input" "reads i = reads input" by (simp_all add: assms(3) in_pids_def reads_def)
  have new: "p \<notin> set (in_pids input)" using ok(2) assms(2) by (auto simp: pids_ok_def)
  then show "p \<notin> set (in_pids i)" by (simp add: pids)
  show "in_content i = in_content input" using new pids by (auto simp: in_content_def assms(3))
  have "fresh (in_heap i) q = fresh (in_heap input) q" if "q \<in> set (in_pids input)" for q
    using that new by (auto simp: fresh_def is_packet_def assms(3))
  moreover have "in_next i = Suc (in_next input)" by (simp add: assms(2,3))
  ultimately have "pids_ok i" using ok(2) unfolding pids_ok_def pids by force
  moreover have "frame_fine (in_heap i) (in_frame_max_duration input) (in_frame_max_size input) g"
    if "g \<in> set (f # in_output input)" "frame_fine (in_heap input) (in_frame_max_duration input) (in_frame_max_size input) g" for g
    using frame_fine_heap [OF that(2), of p] new that(1) by (auto simp: assms(3) in_pids_def f)
  then have "chain_ok (in_heap i) (in_frame_max_duration input) (in_frame_max_size input) (in_output input) f"
    using ok(3) by (auto simp: chain_ok_def split: if_splits)
  moreover have "settings_ok i" using ok(1) by (simp add: settings_ok_def assms(3))
  ultimately show "input_inv i" by (simp add: input_inv_def assms(3) f)
qed

text \<open>Appending a packet that fits.\<close>

lemma append_timed:
  assumes t: "timed input f" and p: "in_heap input p = Some pkt" "fresh (in_heap input) p" "p < in_next input"
    "p \<notin> set (in_pids input)"
    and "ts pkt \<le> time_end f"
    and fits: "fr_packets f = [] \<or> fr_size f + memory_size pkt \<le> word_of_int (in_frame_max_size input)"
  shows "timed (input\<lparr>in_frame := Some (frame_with f p pkt)\<rparr>) (frame_with f p pkt)"
    and "in_pids (input\<lparr>in_frame := Some (frame_with f p pkt)\<rparr>) = in_pids input @ [p]"
proof -
  note t = timedD [OF t]
  show pids: "in_pids (input\<lparr>in_frame := Some (frame_with f p pkt)\<rparr>) = in_pids input @ [p]"
    using t(3) by (simp add: in_pids_def)
  have "frame_fine (in_heap input) (in_frame_max_duration input) (in_frame_max_size input) (frame_with f p pkt)"
    using t(6) p(1) assms(6) fits by (auto simp: frame_fine_def wf_frame_def)
  moreover have "pids_ok (input\<lparr>in_frame := Some (frame_with f p pkt)\<rparr>)"
    using t(2) p by (auto simp: pids_ok_def pids)
  ultimately show "timed (input\<lparr>in_frame := Some (frame_with f p pkt)\<rparr>) (frame_with f p pkt)"
    using t assms(6) by (simp add: timed_def input_inv_def chain_ok_def frame_fine_def)
qed

text \<open>Everything else that accepting packets keeps.\<close>

definition steady :: "dns_input \<Rightarrow> dns_input \<Rightarrow> bool" where
  "steady a b \<longleftrightarrow> in_trace b = in_trace a \<and> in_packet b = in_packet a \<and> in_bpf_filter b = in_bpf_filter a \<and>
     in_online b = in_online a \<and> in_snaplen b = in_snaplen a \<and> in_promisc b = in_promisc a"

lemma steady_trans: "steady a b \<Longrightarrow> steady b c \<Longrightarrow> steady a c"
  by (simp add: steady_def)

lemma stepped_steady: "stepped a b \<Longrightarrow> steady a b"
  using unframedD(6-9,12,13) [of b a] by (simp add: stepped_def steady_def)

lemma accept_ok:
  assumes "clock_ok E" and inv: "input_inv input" and pkt: "wf_packet pkt" "response pkt = None" "DNS_NO_TIME < ts pkt" "ts pkt < 2 ^ 62"
  shows "\<exists>input' f. accept_packet E input pkt = Some (Inr input') \<and> timed input' f \<and>
    in_content input' = in_content input @ [Some pkt] \<and> reads input' = reads input \<and> steady input input' \<and>
    in_dumper input' = in_dumper input"
proof -
  define p where "p = in_next input"
  define i where "i = input\<lparr>in_heap := (in_heap input)(p \<mapsto> pkt), in_next := p + 1\<rparr>"
  note a = alloc_inv [OF inv p_def i_def]
  have ip: "in_heap i p = Some pkt" "p < in_next i" "steady input i" "in_dumper i = in_dumper input"
    by (simp_all add: i_def steady_def)
  have fresh: "fresh (in_heap i) p" using pkt ip by (simp add: fresh_def is_packet_def)
  obtain j f where j: "dns_input_advance_time_to E i (ts pkt) = Some (Inr j)" "timed j f" "stepped i j" "ts pkt \<le> time_end f"
    using advance_to_ok [OF assms(1) a(1) pkt(3,4)] by blast
  let ?big = "fr_count f > 0 \<and> fr_size f + memory_size pkt > word_of_int (in_frame_max_size j)"
  note jt = timedD [OF j(2)]
  have "\<exists>k g. (if ?big then dns_input_output_frame E j else Inr j) = Inr k \<and> timed k g \<and> stepped j k \<and>
      ts pkt \<le> time_end g \<and> (fr_packets g = [] \<or> fr_size g + memory_size pkt \<le> word_of_int (in_frame_max_size k))"
  proof (cases ?big)
    case True
    have f': "j\<lparr>in_frame := Some (f\<lparr>time_end := time_end f\<rparr>)\<rparr> = j" using jt(3) by simp
    obtain k where "dns_input_output_frame E j = Inr k" "timed k (dns_packet_frame_create (time_end f) (time_end f))" "stepped j k"
      using send_timed [OF assms(1) j(2) order_refl, unfolded f'] jt(6,7) by (auto simp: frame_fine_def)
    then show ?thesis using True j(4) by (intro exI [of _ k] exI [of _ "dns_packet_frame_create (time_end f) (time_end f)"]) simp
  next
    case False
    then have "fr_packets f = [] \<or> fr_size f + memory_size pkt \<le> word_of_int (in_frame_max_size j)"
      using jt(6) by (auto simp: frame_fine_def wf_frame_def)
    moreover have "(if ?big then dns_input_output_frame E j else Inr j) = Inr j" using False by (rule if_not_P)
    moreover have "stepped j j" by (simp add: stepped_def)
    ultimately show ?thesis using j(2,4) by blast
  qed
  then obtain k g where k: "(if ?big then dns_input_output_frame E j else Inr j) = Inr k" "timed k g" "stepped j k"
      "ts pkt \<le> time_end g" "fr_packets g = [] \<or> fr_size g + memory_size pkt \<le> word_of_int (in_frame_max_size k)" by blast
  have ik: "stepped i k" using stepped_trans [OF j(3) k(3)] .
  then have u: "unframed k = unframed i" "in_pids k = in_pids i" "reads k = reads i" by (simp_all add: stepped_def)
  note kp = unframedD(1,2) [OF u(1)]
  let ?g = "frame_with g p pkt"
  let ?k = "k\<lparr>in_frame := Some ?g\<rparr>"
  have app: "timed ?k ?g" "in_pids ?k = in_pids k @ [p]"
    using append_timed [OF k(2), of p pkt] ip fresh kp u(2) a(2) k(4,5) by simp_all
  have "accept_packet E input pkt = Some (Inr ?k)"
    unfolding accept_packet_def Let_def p_def [symmetric] i_def [symmetric]
    using j(1) jt(3) k(1) timedD(3) [OF k(2)] ip(1) kp(1) by (simp add: append_packet_Some)
  moreover have "in_content ?k = in_content input @ [Some pkt]"
    using app(2) u(2) kp(1) ip(1) a(3) by (simp add: in_content_def)
  moreover have "steady input ?k" using steady_trans [OF ip(3) stepped_steady [OF ik]] by (simp add: steady_def)
  ultimately show ?thesis using app(1) u(3) a(5) unframedD(10) [OF u(1)] ip(4) by auto
qed

section \<open>Processing a trace\<close>

text \<open>
  Packets of a trace that construction does not choke on (see the construction's own theorems):
  libtrace's answers are consistent and the times are within about 146000 years of the epoch.
  The dumper's writes succeed and are bounded by \<open>M\<close>, its file names expand.
\<close>

definition packet_event_ok :: "knot_lib \<Rightarrow> int \<Rightarrow> libtrace_packet \<Rightarrow> dump_env \<Rightarrow> bool" where
  "packet_event_ok K M tp de \<longleftrightarrow> libtrace_ok tp \<and> dns_us_time_from_timeval (lt_timeval tp) < 2 ^ 62 \<and>
     (\<exists>x. dns_packet_create_from_libtrace K tp = Inr x) \<and>
     DNS_NO_TIME < dns_us_time_from_timespec (lt_timespec tp) \<and>
     0 < de_write de \<and> de_write de \<le> M \<and> (\<forall>n f t. de_strftime de n f t \<noteq> [])"

fun event_ok :: "knot_lib \<Rightarrow> int \<Rightarrow> trace_event \<Rightarrow> bool" where
  "event_ok K M (TRACE_EVENT_PACKET tp de) = packet_event_ok K M tp de"
| "event_ok K M TRACE_EVENT_OTHER = False"
| "event_ok K M _ = True"

fun ends_reading :: "trace_event \<Rightarrow> bool" where
  "ends_reading Stop_requested = True"
| "ends_reading (TRACE_EVENT_TERMINATE err) = True"
| "ends_reading (TRACE_EVENT_IOWAIT failed) = failed"
| "ends_reading _ = False"

text \<open>The packets that the events bring and that construction accepts, up to the end of reading.\<close>

fun accepted_of :: "knot_lib \<Rightarrow> trace_event \<Rightarrow> dns_packet list" where
  "accepted_of K (TRACE_EVENT_PACKET tp de) =
     (case dns_packet_create_from_libtrace K tp of Inr (DNS_RET_OK, Some pkt) \<Rightarrow> [pkt] | _ \<Rightarrow> [])"
| "accepted_of K _ = []"

definition accepted :: "knot_lib \<Rightarrow> trace_event list \<Rightarrow> dns_packet list" where
  "accepted K evs = concat (map (accepted_of K) (takeWhile (Not \<circ> ends_reading) evs))"

fun packets_of :: "trace_event \<Rightarrow> u64" where
  "packets_of (TRACE_EVENT_PACKET tp de) = 1"
| "packets_of _ = 0"

definition packet_count :: "trace_event list \<Rightarrow> u64" where
  "packet_count evs = sum_list (map packets_of (takeWhile (Not \<circ> ends_reading) evs))"

definition dumper_ok :: "int \<Rightarrow> dns_input \<Rightarrow> bool" where
  "dumper_ok M input \<longleftrightarrow> 0 \<le> M \<and> (case in_dumper input of None \<Rightarrow> True | Some d \<Rightarrow> dump_inv M d)"

text \<open>An input between traces and one that reads a trace.\<close>

definition input_ready :: "int \<Rightarrow> dns_input \<Rightarrow> bool" where
  "input_ready M input \<longleftrightarrow> input_inv input \<and> dumper_ok M input \<and> \<not> in_trace input \<and> \<not> in_packet input \<and> \<not> in_bpf_filter input"

definition input_reading :: "int \<Rightarrow> dns_input \<Rightarrow> bool" where
  "input_reading M input \<longleftrightarrow> input_inv input \<and> dumper_ok M input \<and> in_trace input \<and> in_packet input"

lemma dump_open_error: "dns_dump_open E d t = Inr (r, d') \<Longrightarrow> r \<noteq> DNS_RET_OK \<Longrightarrow> dd_trace d' = None"
  by (auto simp: dns_dump_open_def Let_def bindr_Inr_iff assertr_Inr_iff split: if_splits)

lemma dump_write_success: "0 < de_write E \<Longrightarrow> dump_write E d p = Inr (r, d') \<Longrightarrow> r = DNS_RET_OK"
  by (auto simp: dump_write_def split: option.splits if_splits)

lemma rotate_write_error:
  assumes "0 < de_write E" and k: "dump_rotate_write E d t p = Inr (r, d')" and "r \<noteq> DNS_RET_OK"
  shows "dd_trace d' = None"
proof -
  obtain d2 where d2: "(if dd_trace d2 = None then bindr (dns_dump_open E d2 t) (\<lambda>(r, dump).
      if r \<noteq> DNS_RET_OK then Inr (r, dump) else dump_write E dump p) else dump_write E d2 p) = Inr (r, d')"
    using k unfolding dump_rotate_write_def bindr_Inr_iff by blast
  show ?thesis
  proof (cases "dd_trace d2 = None")
    case True
    then have "bindr (dns_dump_open E d2 t) (\<lambda>(r, dump).
      if r \<noteq> DNS_RET_OK then Inr (r, dump) else dump_write E dump p) = Inr (r, d')" using d2 by simp
    then obtain r3 d3 where "dns_dump_open E d2 t = Inr (r3, d3)"
      "(if r3 \<noteq> DNS_RET_OK then Inr (r3, d3) else dump_write E d3 p) = Inr (r, d')"
      by (auto simp: bindr_Inr_iff)
    then show ?thesis using dump_open_error dump_write_success [OF assms(1)] assms(3) by (cases "r3 = DNS_RET_OK") auto
  next
    case False
    then have "dump_write E d2 p = Inr (r, d')" using d2 by (metis (full_types))
    then show ?thesis using dump_write_success [OF assms(1)] assms(3) by blast
  qed
qed

lemma dump_packet_error:
  assumes "0 < de_write E" and "dns_dump_packet E d p = Inr (r, d')" and "r \<noteq> DNS_RET_OK"
  shows "dd_trace d' = None"
proof -
  obtain d1 t where "dump_rotate_write E d1 t p = Inr (r, d')"
    using assms(2,3) by (auto simp: dns_dump_packet_def Let_def bindr_Inr_iff split: if_splits)
  then show ?thesis by (rule rotate_write_error [OF assms(1) _ assms(3)])
qed

lemma dump_dropped_ok:
  assumes "dumper_ok M input" and "packet_event_ok K M tp de"
  shows "\<exists>x. dump_dropped de input tp = Inr (input\<lparr>in_dumper := x\<rparr>) \<and> dumper_ok M (input\<lparr>in_dumper := x\<rparr>)"
proof (cases "in_dumper input")
  case None
  then have "input\<lparr>in_dumper := None\<rparr> = input" by simp
  then have "dump_dropped de input tp = Inr (input\<lparr>in_dumper := None\<rparr>)" using None by (simp add: dump_dropped_def)
  moreover have "dumper_ok M (input\<lparr>in_dumper := None\<rparr>)" using assms(1) by (simp add: dumper_ok_def)
  ultimately show ?thesis by blast
next
  case (Some d)
  have ok: "dump_inv M d" "0 \<le> M" using assms(1) Some by (simp_all add: dumper_ok_def)
  have ev: "0 < de_write de" "de_write de \<le> M" "\<And>n f t. de_strftime de n f t \<noteq> []"
    "DNS_NO_TIME < dns_us_time_from_timespec (lt_timespec tp)"
    using assms(2) by (simp_all add: packet_event_ok_def)
  obtain r d' where d: "dns_dump_packet de d tp = Inr (r, d')" using dump_packet_returns [OF ok ev(4,3)] by blast
  have "dump_inv M d'" using dump_packet_inv [OF ok(1) d ok(2) ev(2,4)] .
  then have "dumper_ok M (input\<lparr>in_dumper := if r = DNS_RET_OK then Some d' else None\<rparr>)"
    using ok(2) by (simp add: dumper_ok_def)
  moreover have "dump_dropped de input tp = Inr (input\<lparr>in_dumper := if r = DNS_RET_OK then Some d' else None\<rparr>)"
    using Some d dump_packet_error [OF ev(1) d] by (simp add: dump_dropped_def dns_dump_destroy_def)
  ultimately show ?thesis by blast
qed

lemma input_inv_cong:
  assumes "in_frame a = in_frame b" "in_output a = in_output b" "in_heap a = in_heap b" "in_next a = in_next b"
    "in_frame_max_duration a = in_frame_max_duration b" "in_frame_max_size a = in_frame_max_size b"
    "settings_ok a = settings_ok b"
  shows "input_inv a = input_inv b" and "in_content a = in_content b"
proof -
  have "in_pids a = in_pids b" using assms by (simp add: in_pids_def)
  then show "input_inv a = input_inv b" and "in_content a = in_content b"
    using assms by (cases "in_frame b"; simp add: input_inv_def pids_ok_def in_content_def)+
qed

lemma set_dumper_kept [simp]:
  "input_inv (input\<lparr>in_dumper := x\<rparr>) = input_inv input" "in_content (input\<lparr>in_dumper := x\<rparr>) = in_content input"
  "reads (input\<lparr>in_dumper := x\<rparr>) = reads input" "steady i (input\<lparr>in_dumper := x\<rparr>) = steady i input"
  by (rule input_inv_cong; simp add: settings_ok_def)+ (simp_all add: reads_def steady_def)

lemma count_read_kept:
  assumes "i = input\<lparr>in_current_packets_read := in_current_packets_read input + 1, in_current_bytes_read := b\<rparr>"
  shows "input_inv i = input_inv input" and "in_content i = in_content input" and "fst (reads i) = fst (reads input) + 1"
    and "steady input i" and "in_dumper i = in_dumper input"
  by (rule input_inv_cong; simp add: assms settings_ok_def)+ (simp_all add: assms reads_def steady_def)

lemma accepted_of_drop:
  "dns_packet_create_from_libtrace K tp = Inr (r, res) \<Longrightarrow> r \<noteq> DNS_RET_OK \<Longrightarrow>
   accepted_of K (TRACE_EVENT_PACKET tp de) = []"
  by (cases r) simp_all

lemma read_packet_ok:
  assumes "clock_ok E" and inv: "input_inv input" and du: "dumper_ok M input" and ev: "packet_event_ok (ie_knot E) M tp de"
  shows "\<exists>input'. dns_input_process_read_packet E de input tp = Some (Inr input') \<and> input_inv input' \<and>
    dumper_ok M input' \<and> in_content input' = in_content input @ map Some (accepted_of (ie_knot E) (TRACE_EVENT_PACKET tp de)) \<and>
    fst (reads input') = fst (reads input) + 1 \<and> steady input input'"
proof -
  define i where "i = input\<lparr>in_current_packets_read := in_current_packets_read input + 1,
    in_current_bytes_read := in_current_bytes_read input + lt_wire_length tp\<rparr>"
  note i = count_read_kept [OF i_def]
  have du: "dumper_ok M i" using du i(5) by (simp add: dumper_ok_def)
  have inv': "input_inv i" using inv i(1) by simp
  obtain r res where c: "dns_packet_create_from_libtrace (ie_knot E) tp = Inr (r, res)"
    using ev unfolding packet_event_ok_def by fastforce
  note p = create_from_libtrace_packet [OF c]
  have read: "dns_input_process_read_packet E de input tp =
    (if r \<noteq> DNS_RET_OK then Some (dump_dropped de i tp)
     else case res of None \<Rightarrow> Some (Inl (Assert_failed ''pkt != NULL'')) | Some pkt \<Rightarrow> accept_packet E i pkt)"
    unfolding dns_input_process_read_packet_def Let_def i_def [symmetric] c by simp
  show ?thesis
  proof (cases "r = DNS_RET_OK")
    case True
    then obtain pkt where res: "res = Some pkt" using p(1) by auto
    have lt: "libtrace_ok tp" "dns_us_time_from_timeval (lt_timeval tp) < 2 ^ 62"
      using ev unfolding packet_event_ok_def by blast+
    then have "DNS_NO_TIME < dns_us_time_from_timeval (lt_timeval tp)" unfolding libtrace_ok_def by blast
    then have pkt: "wf_packet pkt" "response pkt = None" "DNS_NO_TIME < ts pkt" "ts pkt < 2 ^ 62"
      using p(2) [OF lt(1) res] lt(2) by simp_all
    obtain j f where j: "accept_packet E i pkt = Some (Inr j)" "timed j f" "in_content j = in_content i @ [Some pkt]"
      "reads j = reads i" "steady i j" "in_dumper j = in_dumper i"
      using accept_ok [OF assms(1) inv' pkt] by blast
    have "dns_input_process_read_packet E de input tp = Some (Inr j)" using True res j(1) by (simp add: read)
    moreover have "dumper_ok M j" using du j(6) by (simp add: dumper_ok_def)
    moreover have "accepted_of (ie_knot E) (TRACE_EVENT_PACKET tp de) = [pkt]" using c True res by simp
    ultimately show ?thesis
      using j(2,3,4) i(2,3) steady_trans [OF i(4) j(5)] by (intro exI [of _ j]) (simp add: timed_def)
  next
    case False
    obtain x where x: "dump_dropped de i tp = Inr (i\<lparr>in_dumper := x\<rparr>)" "dumper_ok M (i\<lparr>in_dumper := x\<rparr>)"
      using dump_dropped_ok [OF du ev] by blast
    have "dns_input_process_read_packet E de input tp = Some (Inr (i\<lparr>in_dumper := x\<rparr>))"
      using False x(1) by (simp add: read)
    then show ?thesis
      using x(2) i(1-4) inv accepted_of_drop [OF c False] by (intro exI [of _ "i\<lparr>in_dumper := x\<rparr>"]) simp
  qed
qed

text \<open>A round that only moves the time or reports keeps the packets.\<close>

definition calm :: "int \<Rightarrow> dns_input \<Rightarrow> dns_input \<Rightarrow> bool" where
  "calm M a b \<longleftrightarrow> input_inv b \<and> dumper_ok M b \<and> in_content b = in_content a \<and> fst (reads b) = fst (reads a) \<and> steady a b"

lemma stepped_calm:
  assumes "stepped a b" and "input_inv b" and "dumper_ok M a"
  shows "calm M a b"
proof -
  have u: "unframed b = unframed a" using assms(1) by (simp add: stepped_def)
  have "dumper_ok M b" using assms(3) unframedD(10) [OF u] by (simp add: dumper_ok_def)
  then show ?thesis
    using assms(1,2) stepped_content [OF assms(1)] stepped_steady [OF assms(1)] by (simp add: calm_def stepped_def)
qed

lemma quiet_calm:
  assumes "quiet b = quiet a" and "reads b = reads a" and "settings_ok b" and "input_inv a" and "dumper_ok M a"
  shows "calm M a b" and "in_frame b = in_frame a" and "in_output b = in_output a"
proof -
  note q = quietD [OF assms(1)]
  note u = unframedD [OF q(3)]
  have "settings_ok a" using assms(4) by (simp add: input_inv_def)
  then have "input_inv b = input_inv a" "in_content b = in_content a"
    using input_inv_cong [OF q(1,2) u(1-4)] assms(3) by simp_all
  moreover have "steady a b" using u by (simp add: steady_def)
  moreover have "dumper_ok M b" using assms(5) u(10) by (simp add: dumper_ok_def)
  ultimately show "calm M a b" using assms(2,4) by (simp add: calm_def)
  show "in_frame b = in_frame a" and "in_output b = in_output a" using q by simp_all
qed

lemma calm_trans: "calm M a b \<Longrightarrow> calm M b c \<Longrightarrow> calm M a c"
  using steady_trans [of a b c] by (simp add: calm_def)

lemma tick_calm:
  assumes "input_inv input" and "dumper_ok M input"
  shows "calm M input (input\<lparr>in_ticks := n\<rparr>)"
  using quiet_calm(1) [of "input\<lparr>in_ticks := n\<rparr>" input M] assms by (simp add: ticks_kept input_inv_def)

lemma advance_calm:
  assumes "clock_ok E" and "input_inv input" and "dumper_ok M input" and "DNS_NO_TIME < time" and "time < 2 ^ 62"
  shows "\<exists>input'. dns_input_advance_time_to E input time = Some (Inr input') \<and> calm M input input'"
proof -
  obtain i f where i: "dns_input_advance_time_to E input time = Some (Inr i)" "timed i f" "stepped input i"
    using advance_to_ok [OF assms(1,2,4,5)] by blast
  have "input_inv i" using i(2) by (simp add: timed_def)
  then show ?thesis using i(1) stepped_calm [OF i(3) _ assms(3)] by blast
qed

lemma inv_frame: "input_inv input \<Longrightarrow> \<exists>f. in_frame input = Some f \<and> time_end f < 2 ^ 62"
  by (auto simp: input_inv_def chain_ok_def DNS_NO_TIME_def split: option.splits if_splits)

lemma catch_real_time_ok:
  assumes "clock_ok E" and "input_inv input" and "dumper_ok M input"
  shows "\<exists>input'. dns_input_process_catch_real_time E input = Some (Inr input') \<and> calm M input input'"
proof -
  define now where "now = dns_us_time_from_timespec (ie_clock E (in_ticks input))"
  define i where "i = input\<lparr>in_ticks := Suc (in_ticks input)\<rparr>"
  have ti: "calm M input i" using tick_calm [OF assms(2,3)] by (simp add: i_def)
  have "in_frame i = in_frame input" by (simp add: i_def)
  then obtain f where f: "in_frame i = Some f" using inv_frame [OF assms(2)] by auto
  have g: "0 \<le> in_real_time_grace i" "in_real_time_grace i < 2 ^ 62"
    using assms(2) by (simp_all add: input_inv_def settings_ok_def i_def)
  have "0 \<le> now" "now < 2 ^ 62" using assms(1) by (simp_all add: clock_ok_def now_def)
  then have "DNS_NO_TIME < now - in_real_time_grace i" "now - in_real_time_grace i < 2 ^ 62"
    using g by (simp_all add: DNS_NO_TIME_def)
  then obtain j where j: "dns_input_advance_time_to E i (now - in_real_time_grace i) = Some (Inr j)" "calm M i j"
    using advance_calm [OF assms(1), of i M] ti by (auto simp: calm_def)
  have self: "calm M input input" using assms(2,3) by (simp add: calm_def steady_def)
  have "dns_input_process_catch_real_time E input \<in> {Some (Inr input), Some (Inr i), Some (Inr j)}"
    using f j(1)
    by (simp add: dns_input_process_catch_real_time_def current_us_time_def Let_def now_def [symmetric] i_def [symmetric])
  then show ?thesis using self ti calm_trans [OF ti j(2)] by auto
qed

text \<open>The state after the trace is closed.\<close>

lemma close_ready:
  assumes "input_reading M input" and "c = input\<lparr>in_bpf_filter := False, in_trace := False, in_packet := False\<rparr>"
  shows "dns_input_trace_close input = Inr c" and "input_ready M c" and "in_content c = in_content input"
    and "fst (reads c) = fst (reads input)" and "in_online c = in_online input"
proof -
  have ok: "input_inv input" "dumper_ok M input" "in_trace input" "in_packet input"
    using assms(1) by (simp_all add: input_reading_def)
  have "input_inv c = input_inv input" "in_content c = in_content input"
    by (rule input_inv_cong; simp add: assms(2) settings_ok_def)+
  moreover have "dumper_ok M c" using ok(2) by (simp add: dumper_ok_def assms(2))
  ultimately show "input_ready M c" "in_content c = in_content input" using ok(1) by (simp_all add: input_ready_def assms(2))
  show "dns_input_trace_close input = Inr c" using ok inv_frame [OF ok(1)] by (auto simp: dns_input_trace_close_def assms(2))
  show "fst (reads c) = fst (reads input)" "in_online c = in_online input" by (simp_all add: reads_def assms(2))
qed

lemma calm_reading: "calm M a b \<Longrightarrow> input_reading M a \<Longrightarrow> input_reading M b"
  by (simp add: calm_def input_reading_def steady_def)

lemma report_and_close_ok:
  assumes "clock_ok E" and rd: "input_reading M input"
  shows "\<exists>input'. report_and_close E input r = Inr (Some r, input') \<and> input_ready M input' \<and>
    in_content input' = in_content input \<and> fst (reads input') = fst (reads input) \<and> in_online input' = in_online input"
proof -
  have ok: "input_inv input" "dumper_ok M input" "settings_ok input" using rd by (simp_all add: input_reading_def input_inv_def)
  have "end_ok input" using inv_frame [OF ok(1)] by (auto simp: end_ok_def)
  then obtain i where i: "dns_input_report E input True = Inr i" "quiet i = quiet input" "reads i = reads input" "settings_ok i"
    using report_ok [OF assms(1) ok(3)] by blast
  have c: "calm M input i" using quiet_calm(1) [OF i(2-4) ok(1,2)] .
  note close = close_ready [OF calm_reading [OF c rd] refl]
  show ?thesis using i(1) close c by (auto simp: report_and_close_def calm_def steady_def)
qed

text \<open>One round: either the reading goes on, or the trace is closed.\<close>

lemma round_ok:
  assumes "clock_ok E" and rd: "input_reading M input" and ev: "event_ok (ie_knot E) M ev"
  shows "\<exists>r input'. input_round E input ev = Some (Inr (r, input')) \<and> (r = None \<longleftrightarrow> \<not> ends_reading ev) \<and>
    (if r = None then input_reading M input' else input_ready M input') \<and>
    in_content input' = in_content input @ map Some (accepted_of (ie_knot E) ev) \<and>
    fst (reads input') = fst (reads input) + packets_of ev \<and> in_online input' = in_online input"
proof -
  have ok: "input_inv input" "dumper_ok M input" using rd by (simp_all add: input_reading_def)
  obtain c where c: "dns_input_process_catch_real_time E input = Some (Inr c)" "calm M input c"
    using catch_real_time_ok [OF assms(1) ok] by blast
  note crd = calm_reading [OF c(2) rd]
  note close = close_ready [OF crd refl]
  have cc: "in_content c = in_content input" "fst (reads c) = fst (reads input)" "in_online c = in_online input"
    using c(2) by (simp_all add: calm_def steady_def)
  show ?thesis
  proof (cases ev)
    case (TRACE_EVENT_PACKET tp de)
    obtain i where "dns_input_process_read_packet E de input tp = Some (Inr i)" "input_inv i" "dumper_ok M i"
      "in_content i = in_content input @ map Some (accepted_of (ie_knot E) (TRACE_EVENT_PACKET tp de))"
      "fst (reads i) = fst (reads input) + 1" "steady input i"
      using read_packet_ok [OF assms(1) ok] ev TRACE_EVENT_PACKET by auto
    then show ?thesis
      using rd by (intro exI [of _ None] exI [of _ i]) (simp add: TRACE_EVENT_PACKET input_reading_def steady_def)
  next
    case (TRACE_EVENT_IOWAIT failed)
    show ?thesis
    proof (cases failed)
      case True
      then show ?thesis using c(1) cc close unfolding TRACE_EVENT_IOWAIT
        by (intro exI [of _ "Some DNS_RET_ERR"] exI [of _ "c\<lparr>in_bpf_filter := False, in_trace := False, in_packet := False\<rparr>"]) simp
    next
      case False
      then show ?thesis using c(1) crd cc unfolding TRACE_EVENT_IOWAIT by (intro exI [of _ None] exI [of _ c]) simp
    qed
  next
    case TRACE_EVENT_SLEEP
    show ?thesis using c(1) crd cc unfolding TRACE_EVENT_SLEEP by (intro exI [of _ None] exI [of _ c]) simp
  next
    case Stop_requested
    obtain i where "report_and_close E input DNS_RET_OK = Inr (Some DNS_RET_OK, i)" "input_ready M i"
      "in_content i = in_content input" "fst (reads i) = fst (reads input)" "in_online i = in_online input"
      using report_and_close_ok [OF assms(1) rd] by blast
    then show ?thesis unfolding Stop_requested by (intro exI [of _ "Some DNS_RET_OK"] exI [of _ i]) simp
  next
    case (TRACE_EVENT_TERMINATE err)
    define r where "r = (if err then DNS_RET_ERR else DNS_RET_OK)"
    obtain i where "report_and_close E input r = Inr (Some r, i)" "input_ready M i"
      "in_content i = in_content input" "fst (reads i) = fst (reads input)" "in_online i = in_online input"
      using report_and_close_ok [OF assms(1) rd] by blast
    then show ?thesis unfolding TRACE_EVENT_TERMINATE
      by (intro exI [of _ "Some r"] exI [of _ i]) (simp add: r_def [symmetric])
  qed (use ev in simp)
qed

lemma loop_ok:
  assumes "clock_ok E" and "input_reading M input" and "\<forall>ev \<in> set evs. event_ok (ie_knot E) M ev"
    and "\<exists>ev \<in> set evs. ends_reading ev"
  shows "\<exists>r input'. input_loop E evs input = Some (Inr (r, input')) \<and> input_ready M input' \<and>
    in_content input' = in_content input @ map Some (accepted (ie_knot E) evs) \<and>
    fst (reads input') = fst (reads input) + packet_count evs \<and> in_online input' = in_online input"
  using assms(2-4)
proof (induction evs arbitrary: input)
  case (Cons ev evs)
  obtain r i where i: "input_round E input ev = Some (Inr (r, i))" "r = None \<longleftrightarrow> \<not> ends_reading ev"
    "if r = None then input_reading M i else input_ready M i"
    "in_content i = in_content input @ map Some (accepted_of (ie_knot E) ev)"
    "fst (reads i) = fst (reads input) + packets_of ev" "in_online i = in_online input"
    using round_ok [OF assms(1) Cons.prems(1), of ev] Cons.prems(2) by auto
  show ?case
  proof (cases "ends_reading ev")
    case True
    moreover have "accepted_of (ie_knot E) ev = []" "packets_of ev = 0" using True by (cases ev; simp)+
    ultimately show ?thesis using i by (auto simp: accepted_def packet_count_def)
  next
    case False
    then have "input_reading M i" "\<exists>ev \<in> set evs. ends_reading ev" using i Cons.prems(3) by auto
    then obtain r' j where "input_loop E evs i = Some (Inr (r', j))" "input_ready M j"
      "in_content j = in_content i @ map Some (accepted (ie_knot E) evs)"
      "fst (reads j) = fst (reads i) + packet_count evs" "in_online j = in_online i"
      using Cons.IH Cons.prems(2) by fastforce
    then show ?thesis using False i by (simp add: accepted_def packet_count_def)
  qed
qed simp

lemma clock_range:
  assumes "clock_ok E"
  shows "DNS_NO_TIME < dns_us_time_from_timespec (ie_clock E n)" and "0 \<le> dns_us_time_from_timespec (ie_clock E n)"
    and "dns_us_time_from_timespec (ie_clock E n) < 2 ^ 62"
proof -
  show "0 \<le> dns_us_time_from_timespec (ie_clock E n)" "dns_us_time_from_timespec (ie_clock E n) < 2 ^ 62"
    using assms by (simp_all add: clock_ok_def)
  then show "DNS_NO_TIME < dns_us_time_from_timespec (ie_clock E n)" by (simp add: DNS_NO_TIME_def)
qed

text \<open>Opening a trace; the filter must be accepted and the packet allocated.\<close>

definition open_ok :: "open_env \<Rightarrow> bool" where
  "open_ok Op \<longleftrightarrow> 0 \<le> oe_filter Op \<and> oe_packet Op"

definition opens :: "open_env \<Rightarrow> dns_input \<Rightarrow> bool" where
  "opens Op input \<longleftrightarrow> \<not> oe_create_err Op \<and> 0 \<le> open_config Op input \<and> 0 \<le> oe_start Op"

definition with_handles :: "dns_input \<Rightarrow> bool \<Rightarrow> bool \<Rightarrow> bool \<Rightarrow> dns_input" where
  "with_handles input t p b = input\<lparr>in_trace := t, in_packet := p, in_bpf_filter := b\<rparr>"

lemma with_handles_simps [simp]:
  "in_trace (with_handles input t p b) = t" "in_packet (with_handles input t p b) = p"
  "in_bpf_filter (with_handles input t p b) = b" "in_online (with_handles input t p b) = in_online input"
  "reads (with_handles input t p b) = reads input" "dumper_ok M (with_handles input t p b) = dumper_ok M input"
  "in_content (with_handles input t p b) = in_content input" "input_inv (with_handles input t p b) = input_inv input"
  "open_config Op (with_handles input t p b) = open_config Op input"
  by (simp_all add: with_handles_def reads_def dumper_ok_def open_config_def)
    (rule input_inv_cong; simp add: settings_ok_def)+

lemma open_start_ok:
  assumes "open_ok Op" and "in_trace input" and "\<not> in_packet input" and "\<not> in_bpf_filter input"
  shows "open_start Op input = (if oe_start Op < 0 then Inr (DNS_RET_ERR, with_handles input False False False)
    else Inr (DNS_RET_OK, with_handles input True True (in_bpf_string input \<noteq> None)))"
  using assms by (auto simp: open_start_def open_ok_def with_handles_def Let_def)

lemma trace_open_ok:
  assumes "clock_ok E" and "input_ready M input" and "open_ok Op"
  shows "\<exists>r i. dns_input_trace_open E Op input = Some (Inr (r, i)) \<and>
    (if opens Op input then r = DNS_RET_OK \<and> input_reading M i else r = DNS_RET_ERR \<and> input_ready M i) \<and>
    in_content i = in_content input \<and> fst (reads i) = fst (reads input) \<and> in_online i = in_online input"
proof -
  have ok: "input_inv input" "dumper_ok M input" "\<not> in_trace input" "\<not> in_packet input" "\<not> in_bpf_filter input"
    using assms(2) by (simp_all add: input_ready_def)
  let ?t = "input\<lparr>in_trace := True\<rparr>"
  have t: "?t = with_handles input True False False" using ok by (simp add: with_handles_def)
  define now where "now = dns_us_time_from_timespec (ie_clock E (in_ticks input))"
  let ?u = "?t\<lparr>in_ticks := Suc (in_ticks input)\<rparr>"
  have tt: "input_inv ?t" "dumper_ok M ?t" unfolding t using ok by simp_all
  have u: "calm M ?t ?u" by (rule tick_calm [OF tt])
  have now: "DNS_NO_TIME < now" "now < 2 ^ 62" using clock_range [OF assms(1)] by (simp_all add: now_def)
  obtain a where a: "dns_input_advance_time_to E ?u now = Some (Inr a)" "calm M ?u a"
    using advance_calm [OF assms(1) _ _ now, of ?u M] u by (auto simp: calm_def)
  define i where "i = (if in_online input then a else ?t)"
  have "calm M ?t ?t" using tt by (simp add: calm_def steady_def)
  then have i: "calm M ?t i" using calm_trans [OF u a(2)] by (simp add: i_def)
  have h: "in_trace i" "\<not> in_packet i" "\<not> in_bpf_filter i" using i ok by (simp_all add: calm_def steady_def)
  have same: "open_config Op i = open_config Op input" "in_online i = in_online input" "in_content i = in_content input"
    "fst (reads i) = fst (reads input)" "input_inv i" "dumper_ok M i"
    using i by (simp_all add: calm_def steady_def open_config_def t) (simp_all add: with_handles_def)
  have adv: "(let input = ?t in if in_online input
      then let (now, input) = current_us_time E input in dns_input_advance_time_to E input now
      else Some (Inr input)) = Some (Inr i)"
    using a(1) by (simp add: current_us_time_def Let_def now_def i_def)
  have undo: "i\<lparr>in_trace := False\<rparr> = with_handles i False False False" using h by (simp add: with_handles_def)
  note open_start_ok [OF assms(3) h]
  then have "dns_input_trace_open E Op input = Some (Inr (if oe_create_err Op then (DNS_RET_ERR, input)
      else if open_config Op input < 0 \<or> oe_start Op < 0 then (DNS_RET_ERR, with_handles i False False False)
      else (DNS_RET_OK, with_handles i True True (in_bpf_string i \<noteq> None))))"
    unfolding dns_input_trace_open_def adv using ok same(1) by (simp add: undo)
  then show ?thesis using assms(2) same by (auto simp: opens_def input_ready_def input_reading_def)
qed

lemma process_ok:
  assumes "clock_ok E" and "input_ready M input" and "open_ok Op" and "in_online input = (uri = None)"
    and evs: "\<forall>ev \<in> set evs. event_ok (ie_knot E) M ev" "\<exists>ev \<in> set evs. ends_reading ev"
  shows "\<exists>r i. dns_input_process E Op evs input uri = Some (Inr (r, i)) \<and> input_ready M i \<and>
    in_content i = in_content input @ (if opens Op input then map Some (accepted (ie_knot E) evs) else []) \<and>
    fst (reads i) = fst (reads input) + (if opens Op input then packet_count evs else 0) \<and>
    in_online i = in_online input"
proof -
  define j where "j = (case uri of None \<Rightarrow> input | Some u \<Rightarrow> input\<lparr>in_uri := u\<rparr>)"
  have inv: "input_inv j = input_inv input" "in_content j = in_content input"
    by (rule input_inv_cong; simp add: j_def settings_ok_def split: option.split)+
  have j: "input_ready M j" "fst (reads j) = fst (reads input)" "in_online j = in_online input" "opens Op j = opens Op input"
    using assms(2) inv by (simp_all add: input_ready_def dumper_ok_def reads_def opens_def open_config_def j_def split: option.splits)
  obtain r i where i: "dns_input_trace_open E Op j = Some (Inr (r, i))"
    "if opens Op j then r = DNS_RET_OK \<and> input_reading M i else r = DNS_RET_ERR \<and> input_ready M i"
    "in_content i = in_content j" "fst (reads i) = fst (reads j)" "in_online i = in_online j"
    using trace_open_ok [OF assms(1) j(1) assms(3)] by blast
  define k where "k = (if in_last_report_time i = DNS_NO_TIME
    then i\<lparr>in_ticks := Suc (in_ticks i), in_last_report_time := dns_us_time_from_timespec (ie_clock E (in_ticks i))\<rparr> else i)"
  have proc: "dns_input_process E Op evs input uri = (if r \<noteq> DNS_RET_OK then Some (Inr (r, i)) else input_loop E evs k)"
    using assms(4) i(1)
    by (simp add: dns_input_process_def Let_def j_def [symmetric] k_def current_us_time_def)
  show ?thesis
  proof (cases "opens Op input")
    case True
    have r: "r = DNS_RET_OK" "input_reading M i" using i(2) j(4) True by simp_all
    have "settings_ok i" "input_inv i" "dumper_ok M i" using r(2) by (simp_all add: input_reading_def input_inv_def)
    then have "calm M i k"
      using clock_range [OF assms(1), of "in_ticks i"]
      by (intro quiet_calm(1)) (auto simp: k_def quiet_def reads_def settings_ok_def)
    then have k: "input_reading M k" "in_content k = in_content i" "fst (reads k) = fst (reads i)" "in_online k = in_online i"
      using calm_reading r(2) by (auto simp: calm_def steady_def)
    show ?thesis using loop_ok [OF assms(1) k(1) evs] True r(1) k i(3-5) j inv by (simp add: proc)
  next
    case False
    then show ?thesis using i j inv by (simp add: proc)
  qed
qed

text \<open>The end of the input.\<close>

lemma frame_fine_counts:
  "frame_fine hp dur sz f \<Longrightarrow> frame_type f = 0 \<and> fr_count f = length (fr_packets f) \<and>
     DNS_NO_TIME < time_start f \<and> DNS_NO_TIME < time_end f"
  by (simp add: frame_fine_def wf_frame_def)

lemma input_ok_chain:
  assumes "\<forall>f \<in> set fs. frame_fine hp dur sz f" and "\<forall>p \<in> set (concat (map fr_packets fs)). fresh hp p"
  shows "input_ok hp (fs @ [dns_packet_frame_create_final t])"
  using assms
proof (induction fs)
  case (Cons f fs)
  then show ?case using frame_fine_counts [of hp dur sz f] by (simp add: inframe_ok_def)
qed simp

lemma finish_ok:
  assumes "clock_ok E" and "input_ready M input"
  shows "\<exists>i fs t. dns_input_finish E input = Inr i \<and> in_output i = fs @ [dns_packet_frame_create_final t] \<and>
    in_heap i = in_heap input \<and> input_ok (in_heap i) (in_output i) \<and>
    concat (map fr_packets (in_output i)) = in_pids input \<and> distinct (in_pids input) \<and> dns_input_destroy i = Inr () \<and>
    contiguous fs t \<and> (concat (map fr_packets fs) = [] \<or>
      (\<forall>f \<in> set fs. frame_fine (in_heap i) (in_frame_max_duration input) (in_frame_max_size input) f))"
proof -
  have ok: "input_inv input" "dumper_ok M input" "settings_ok input" "pids_ok input" "\<not> in_trace input" "\<not> in_packet input"
    using assms(2) by (simp_all add: input_ready_def input_inv_def)
  obtain f where f: "in_frame input = Some f" "time_end f < 2 ^ 62" using inv_frame [OF ok(1)] by blast
  have ch: "chain_ok (in_heap input) (in_frame_max_duration input) (in_frame_max_size input) (in_output input) f"
    using ok(1) f(1) by (simp add: input_inv_def)
  obtain j where j: "dns_input_output_frame E input = Inr j" "unframed j = unframed input"
    "in_output j = in_output input @ [f]" "in_frame j = Some (dns_packet_frame_create (time_end f) (time_end f))"
    using output_frame_ok [OF assms(1) ok(3) f] by blast
  note u = unframedD [OF j(2)]
  let ?fs = "in_output input @ [f]" and ?t = "time_end f"
  have outs: "contiguous ?fs ?t" "input_ok (in_heap input) (?fs @ [dns_packet_frame_create_final ?t])"
    "concat (map fr_packets ?fs) = [] \<or> (\<forall>f \<in> set ?fs. frame_fine (in_heap input) (in_frame_max_duration input) (in_frame_max_size input) f)"
  proof (atomize (full), cases "time_start f = DNS_NO_TIME")
    case True
    then have "in_output input = []" "f = dns_packet_frame_create DNS_NO_TIME DNS_NO_TIME" using ch by (simp_all add: chain_ok_def)
    then show "contiguous ?fs ?t \<and> input_ok (in_heap input) (?fs @ [dns_packet_frame_create_final ?t]) \<and>
      (concat (map fr_packets ?fs) = [] \<or> (\<forall>f \<in> set ?fs. frame_fine (in_heap input) (in_frame_max_duration input) (in_frame_max_size input) f))"
      by simp
  next
    case False
    then have fine: "contiguous (in_output input) (time_start f)"
      "\<forall>g \<in> set ?fs. frame_fine (in_heap input) (in_frame_max_duration input) (in_frame_max_size input) g"
      using ch by (simp_all add: chain_ok_def)
    moreover have "\<forall>p \<in> set (concat (map fr_packets ?fs)). fresh (in_heap input) p"
      using ok(4) f(1) by (simp add: pids_ok_def in_pids_def)
    ultimately show "contiguous ?fs ?t \<and> input_ok (in_heap input) (?fs @ [dns_packet_frame_create_final ?t]) \<and>
      (concat (map fr_packets ?fs) = [] \<or> (\<forall>f \<in> set ?fs. frame_fine (in_heap input) (in_frame_max_duration input) (in_frame_max_size input) f))"
      using input_ok_chain [OF fine(2)] by (simp add: contiguous_snoc)
  qed
  define k where "k = j\<lparr>in_output := ?fs @ [dns_packet_frame_create_final ?t], in_frame := None\<rparr>"
  have "\<exists>x. dns_input_finish E input = Inr (k\<lparr>in_dumper := x\<rparr>) \<and> (case x of None \<Rightarrow> True | Some d \<Rightarrow> dd_trace d = None)"
  proof (cases "in_dumper input")
    case None
    then have "k\<lparr>in_dumper := None\<rparr> = k" using u(10) by (simp add: k_def)
    then show ?thesis using None j u(10)
      by (intro exI [of _ None]) (simp add: dns_input_finish_def dns_packet_frame_create_final_def k_def)
  next
    case (Some d)
    then obtain d' where "dns_dump_close d = Inr d'" "dd_trace d' = None" using ok(2) dump_close_inv [of M d] by (auto simp: dumper_ok_def)
    then show ?thesis using Some j u(10)
      by (intro exI [of _ "Some d'"]) (simp add: dns_input_finish_def dns_packet_frame_create_final_def k_def)
  qed
  then obtain x where x: "dns_input_finish E input = Inr (k\<lparr>in_dumper := x\<rparr>)" "case x of None \<Rightarrow> True | Some d \<Rightarrow> dd_trace d = None"
    by blast
  have "dns_input_destroy (k\<lparr>in_dumper := x\<rparr>) = Inr ()"
    using x(2) ok(5,6) u(7,8) by (auto simp: dns_input_destroy_def k_def dns_dump_destroy_def split: option.splits)
  moreover have "concat (map fr_packets (?fs @ [dns_packet_frame_create_final ?t])) = in_pids input" "distinct (in_pids input)"
    using f(1) ok(4) by (simp_all add: in_pids_def pids_ok_def)
  ultimately show ?thesis
    using x(1) outs u(1) by (intro exI [of _ "k\<lparr>in_dumper := x\<rparr>"] exI [of _ ?fs] exI [of _ ?t]) (simp add: k_def)
qed

text \<open>A new input is ready.\<close>

definition input_conf_ok :: "dns_config \<Rightarrow> bool" where
  "input_conf_ok conf \<longleftrightarrow> dns_collector_conf_commit conf = None \<and> dump_compress_type conf \<in> {0..<5} \<and>
     0 \<le> dns_fsec_to_us_time (input_real_time_grace_sec conf) \<and> dns_fsec_to_us_time (input_real_time_grace_sec conf) < 2 ^ 62"

lemma input_create_ready:
  assumes "input_conf_ok conf" and "0 \<le> M"
  shows "\<exists>input. dns_input_create hp next conf = Inr input \<and> input_ready M input \<and> in_pids input = [] \<and> in_content input = [] \<and>
    fst (reads input) = 0 \<and> \<not> in_online input \<and> in_heap input = hp \<and>
    in_frame_max_duration input = dns_fsec_to_us_time (max_frame_duration_sec conf) \<and>
    in_frame_max_size input = max_frame_size conf"
proof -
  have d: "0 < dns_fsec_to_us_time (max_frame_duration_sec conf)"
    using conf_frame_duration [of conf] assms(1) by (simp add: input_conf_ok_def)
  have "\<exists>d. dns_dump_create conf = Inr d"
    using assms(1) by (auto simp: dns_dump_create_def Let_def dns_dump_compress_types_num_def input_conf_ok_def)
  then obtain x where x: "(if dump_path_fmt conf \<noteq> [] then bindr (dns_dump_create conf) (\<lambda>d. Inr (Some d)) else Inr None) = Inr x"
      "case x of None \<Rightarrow> True | Some d \<Rightarrow> dump_inv M d"
    using dump_create_inv [OF assms(2), of conf] by (cases "dump_path_fmt conf = []") auto
  show ?thesis
    unfolding dns_input_create_def x(1) using d x(2) assms
    by (simp add: input_ready_def input_inv_def settings_ok_def pids_ok_def in_pids_def in_content_def reads_def
        chain_ok_def dumper_ok_def input_conf_ok_def)
qed

section \<open>Properties\<close>


definition ex_input_env :: input_env where
  "ex_input_env = \<lparr>ie_clock = (\<lambda>_. \<lparr>ts_sec = 1000, ts_nsec = 0\<rparr>), ie_dropped = (\<lambda>_. 0), ie_knot = ex_knot_lib\<rparr>"

definition ex_open_env :: open_env where
  "ex_open_env = \<lparr>oe_create_err = False, oe_snaplen = 0, oe_promisc = 0, oe_filter = 0, oe_start = 0, oe_packet = True\<rparr>"

definition ex_events :: "trace_event list" where
  "ex_events = [TRACE_EVENT_PACKET (ex_trace TRACE_IPPROTO_UDP [1, 2, 3]) (ex_dump_env 1500), TRACE_EVENT_TERMINATE False]"

lemma ex_clock_ok: "clock_ok ex_input_env"
  by (simp add: clock_ok_def ex_input_env_def dns_us_time_from_timespec_def)

lemma ex_events_ok: "\<forall>ev \<in> set ex_events. event_ok ex_knot_lib 1500 ev"
proof -
  have "\<exists>r res. dns_packet_create_from_libtrace ex_knot_lib (ex_trace TRACE_IPPROTO_UDP [1, 2, 3]) = Inr (r, res)"
    by (rule create_from_libtrace_returns [where proto = TRACE_IPPROTO_UDP and rem = 32])
      (simp_all add: ex_trace_ok ex_knot_lib_def, simp_all add: ex_trace_def TRACE_IPPROTO_UDP_def TRACE_IPPROTO_TCP_def)
  then have "packet_event_ok ex_knot_lib 1500 (ex_trace TRACE_IPPROTO_UDP [1, 2, 3]) (ex_dump_env 1500)"
    using ex_trace_ok [of "[1, 2, 3]" TRACE_IPPROTO_UDP]
    by (auto simp: packet_event_ok_def ex_dump_env_def)
      (simp_all add: ex_trace_def dns_us_time_from_timeval_def dns_us_time_from_timespec_def DNS_NO_TIME_def)
  then show ?thesis by (simp add: ex_events_def)
qed

lemma ex_conf_ok: "input_conf_ok dns_collector_conf_init"
  by (simp add: input_conf_ok_def dns_collector_conf_commit_def dns_collector_conf_init_def DNS_OUTPUT_TYPE_CSV_def
      c_char_def isalnum_def bad_separators_def all_fields_def dns_of_LAST_def dns_fsec_to_us_time_def c_trunc_def)

lemma ex_accepted: "length (accepted ex_knot_lib ex_events) = 1"
  by (simp add: accepted_def ex_events_def ex_trace_def ex_knot_lib_def dns_packet_create_from_libtrace_def
      transport_payload_def parse_dns_def fill_net_def dns_packet_create_def ex_knot_def ex_addr_def
      TRACE_IPPROTO_UDP_def TRACE_IPPROTO_TCP_def TRACE_IPPROTO_ICMP_def TRACE_IPPROTO_ICMPV6_def Let_def
      DNS_PACKET_IS_REQUEST_def)


text \<open>
  C8: finishing the input sends what the matcher expects: the frames hold exactly the packets read,
  in order, each packet once; they follow each other without a gap, none lasts longer than the
  configured duration or, unless it has a single packet, is bigger than the configured size; the last
  one is the final frame. The input can then be destroyed.
\<close>

theorem input_finish_correct:
  assumes "clock_ok E" and "input_ready M input"
  shows "\<exists>i fs t. dns_input_finish E input = Inr i \<and> in_output i = fs @ [dns_packet_frame_create_final t] \<and>
    input_ok (in_heap i) (in_output i) \<and> distinct (concat (map fr_packets (in_output i))) \<and>
    map (in_heap i) (concat (map fr_packets (in_output i))) = in_content input \<and> contiguous fs t \<and>
    (in_content input = [] \<or> (\<forall>f \<in> set fs. time_start f \<le> time_end f \<and>
      time_end f \<le> time_start f + in_frame_max_duration input \<and>
      (fr_size f \<le> word_of_int (in_frame_max_size input) \<or> length (fr_packets f) \<le> 1))) \<and>
    dns_input_destroy i = Inr ()"
proof -
  obtain i fs t where i: "dns_input_finish E input = Inr i" "in_output i = fs @ [dns_packet_frame_create_final t]"
    "in_heap i = in_heap input" "input_ok (in_heap i) (in_output i)"
    "concat (map fr_packets (in_output i)) = in_pids input" "distinct (in_pids input)" "dns_input_destroy i = Inr ()"
    "contiguous fs t" "concat (map fr_packets fs) = [] \<or>
      (\<forall>f \<in> set fs. frame_fine (in_heap i) (in_frame_max_duration input) (in_frame_max_size input) f)"
    using finish_ok [OF assms] by blast
  have "concat (map fr_packets fs) = in_pids input" using i(2,5) by simp
  then have "in_content input = [] \<or> (\<forall>f \<in> set fs. time_start f \<le> time_end f \<and>
      time_end f \<le> time_start f + in_frame_max_duration input \<and>
      (fr_size f \<le> word_of_int (in_frame_max_size input) \<or> length (fr_packets f) \<le> 1))"
    using i(9) by (auto simp: in_content_def frame_fine_def)
  then show ?thesis using i(1-8) by (intro exI [of _ i] exI [of _ fs] exI [of _ t]) (simp add: in_content_def)
qed

theorem input_finish_correct_witness:
  "\<exists>input i fs t. dns_input_create Map.empty 2 dns_collector_conf_init = Inr input \<and>
    dns_input_finish ex_input_env input = Inr i \<and> in_output i = fs @ [dns_packet_frame_create_final t] \<and>
    dns_input_destroy i = Inr ()"
proof -
  obtain input where "dns_input_create Map.empty 2 dns_collector_conf_init = Inr input" "input_ready 1500 input"
    using input_create_ready [OF ex_conf_ok, of 1500 Map.empty 2] by auto
  then show ?thesis using input_finish_correct [OF ex_clock_ok] by blast
qed

text \<open>
  C36: a dump file that cannot be written ends the program instead of the dumping: after a failed
  write the file is still open, and destroying the dumper asserts that it is not.
\<close>

theorem dump_write_error_aborts:
  assumes "in_dumper input = Some d" and "dd_trace d = Some tr" and "\<not> limiting d" and "dd_period_sec d = 0"
    and "de_write de \<le> 0"
  shows "dump_dropped de input tp = Inl (Assert_failed ''dump && !dump->trace'')"
proof -
  have f: "dd_trace (dump_first_event d tp) = Some tr" "\<not> dd_rate (dump_first_event d tp) > 1 / 1000000"
    "dd_period_sec (dump_first_event d tp) = 0"
    using assms by (simp_all add: dump_first_event_def limiting_def)
  then have "dns_dump_packet de d tp = Inr (DNS_RET_ERR, dump_first_event d tp)"
    using assms(5) by (simp add: dns_dump_packet_def Let_def dump_rate_limited_def dump_rotate_write_def dump_write_def)
  then show ?thesis using f(1) assms(1) by (simp add: dump_dropped_def dns_dump_destroy_def)
qed

definition ex_open_dump :: dns_dump where
  "ex_open_dump = \<lparr>dd_period_sec = 0, dd_path_fmt = [102], dd_uri = Some [102], dd_trace = Some \<lparr>lo_uri = [102], lo_packets = []\<rparr>,
     dd_opened = 1000005, dd_compress_type = TRACE_OPTION_COMPRESSTYPE_NONE, dd_compress_level = 0, dd_rate = 0,
     dd_tokens = 0, dd_last_event = 1000005, dd_current_dumped = 0, dd_current_bytes = 0, dd_current_skipped = 0, dd_files = []\<rparr>"

theorem dump_write_error_aborts_witness:
  "\<exists>input. dns_input_create Map.empty 2 dns_collector_conf_init = Inr input \<and>
    dump_dropped (ex_dump_env (- 1)) (input\<lparr>in_dumper := Some ex_open_dump\<rparr>) (ex_trace 17 []) =
      Inl (Assert_failed ''dump && !dump->trace'')"
proof -
  obtain input where "dns_input_create Map.empty 2 dns_collector_conf_init = Inr input"
    using input_create_ready [OF ex_conf_ok, of 1500 Map.empty 2] by auto
  moreover have "in_dumper (input\<lparr>in_dumper := Some ex_open_dump\<rparr>) = Some ex_open_dump"
    "dd_trace ex_open_dump = Some \<lparr>lo_uri = [102], lo_packets = []\<rparr>" "\<not> limiting ex_open_dump"
    "dd_period_sec ex_open_dump = 0" "de_write (ex_dump_env (- 1)) \<le> 0"
    by (simp_all add: ex_open_dump_def limiting_def ex_dump_env_def)
  ultimately show ?thesis using dump_write_error_aborts by blast
qed

text \<open>
  C35: if libtrace rejects the filter for one pcap file, the next file that can be opened ends the
  program: the filter of the failed attempt is kept, and opening asserts that there is none.
\<close>

theorem filter_error_then_abort:
  assumes "input_ready M input" and "\<not> in_online input" and "in_bpf_string input \<noteq> None"
    and "\<not> oe_create_err Op" and "0 \<le> open_config Op input" and "oe_filter Op < 0"
    and "\<not> oe_create_err Op'" and "0 \<le> open_config Op' input"
  shows "\<exists>i. dns_input_process E Op evs input (Some u) = Some (Inr (DNS_RET_ERR, i)) \<and>
    dns_input_process E Op' evs' i (Some u') = Some (Inl (Assert_failed ''!input->bpf_filter''))"
proof -
  have ok: "\<not> in_trace input" "\<not> in_packet input" "\<not> in_bpf_filter input"
    using assms(1) by (simp_all add: input_ready_def)
  let ?i = "input\<lparr>in_uri := u, in_trace := False, in_bpf_filter := True\<rparr>"
  have "dns_input_process E Op evs input (Some u) = Some (Inr (DNS_RET_ERR, ?i))"
    using ok assms(2-6) by (simp add: dns_input_process_def dns_input_trace_open_def open_start_def open_config_def Let_def)
  moreover have "dns_input_process E Op' evs' ?i (Some u') = Some (Inl (Assert_failed ''!input->bpf_filter''))"
    using ok assms(2,3,7,8) by (simp add: dns_input_process_def dns_input_trace_open_def open_start_def open_config_def Let_def)
  ultimately show ?thesis by blast
qed

theorem filter_error_then_abort_witness:
  "\<exists>input i. dns_input_create Map.empty 2 dns_collector_conf_init = Inr input \<and>
    dns_input_process ex_input_env (ex_open_env\<lparr>oe_filter := - 1\<rparr>) ex_events input (Some [102]) = Some (Inr (DNS_RET_ERR, i)) \<and>
    dns_input_process ex_input_env ex_open_env ex_events i (Some [103]) = Some (Inl (Assert_failed ''!input->bpf_filter''))"
proof -
  obtain input where c: "dns_input_create Map.empty 2 dns_collector_conf_init = Inr input" "input_ready 1500 input" "\<not> in_online input"
    using input_create_ready [OF ex_conf_ok, of 1500 Map.empty 2] by auto
  have "in_bpf_string input \<noteq> None" using c(1) by (auto simp: dns_input_create_def bindr_Inr_iff)
  then show ?thesis
    using filter_error_then_abort [OF c(2,3), of "ex_open_env\<lparr>oe_filter := - 1\<rparr>" ex_open_env ex_input_env ex_events "[102]" ex_events "[103]"] c(1,3)
    by (simp add: ex_open_env_def open_config_def)
qed

end
