(* ===== verification/Output.thy ===== *)
theory Output
  imports Packet_Frame Dns_Config
begin

text \<open>
  \<^verbatim>\<open>src/output.h\<close> and \<^verbatim>\<open>src/output.c\<close>: the output thread that the CSV and the CBOR writer share.
  It reads the frames of the matcher, opens, rotates and closes the output files and calls the
  writer's hooks for every packet.

  The operating system is the parameter \<open>os_env\<close>: the answers to the calls that open a file, start
  the pipe subprocess and wait for it, numbered in the order of the calls. An open file is the list
  of the bytes written to it; \<open>ot_files\<close> are the files closed so far, \<open>ot_side_files\<close> those that a
  writer's hook wrote on its own. The input queue is the list of
  the frames still to come. The subprocess is not modelled beyond its exit.
\<close>

section \<open>The output\<close>

record dns_output =
  ot_in :: "dns_packet_frame list"
  ot_out_file :: "u8 list option"
  ot_period_sec :: int
  ot_output_opened :: int
  ot_total_items :: u64
  ot_total_request_only :: u64
  ot_total_response_only :: u64
  ot_total_bytes :: u64
  ot_current_items :: u64
  ot_current_request_only :: u64
  ot_current_response_only :: u64
  ot_current_bytes :: u64
  ot_current_time :: int
  ot_path :: "u8 list option"
  ot_path_fmt :: "u8 list"
  ot_pipe_cmd :: "u8 list"
  ot_pipe_pid :: int
  ot_files :: "(u8 list \<times> u8 list) list"
  ot_side_files :: "(u8 list \<times> u8 list) list"
  ot_heap :: heap
  ot_calls :: nat

text \<open>
  The result of \<open>waitpid\<close>: an error, no change yet, an exit with a status, or any other
  termination.
\<close>

datatype wait_result = Wait_error | Still_running | Exited int | Abnormal

record os_env =
  os_strftime :: "nat \<Rightarrow> u8 list \<Rightarrow> int \<Rightarrow> u8 list"
  os_clock :: timespec
  os_open :: "nat \<Rightarrow> bool"
  os_spawn :: "nat \<Rightarrow> int option"
  os_wait :: "nat \<Rightarrow> bool \<Rightarrow> wait_result"

text \<open>The hooks of a writer, which may be absent.\<close>

record 'a output_hooks =
  hk_write_packet :: "(pid \<Rightarrow> 'a \<Rightarrow> 'a res) option"
  hk_start_file :: "(int \<Rightarrow> 'a \<Rightarrow> 'a res) option"
  hk_finish_file :: "(int \<Rightarrow> 'a \<Rightarrow> 'a res) option"

definition call_hook :: "('b \<Rightarrow> 'a \<Rightarrow> 'a res) option \<Rightarrow> 'b \<Rightarrow> 'a \<Rightarrow> 'a res" where
  "call_hook hook x out = (case hook of None \<Rightarrow> Inr out | Some h \<Rightarrow> h x out)"

definition dns_output_init ::
    "heap \<Rightarrow> dns_packet_frame list \<Rightarrow> u8 list \<Rightarrow> u8 list \<Rightarrow> int \<Rightarrow> dns_output" where
  "dns_output_init hp frames path_fmt pipe_cmd period_sec =
     \<lparr>ot_in = frames, ot_out_file = None, ot_period_sec = period_sec, ot_output_opened = DNS_NO_TIME,
      ot_total_items = 0, ot_total_request_only = 0, ot_total_response_only = 0, ot_total_bytes = 0,
      ot_current_items = 0, ot_current_request_only = 0, ot_current_response_only = 0, ot_current_bytes = 0,
      ot_current_time = DNS_NO_TIME, ot_path = None, ot_path_fmt = path_fmt, ot_pipe_cmd = pipe_cmd,
      ot_pipe_pid = 0, ot_files = [], ot_side_files = [], ot_heap = hp, ot_calls = 0\<rparr>"

text \<open>\<open>dns_output_finalize\<close> frees the output, which must not have a file open.\<close>

definition dns_output_finalize :: "'a dns_output_scheme \<Rightarrow> unit res" where
  "dns_output_finalize out = assertr (ot_path out = None) ''out && (!out->path)''"

text \<open>
  Waiting for the pipe subprocess: 0 if there is none or it still runs, 1 if it succeeded, 2 if it
  failed. \<open>waitpid\<close> for one process returns no other process, as the assertion of the source says.
\<close>

definition dns_output_wait_for_pipe_process ::
    "os_env \<Rightarrow> 'a dns_output_scheme \<Rightarrow> bool \<Rightarrow> (int \<times> 'a dns_output_scheme) res" where
  "dns_output_wait_for_pipe_process E out wait =
     (if ot_pipe_pid out \<le> 0 then Inr (0, out)
      else
        let n = ot_calls out; out = out\<lparr>ot_calls := n + 1\<rparr> in
        case os_wait E n wait of
          Wait_error \<Rightarrow> Inl (Died ''waitpid() error'')
        | Still_running \<Rightarrow> Inr (0, out)
        | Abnormal \<Rightarrow> Inr (2, out\<lparr>ot_pipe_pid := 0\<rparr>)
        | Exited status \<Rightarrow> Inr (if status \<noteq> 0 then 2 else 1, out\<lparr>ot_pipe_pid := 0\<rparr>))"

text \<open>Starting the subprocess, in the master process: \<open>pipe\<close>, \<open>fork\<close> and \<open>close\<close> succeed or it dies.\<close>

definition dns_output_start_subprocess :: "os_env \<Rightarrow> 'a dns_output_scheme \<Rightarrow> 'a dns_output_scheme res" where
  "dns_output_start_subprocess E out =
     (let n = ot_calls out in
      case os_spawn E n of
        None \<Rightarrow> Inl (Died ''fork() error'')
      | Some pid \<Rightarrow> Inr (out\<lparr>ot_pipe_pid := pid, ot_calls := n + 1\<rparr>))"

definition open_path :: "os_env \<Rightarrow> 'a dns_output_scheme \<Rightarrow> int \<Rightarrow> u8 list res" where
  "open_path E out time =
     (if ot_path_fmt out \<noteq> [] then
        bindr (dns_us_time_strftime (os_strftime E) (length (ot_path_fmt out) + 64) (ot_path_fmt out) time) (\<lambda>name.
          if name = [] then Inl (Died ''Expanded filename expansion too long.'') else Inr name)
      else Inr [])"

text \<open>Opening the stream: the pipe to the subprocess, the file, or standard output.\<close>

definition open_stream :: "os_env \<Rightarrow> 'a dns_output_scheme \<Rightarrow> 'a dns_output_scheme res" where
  "open_stream E out =
     bindr (if ot_pipe_cmd out \<noteq> [] then dns_output_start_subprocess E out else Inr out) (\<lambda>out.
     let n = ot_calls out; out = out\<lparr>ot_calls := n + 1\<rparr> in
     if os_open E n then Inr (out\<lparr>ot_out_file := Some []\<rparr>)
     else Inl (Died ''Unable to open output''))"

definition dns_output_open ::
    "os_env \<Rightarrow> 'a dns_output_scheme output_hooks \<Rightarrow> 'a dns_output_scheme \<Rightarrow> int \<Rightarrow> 'a dns_output_scheme res" where
  "dns_output_open E H out time =
     bindr (assertr (ot_path out = None \<and> ot_out_file out = None \<and> time \<noteq> DNS_NO_TIME)
       ''out && (!out->path) && (!out->out_file) && (time != DNS_NO_TIME)'') (\<lambda>_.
     bindr (open_path E out time) (\<lambda>path.
     bindr (open_stream E (out\<lparr>ot_path := Some path\<rparr>)) (\<lambda>out.
       call_hook (hk_start_file H) time
         (out\<lparr>ot_output_opened := time, ot_current_time := max (ot_current_time out) time\<rparr>))))"

text \<open>The counters of the file are added to the totals and reset.\<close>

definition close_account :: "'a dns_output_scheme \<Rightarrow> int \<Rightarrow> 'a dns_output_scheme" where
  "close_account out time = out\<lparr>
     ot_total_items := ot_total_items out + ot_current_items out,
     ot_total_request_only := ot_total_request_only out + ot_current_request_only out,
     ot_total_response_only := ot_total_response_only out + ot_current_response_only out,
     ot_total_bytes := ot_total_bytes out + ot_current_bytes out,
     ot_current_time := max (ot_current_time out) time,
     ot_current_items := 0, ot_current_request_only := 0, ot_current_response_only := 0, ot_current_bytes := 0\<rparr>"

definition dns_output_close ::
    "os_env \<Rightarrow> 'a dns_output_scheme output_hooks \<Rightarrow> 'a dns_output_scheme \<Rightarrow> int \<Rightarrow> 'a dns_output_scheme res" where
  "dns_output_close E H out time =
     bindr (assertr (ot_out_file out \<noteq> None \<and> ot_path out \<noteq> None \<and> time \<noteq> DNS_NO_TIME)
       ''out && out->out_file && out->path && (time != DNS_NO_TIME)'') (\<lambda>_.
     bindr (call_hook (hk_finish_file H) time out) (\<lambda>out.
     let out = close_account out time in
     bindr (dns_us_time_to_fsec (ot_current_time out - ot_output_opened out)) (\<lambda>_.
     case (ot_path out, ot_out_file out) of
       (Some path, Some bytes) \<Rightarrow>
         bindr (dns_output_wait_for_pipe_process E
             (out\<lparr>ot_files := ot_files out @ [(path, bytes)], ot_out_file := None, ot_path := None\<rparr>) True)
           (\<lambda>(r, out). if r = 2 then Inl (Died ''Pipe subprocess terminated with error, check your configuration.'')
                       else Inr out)
     | _ \<Rightarrow> Inl (Bad_pointer ''out->path''))))"

definition dns_output_check_rotation ::
    "os_env \<Rightarrow> 'a dns_output_scheme output_hooks \<Rightarrow> 'a dns_output_scheme \<Rightarrow> int \<Rightarrow> 'a dns_output_scheme res" where
  "dns_output_check_rotation E H out time =
     bindr (assertr (time \<noteq> DNS_NO_TIME) ''out && (time != DNS_NO_TIME)'') (\<lambda>_.
     bindr (if ot_out_file out \<noteq> None \<and> ot_period_sec out > 0 \<and>
               dns_next_rotation (os_clock E) (ot_period_sec out) (ot_output_opened out) time
            then dns_output_close E H out time else Inr out) (\<lambda>out.
     bindr (if ot_out_file out = None then dns_output_open E H out time else Inr out) (\<lambda>out.
       Inr (out\<lparr>ot_current_time := max (ot_current_time out) time\<rparr>))))"

section \<open>The thread\<close>

text \<open>The packets of a frame, then one frame.\<close>

fun output_packets ::
    "os_env \<Rightarrow> 'a dns_output_scheme output_hooks \<Rightarrow> pid list \<Rightarrow> 'a dns_output_scheme \<Rightarrow> 'a dns_output_scheme res" where
  "output_packets E H [] out = Inr out"
| "output_packets E H (p # ps) out =
     bindr (deref (ot_heap out) p) (\<lambda>pkt.
     bindr (dns_output_check_rotation E H out (ts pkt)) (\<lambda>out.
     bindr (call_hook (hk_write_packet H) p out) (\<lambda>out. output_packets E H ps out)))"

definition output_regular ::
    "os_env \<Rightarrow> 'a dns_output_scheme output_hooks \<Rightarrow> dns_packet_frame \<Rightarrow> 'a dns_output_scheme \<Rightarrow> 'a dns_output_scheme res" where
  "output_regular E H f out =
     bindr (dns_output_wait_for_pipe_process E out False) (\<lambda>(r, out).
     if r \<noteq> 0 then Inl (Died ''Pipe subprocess terminated with error, check your configuration.'')
     else bindr (dns_output_check_rotation E H out (time_start f)) (\<lambda>out. output_packets E H (fr_packets f) out))"

text \<open>One round of the loop: \<open>True\<close> if it goes on.\<close>

definition output_round ::
    "os_env \<Rightarrow> 'a dns_output_scheme output_hooks \<Rightarrow> dns_packet_frame \<Rightarrow> 'a dns_output_scheme \<Rightarrow> (bool \<times> 'a dns_output_scheme) run" where
  "output_round E H f out =
     bindo (Some (
       if frame_type f = 1 then bindr (assertr (fr_count f = 0) ''f->count == 0'') (\<lambda>_. Inr out)
       else if time_start f = DNS_NO_TIME then bindr (assertr (fr_count f = 0) ''f->count == 0'') (\<lambda>_. Inr out)
       else output_regular E H f out)) (\<lambda>out.
     bindo (dns_packet_frame_destroy (ot_heap out) f) (\<lambda>hp.
       Some (Inr (frame_type f \<noteq> 1, out\<lparr>ot_heap := hp\<rparr>))))"

fun output_loop ::
    "os_env \<Rightarrow> 'a dns_output_scheme output_hooks \<Rightarrow> dns_packet_frame list \<Rightarrow> 'a dns_output_scheme \<Rightarrow> 'a dns_output_scheme run" where
  "output_loop E H [] out = Some (Inl Blocked)"
| "output_loop E H (f # fs) out =
     bindo (output_round E H f (out\<lparr>ot_in := fs\<rparr>)) (\<lambda>(more, out).
       if more then output_loop E H fs out else Some (Inr out))"

definition dns_output_main ::
    "os_env \<Rightarrow> 'a dns_output_scheme output_hooks \<Rightarrow> 'a dns_output_scheme \<Rightarrow> 'a dns_output_scheme run" where
  "dns_output_main E H out =
     bindo (output_loop E H (ot_in out) out) (\<lambda>out.
       if ot_out_file out \<noteq> None then Some (dns_output_close E H out (ot_current_time out)) else Some (Inr out))"

text \<open>The accounting that the hooks of both writers do after writing a packet.\<close>

definition output_account :: "pid \<Rightarrow> 'a dns_output_scheme \<Rightarrow> 'a dns_output_scheme res" where
  "output_account p out =
     bindr (deref (ot_heap out) p) (\<lambda>pkt.
     bindr (DNS_PACKET_RESPONSE (ot_heap out) pkt) (\<lambda>resp.
       Inr (out\<lparr>ot_current_items := ot_current_items out + 1,
         ot_current_request_only := ot_current_request_only out + (if resp = None then 1 else 0),
         ot_current_response_only := ot_current_response_only out + (if DNS_PACKET_REQUEST pkt = None then 1 else 0)\<rparr>)))"

text \<open>Writing to the open file and counting the bytes, as both writers do.\<close>

definition file_write :: "u8 list \<Rightarrow> 'a dns_output_scheme \<Rightarrow> 'a dns_output_scheme res" where
  "file_write bs out =
     (case ot_out_file out of
        None \<Rightarrow> Inl (Bad_pointer ''out_file'')
      | Some old \<Rightarrow> Inr (out\<lparr>ot_out_file := Some (old @ bs),
          ot_current_bytes := ot_current_bytes out + of_nat (length bs)\<rparr>))"

text \<open>The packet that \<open>pkt->response\<close> points to.\<close>

definition own_response :: "heap \<Rightarrow> dns_packet \<Rightarrow> dns_packet option" where
  "own_response hp pkt = (case response pkt of None \<Rightarrow> None | Some r \<Rightarrow> hp r)"

section \<open>Specification\<close>

text \<open>
  What a file must hold: the header and the records of its packets. The packets are distributed
  over the files in order; the counters tell how many there are, how many without a response or
  without a request, and how many bytes were written.
\<close>

definition file_of :: "u8 list \<Rightarrow> (pid \<Rightarrow> u8 list) \<Rightarrow> u8 list \<times> pid list \<Rightarrow> u8 list \<times> u8 list" where
  "file_of hdr rec g = (fst g, hdr @ concat (map rec (snd g)))"

definition no_response :: "heap \<Rightarrow> pid \<Rightarrow> bool" where
  "no_response hp p \<longleftrightarrow> (case hp p of None \<Rightarrow> False | Some pkt \<Rightarrow> DNS_PACKET_RESPONSE hp pkt = Inr None)"

definition no_request :: "heap \<Rightarrow> pid \<Rightarrow> bool" where
  "no_request hp p \<longleftrightarrow> (case hp p of None \<Rightarrow> False | Some pkt \<Rightarrow> DNS_PACKET_REQUEST pkt = None)"

definition output_counts :: "heap \<Rightarrow> pid list \<Rightarrow> 'a dns_output_scheme \<Rightarrow> bool" where
  "output_counts hp ps out \<longleftrightarrow>
     ot_total_items out + ot_current_items out = of_nat (length ps) \<and>
     ot_total_request_only out + ot_current_request_only out = of_nat (length (filter (no_response hp) ps)) \<and>
     ot_total_response_only out + ot_current_response_only out = of_nat (length (filter (no_request hp) ps)) \<and>
     ot_total_bytes out + ot_current_bytes out = of_nat (sum_list (map (length \<circ> snd) (ot_files out)) +
       (case ot_out_file out of None \<Rightarrow> 0 | Some bs \<Rightarrow> length bs))"

definition output_inv :: "u8 list \<Rightarrow> (pid \<Rightarrow> u8 list) \<Rightarrow> heap \<Rightarrow> pid list \<Rightarrow> 'a dns_output_scheme \<Rightarrow> bool" where
  "output_inv hdr rec hp ps out \<longleftrightarrow> output_counts hp ps out \<and>
     (\<exists>gs. ot_files out = map (file_of hdr rec) gs \<and>
       (case ot_out_file out of
          None \<Rightarrow> ot_path out = None \<and> concat (map snd gs) = ps
        | Some bs \<Rightarrow> \<exists>path cur. ot_path out = Some path \<and> bs = hdr @ concat (map rec cur) \<and>
            concat (map snd gs) @ cur = ps \<and> DNS_NO_TIME < ot_output_opened out \<and>
            ot_output_opened out \<le> ot_current_time out))"

text \<open>The frames that the thread can write: \<open>good\<close> packets that have a time and are owned once.\<close>

definition frames_writable :: "(heap \<Rightarrow> pid \<Rightarrow> bool) \<Rightarrow> heap \<Rightarrow> dns_packet_frame list \<Rightarrow> bool" where
  "frames_writable good hp fs \<longleftrightarrow> distinct (owned_all hp (concat (map fr_packets fs))) \<and>
     (\<forall>f \<in> set fs. frame_type f \<noteq> 1 \<and> fr_count f = length (fr_packets f) \<and>
       (fr_packets f = [] \<and> time_start f = DNS_NO_TIME \<or> DNS_NO_TIME < time_start f) \<and>
       (\<forall>p \<in> set (fr_packets f). packet_ok hp p \<and> DNS_NO_TIME < ts (the (hp p)) \<and> good hp p))"

text \<open>The calls of the operating system succeed, and the subprocess runs until it is waited for.\<close>

definition os_ok :: "os_env \<Rightarrow> bool" where
  "os_ok E \<longleftrightarrow> (\<forall>n f t. os_strftime E n f t \<noteq> []) \<and> (\<forall>n. os_open E n \<and> os_spawn E n \<noteq> None \<and>
     os_wait E n False = Still_running \<and> os_wait E n True = Exited 0)"

text \<open>Writing bytes to the open file, and what the accounting of a packet leads to.\<close>

definition written :: "u8 list \<Rightarrow> 'a dns_output_scheme \<Rightarrow> 'a dns_output_scheme" where
  "written bs out = out\<lparr>ot_out_file := (case ot_out_file out of None \<Rightarrow> None | Some old \<Rightarrow> Some (old @ bs)),
     ot_current_bytes := ot_current_bytes out + of_nat (length bs)\<rparr>"

definition counted :: "pid \<Rightarrow> 'a dns_output_scheme \<Rightarrow> 'a dns_output_scheme" where
  "counted p out = out\<lparr>ot_current_items := ot_current_items out + 1,
     ot_current_request_only := ot_current_request_only out + (if no_response (ot_heap out) p then 1 else 0),
     ot_current_response_only := ot_current_response_only out + (if no_request (ot_heap out) p then 1 else 0)\<rparr>"

text \<open>What the operations on files leave alone.\<close>

definition same_setup :: "'a dns_output_scheme \<Rightarrow> 'a dns_output_scheme \<Rightarrow> bool" where
  "same_setup a b \<longleftrightarrow> dns_output.more b = dns_output.more a \<and> ot_heap b = ot_heap a"

lemma same_setup_trans: "same_setup a b \<Longrightarrow> same_setup b c \<Longrightarrow> same_setup a c"
  by (simp add: same_setup_def)

lemma written_simps [simp]:
  "dns_output.more (written bs out) = dns_output.more out" "ot_heap (written bs out) = ot_heap out"
  "ot_files (written bs out) = ot_files out" "ot_path (written bs out) = ot_path out"
  "ot_output_opened (written bs out) = ot_output_opened out" "ot_current_time (written bs out) = ot_current_time out"
  "ot_out_file out = Some old \<Longrightarrow> ot_out_file (written bs out) = Some (old @ bs)"
  by (simp_all add: written_def)

lemma file_write_Some: "ot_out_file out = Some old \<Longrightarrow> file_write bs out = Inr (written bs out)"
  by (simp add: file_write_def written_def)

lemma own_response_read:
  "packet_ok hp p \<Longrightarrow> hp p = Some pkt \<Longrightarrow>
    (case response pkt of None \<Rightarrow> Inr None | Some r \<Rightarrow> bindr (deref hp r) (\<lambda>x. Inr (Some x))) = Inr (own_response hp pkt)"
  by (auto simp: packet_ok_def own_response_def deref_def split: option.splits)

lemma counted_simps [simp]:
  "dns_output.more (counted p out) = dns_output.more out" "ot_heap (counted p out) = ot_heap out"
  "ot_files (counted p out) = ot_files out" "ot_path (counted p out) = ot_path out"
  "ot_output_opened (counted p out) = ot_output_opened out" "ot_current_time (counted p out) = ot_current_time out"
  "ot_out_file (counted p out) = ot_out_file out"
  by (simp_all add: counted_def)

lemma packet_response_returns:
  "packet_ok h p \<Longrightarrow> h p = Some pkt \<Longrightarrow> \<exists>r. DNS_PACKET_RESPONSE h pkt = Inr r"
  by (auto simp: packet_ok_def DNS_PACKET_RESPONSE_def split: option.splits)

lemma output_account_counted:
  assumes "packet_ok (ot_heap out) p"
  shows "output_account p out = Inr (counted p out)"
proof -
  obtain pkt where p: "ot_heap out p = Some pkt" using assms by (auto simp: packet_ok_def split: option.splits)
  obtain resp where "DNS_PACKET_RESPONSE (ot_heap out) pkt = Inr resp"
    using packet_response_returns [OF assms p] by blast
  then show ?thesis using p by (simp add: output_account_def counted_def no_response_def no_request_def)
qed

section \<open>The interface of a writer\<close>

text \<open>
  A writer promises: at the start of a file its hook writes the header, for a packet that is \<open>good\<close>
  its hook writes the packet's record and counts it, it does nothing at the end, and the record
  depends on nothing but the packet and the response that it owns.
\<close>

locale output_writer =
  fixes E :: os_env
    and H :: "'a dns_output_scheme output_hooks"
    and valid :: "'a \<Rightarrow> bool"
    and hdr :: "'a \<Rightarrow> u8 list"
    and rec :: "'a \<Rightarrow> heap \<Rightarrow> pid \<Rightarrow> u8 list"
    and good :: "'a \<Rightarrow> heap \<Rightarrow> pid \<Rightarrow> bool"
  assumes start_law: "os_ok E \<Longrightarrow> valid (dns_output.more out) \<Longrightarrow> ot_out_file out = Some bs \<Longrightarrow> time \<noteq> DNS_NO_TIME \<Longrightarrow>
      \<exists>n sf. call_hook (hk_start_file H) time out
        = Inr ((written (hdr (dns_output.more out)) out)\<lparr>ot_calls := n, ot_side_files := sf\<rparr>)"
    and write_law: "ot_out_file out = Some bs \<Longrightarrow> packet_ok (ot_heap out) p \<Longrightarrow>
      good (dns_output.more out) (ot_heap out) p \<Longrightarrow>
      call_hook (hk_write_packet H) p out
        = Inr (counted p (written (rec (dns_output.more out) (ot_heap out) p) out))"
    and finish_law: "call_hook (hk_finish_file H) time out = Inr out"
    and local_law: "packet_ok hp p \<Longrightarrow> (\<And>x. x \<in> set (owned hp p) \<Longrightarrow> hp' x = hp x) \<Longrightarrow>
      rec cfg hp' p = rec cfg hp p \<and> good cfg hp' p = good cfg hp p"

lemma output_inv_cong:
  assumes "output_inv hdr r hp ps a" and "ot_files b = ot_files a" and "ot_out_file b = ot_out_file a" and "ot_path b = ot_path a"
    and "ot_output_opened b = ot_output_opened a" and "ot_current_time a \<le> ot_current_time b" and "output_counts hp ps b"
  shows "output_inv hdr r hp ps b"
  using assms by (fastforce simp: output_inv_def split: option.splits)

lemma output_inv_other [simp]:
  "output_inv h r hp ps (out\<lparr>ot_in := x\<rparr>) = output_inv h r hp ps out"
  "output_inv h r hp ps (out\<lparr>ot_heap := y\<rparr>) = output_inv h r hp ps out"
  "output_inv h r hp ps (out\<lparr>ot_calls := n, ot_pipe_pid := q\<rparr>) = output_inv h r hp ps out"
  by (cases "ot_out_file out"; simp add: output_inv_def output_counts_def)+

text \<open>Closing moves the current file to the closed ones.\<close>

lemma output_inv_closed:
  assumes "output_inv hdr r hp ps out" and "ot_out_file out = Some bs" and "ot_path out = Some path"
    and b: "ot_files b = ot_files out @ [(path, bs)]" "ot_out_file b = None" "ot_path b = None" "output_counts hp ps b"
  shows "output_inv hdr r hp ps b"
proof -
  obtain gs cur where g: "ot_files out = map (file_of hdr r) gs" "bs = hdr @ concat (map r cur)" "concat (map snd gs) @ cur = ps"
    using assms(1-3) by (auto simp: output_inv_def)
  have "ot_files b = map (file_of hdr r) (gs @ [(path, cur)])" using b(1) g by (simp add: file_of_def)
  moreover have "concat (map snd (gs @ [(path, cur)])) = ps" using g(3) by simp
  ultimately show ?thesis using b(3,4) unfolding output_inv_def b(2) option.case by blast
qed

lemma counts_closed:
  assumes "output_counts hp ps out" and "ot_out_file out = Some bs"
    and "b = (close_account out time)\<lparr>ot_files := ot_files out @ [(path, bs)], ot_out_file := None, ot_path := None,
      ot_calls := n, ot_pipe_pid := q\<rparr>"
  shows "output_counts hp ps b"
  using assms by (simp add: output_counts_def close_account_def)

lemma wait_ok:
  assumes "os_ok E"
  shows "\<exists>n q. dns_output_wait_for_pipe_process E out w = Inr (if w \<and> ot_pipe_pid out > 0 then 1 else 0, out\<lparr>ot_calls := n, ot_pipe_pid := q\<rparr>)"
proof (cases "ot_pipe_pid out \<le> 0")
  case True
  then have "dns_output_wait_for_pipe_process E out w = Inr (if w \<and> ot_pipe_pid out > 0 then 1 else 0,
      out\<lparr>ot_calls := ot_calls out, ot_pipe_pid := ot_pipe_pid out\<rparr>)"
    by (simp add: dns_output_wait_for_pipe_process_def)
  then show ?thesis by blast
next
  case False
  have "os_wait E n False = Still_running" "os_wait E n True = Exited 0" for n using assms by (simp_all add: os_ok_def)
  then have "dns_output_wait_for_pipe_process E out w = Inr (if w \<and> ot_pipe_pid out > 0 then 1 else 0,
      out\<lparr>ot_calls := ot_calls out + 1, ot_pipe_pid := if w then 0 else ot_pipe_pid out\<rparr>)"
    using False by (cases w) (simp_all add: dns_output_wait_for_pipe_process_def)
  then show ?thesis by blast
qed

lemma open_path_ok: "os_ok E \<Longrightarrow> time \<noteq> DNS_NO_TIME \<Longrightarrow> \<exists>path. open_path E out time = Inr path"
  by (simp add: open_path_def os_ok_def dns_us_time_strftime_def)

lemma open_stream_ok:
  assumes "os_ok E"
  shows "\<exists>n q. open_stream E out = Inr (out\<lparr>ot_calls := n, ot_pipe_pid := q, ot_out_file := Some []\<rparr>)"
proof (cases "ot_pipe_cmd out = []")
  case True
  then have "open_stream E out = Inr (out\<lparr>ot_calls := ot_calls out + 1, ot_pipe_pid := ot_pipe_pid out, ot_out_file := Some []\<rparr>)"
    using assms by (simp add: open_stream_def Let_def os_ok_def)
  then show ?thesis by blast
next
  case False
  obtain q where "os_spawn E (ot_calls out) = Some q" using assms unfolding os_ok_def by blast
  then have "open_stream E out = Inr (out\<lparr>ot_calls := ot_calls out + 2, ot_pipe_pid := q, ot_out_file := Some []\<rparr>)"
    using assms False by (simp add: open_stream_def dns_output_start_subprocess_def Let_def os_ok_def)
  then show ?thesis by blast
qed

context output_writer
begin

text \<open>The state of the output with the records of the packets taken from the initial heap.\<close>

lemma close_ok:
  assumes os: "os_ok E" and inv: "output_inv hdr0 r hp ps out" and fl: "ot_out_file out = Some bs" and time: "time \<noteq> DNS_NO_TIME"
  shows "\<exists>b. dns_output_close E H out time = Inr b \<and> output_inv hdr0 r hp ps b \<and> ot_out_file b = None \<and> same_setup out b"
proof -
  obtain path where path: "ot_path out = Some path" and t: "ot_output_opened out \<le> ot_current_time out"
    using inv fl by (auto simp: output_inv_def)
  let ?c = "close_account out time"
  let ?d = "?c\<lparr>ot_files := ot_files out @ [(path, bs)], ot_out_file := None, ot_path := None\<rparr>"
  have c: "ot_path ?c = Some path" "ot_out_file ?c = Some bs" "ot_files ?c = ot_files out"
    "ot_output_opened ?c = ot_output_opened out" "ot_output_opened out \<le> ot_current_time ?c"
    using path fl t by (simp_all add: close_account_def)
  obtain n q where w: "dns_output_wait_for_pipe_process E ?d True = Inr (if ot_pipe_pid ?d > 0 then 1 else 0, ?d\<lparr>ot_calls := n, ot_pipe_pid := q\<rparr>)"
    using wait_ok [OF os, of ?d True] by auto
  let ?b = "?d\<lparr>ot_calls := n, ot_pipe_pid := q\<rparr>"
  have "ot_current_time ?c - ot_output_opened ?c \<noteq> DNS_NO_TIME" using c(4,5) by (simp add: DNS_NO_TIME_def)
  then obtain x where x: "dns_us_time_to_fsec (ot_current_time ?c - ot_output_opened ?c) = Inr x"
    using to_fsec_returns by blast
  have "dns_output_close E H out time = Inr ?b"
    unfolding dns_output_close_def finish_law Let_def using path fl time x c(1-3) w by simp
  moreover have "output_counts hp ps ?b" using counts_closed [OF _ fl refl] inv unfolding output_inv_def by blast
  then have "output_inv hdr0 r hp ps ?b" by (intro output_inv_closed [OF inv fl path]) simp_all
  moreover have "same_setup out ?b" by (simp add: same_setup_def close_account_def)
  ultimately show ?thesis by (intro exI [of _ ?b]) simp
qed

lemma out_open_ok:
  assumes os: "os_ok E" and inv: "output_inv (hdr (dns_output.more out)) r hp ps out" and fl: "ot_out_file out = None"
    and time: "DNS_NO_TIME < time" and cf: "valid (dns_output.more out)"
  shows "\<exists>b bs. dns_output_open E H out time = Inr b \<and> output_inv (hdr (dns_output.more out)) r hp ps b \<and>
    ot_out_file b = Some bs \<and> same_setup out b"
proof -
  obtain gs where g: "ot_files out = map (file_of (hdr (dns_output.more out)) r) gs" "concat (map snd gs) = ps"
    "ot_path out = None" "output_counts hp ps out" using inv fl by (auto simp: output_inv_def)
  obtain path where path: "open_path E out time = Inr path" using open_path_ok [OF os, of time out] time by blast
  obtain n q where s: "open_stream E (out\<lparr>ot_path := Some path\<rparr>)
      = Inr (out\<lparr>ot_path := Some path, ot_calls := n, ot_pipe_pid := q, ot_out_file := Some []\<rparr>)"
    using open_stream_ok [OF os, of "out\<lparr>ot_path := Some path\<rparr>"] by auto
  define c where "c = out\<lparr>ot_path := Some path, ot_calls := n, ot_pipe_pid := q, ot_out_file := Some [],
    ot_output_opened := time, ot_current_time := max (ot_current_time out) time\<rparr>"
  have c: "ot_out_file c = Some []" "ot_path c = Some path" "ot_files c = ot_files out" "ot_output_opened c = time"
    "time \<le> ot_current_time c" "dns_output.more c = dns_output.more out" "ot_heap c = ot_heap out"
    by (simp_all add: c_def)
  obtain m sf where st: "call_hook (hk_start_file H) time c = Inr ((written (hdr (dns_output.more c)) c)\<lparr>ot_calls := m, ot_side_files := sf\<rparr>)"
    using start_law [OF os _ c(1), of time] time cf c(6) by auto
  let ?b = "(written (hdr (dns_output.more c)) c)\<lparr>ot_calls := m, ot_side_files := sf\<rparr>"
  have "dns_output_open E H out time = Inr ?b"
    using g(3) fl time path s st by (simp add: dns_output_open_def c_def)
  moreover have "ot_out_file ?b = Some (hdr (dns_output.more out))" using c by simp
  moreover have "output_counts hp ps ?b" using g(4) fl by (simp add: output_counts_def written_def c_def algebra_simps)
  then have "output_inv (hdr (dns_output.more out)) r hp ps ?b"
    using g time c unfolding output_inv_def by (intro conjI exI [of _ gs]) simp_all
  moreover have "same_setup out ?b" using c by (simp add: same_setup_def)
  ultimately show ?thesis by blast
qed

lemma rotation_ok:
  assumes os: "os_ok E" and inv: "output_inv (hdr (dns_output.more out)) r hp ps out" and time: "DNS_NO_TIME < time"
    and cf: "valid (dns_output.more out)"
  shows "\<exists>b bs. dns_output_check_rotation E H out time = Inr b \<and> output_inv (hdr (dns_output.more out)) r hp ps b \<and>
    ot_out_file b = Some bs \<and> same_setup out b"
proof -
  let ?rot = "ot_out_file out \<noteq> None \<and> ot_period_sec out > 0 \<and>
    dns_next_rotation (os_clock E) (ot_period_sec out) (ot_output_opened out) time"
  have "\<exists>c. (if ?rot then dns_output_close E H out time else Inr out) = Inr c \<and>
    output_inv (hdr (dns_output.more out)) r hp ps c \<and> same_setup out c"
    using close_ok [OF os inv, of _ time] inv time by (cases ?rot) (auto simp: same_setup_def)
  then obtain c where c: "(if ?rot then dns_output_close E H out time else Inr out) = Inr c"
    "output_inv (hdr (dns_output.more out)) r hp ps c" "same_setup out c" by blast
  have m: "dns_output.more c = dns_output.more out" using c(3) by (simp add: same_setup_def)
  have "\<exists>b bs. (if ot_out_file c = None then dns_output_open E H c time else Inr c) = Inr b \<and>
    output_inv (hdr (dns_output.more out)) r hp ps b \<and> ot_out_file b = Some bs \<and> same_setup c b"
    using out_open_ok [OF os, of c r hp ps time] c(2) time m cf by (cases "ot_out_file c") (auto simp: same_setup_def)
  then obtain b bs where b: "(if ot_out_file c = None then dns_output_open E H c time else Inr c) = Inr b"
    "output_inv (hdr (dns_output.more out)) r hp ps b" "ot_out_file b = Some bs" "same_setup c b" by blast
  let ?b = "b\<lparr>ot_current_time := max (ot_current_time b) time\<rparr>"
  have "dns_output_check_rotation E H out time = Inr ?b" using time c(1) b(1) by (simp add: dns_output_check_rotation_def)
  moreover have "output_counts hp ps ?b" using b(2) by (simp add: output_inv_def output_counts_def)
  then have "output_inv (hdr (dns_output.more out)) r hp ps ?b" by (intro output_inv_cong [OF b(2)]) simp_all
  moreover have "same_setup out ?b" using same_setup_trans [OF c(3) b(4)] by (simp add: same_setup_def)
  ultimately show ?thesis using b(3) by (intro exI [of _ ?b] exI [of _ bs]) simp
qed

text \<open>
  The packets still to be written: allocated, with a time, accepted by the writer, and unchanged
  since the beginning.
\<close>

definition writable :: "'a \<Rightarrow> heap \<Rightarrow> heap \<Rightarrow> pid \<Rightarrow> bool" where
  "writable cfg hp0 hp p \<longleftrightarrow> packet_ok hp0 p \<and> DNS_NO_TIME < ts (the (hp0 p)) \<and> good cfg hp0 p \<and>
     (\<forall>x \<in> set (owned hp0 p). hp x = hp0 x)"

lemma writableD:
  assumes "writable cfg hp0 hp p"
  shows "packet_ok hp p" and "good cfg hp p" and "rec cfg hp p = rec cfg hp0 p" and "hp p = hp0 p" and "hp0 p \<noteq> None"
    and "no_response hp p = no_response hp0 p" and "no_request hp p = no_request hp0 p" and "owned hp p = owned hp0 p"
proof -
  have ok: "packet_ok hp0 p" "\<And>x. x \<in> set (owned hp0 p) \<Longrightarrow> hp x = hp0 x" "good cfg hp0 p"
    using assms by (simp_all add: writable_def)
  obtain pkt where p0: "hp0 p = Some pkt" using ok(1) by (auto simp: packet_ok_def split: option.splits)
  have p: "hp p = hp0 p" using ok(2) [of p] by simp
  have r: "hp x = hp0 x" if "response pkt = Some x" for x using ok(2) [of x] p0 that by (simp add: owned_def)
  show "hp p = hp0 p" "hp0 p \<noteq> None" using p p0 by simp_all
  show "packet_ok hp p" using ok(1) p p0 r by (auto simp: packet_ok_def split: option.splits)
  show "rec cfg hp p = rec cfg hp0 p" "good cfg hp p" using local_law [OF ok(1,2)] ok(3) by simp_all
  have "DNS_PACKET_RESPONSE hp pkt = DNS_PACKET_RESPONSE hp0 pkt"
    using r by (cases "response pkt") (simp_all add: DNS_PACKET_RESPONSE_def deref_def)
  then show "no_response hp p = no_response hp0 p" "no_request hp p = no_request hp0 p"
    using p p0 by (simp_all add: no_response_def no_request_def)
  show "owned hp p = owned hp0 p" using p by (simp add: owned_def)
qed

lemma write_ok:
  assumes inv: "output_inv h (rec (dns_output.more out) hp0) hp0 ps out" and fl: "ot_out_file out = Some bs"
    and w: "writable (dns_output.more out) hp0 (ot_heap out) p"
  shows "\<exists>b. call_hook (hk_write_packet H) p out = Inr b \<and>
    output_inv h (rec (dns_output.more out) hp0) hp0 (ps @ [p]) b \<and> same_setup out b"
proof -
  note p = writableD [OF w]
  let ?r = "rec (dns_output.more out) hp0"
  let ?b = "counted p (written (?r p) out)"
  have "call_hook (hk_write_packet H) p out = Inr ?b" using write_law [OF fl p(1,2)] p(3) by simp
  moreover obtain gs path cur where g: "ot_files out = map (file_of h ?r) gs" "ot_path out = Some path"
    "bs = h @ concat (map ?r cur)" "concat (map snd gs) @ cur = ps" "DNS_NO_TIME < ot_output_opened out"
    "ot_output_opened out \<le> ot_current_time out" and cnt: "output_counts hp0 ps out"
    using inv fl by (auto simp: output_inv_def)
  have "output_counts hp0 (ps @ [p]) ?b"
    using cnt fl p(6,7) by (simp add: output_counts_def counted_def written_def algebra_simps)
  then have "output_inv h ?r hp0 (ps @ [p]) ?b"
    using g fl unfolding output_inv_def by (intro conjI exI [of _ gs]) (simp_all add: exI [of _ "cur @ [p]"])
  moreover have "same_setup out ?b" by (simp add: same_setup_def)
  ultimately show ?thesis by blast
qed

lemma packets_ok:
  assumes os: "os_ok E" and inv: "output_inv (hdr (dns_output.more out)) (rec (dns_output.more out) hp0) hp0 qs out"
    and w: "\<And>p. p \<in> set ps \<Longrightarrow> writable (dns_output.more out) hp0 (ot_heap out) p" and cf: "valid (dns_output.more out)"
  shows "\<exists>b. output_packets E H ps out = Inr b \<and>
    output_inv (hdr (dns_output.more out)) (rec (dns_output.more out) hp0) hp0 (qs @ ps) b \<and> same_setup out b"
  using inv w cf
proof (induction ps arbitrary: out qs)
  case Nil
  then show ?case by (simp add: same_setup_def)
next
  case (Cons p ps)
  let ?m = "dns_output.more out"
  note p = writableD [OF Cons.prems(2) [of p, simplified]]
  obtain pkt where pkt: "ot_heap out p = Some pkt" "hp0 p = Some pkt" using p(4,5) by auto
  then have time: "DNS_NO_TIME < ts pkt" using Cons.prems(2) [of p] by (simp add: writable_def)
  obtain c bs where c: "dns_output_check_rotation E H out (ts pkt) = Inr c" "output_inv (hdr ?m) (rec ?m hp0) hp0 qs c"
    "ot_out_file c = Some bs" "same_setup out c" using rotation_ok [OF os Cons.prems(1) time Cons.prems(3)] by blast
  have m: "dns_output.more c = ?m" "ot_heap c = ot_heap out" using c(4) by (simp_all add: same_setup_def)
  obtain d where d: "call_hook (hk_write_packet H) p c = Inr d" "output_inv (hdr ?m) (rec ?m hp0) hp0 (qs @ [p]) d" "same_setup c d"
    using write_ok [of "hdr ?m" c hp0 qs bs p] c(2,3) m Cons.prems(2) [of p] by auto
  have dm: "dns_output.more d = ?m" "ot_heap d = ot_heap out" "same_setup out d"
    using d(3) m same_setup_trans [OF c(4) d(3)] by (simp_all add: same_setup_def)
  obtain b where "output_packets E H ps d = Inr b" "output_inv (hdr ?m) (rec ?m hp0) hp0 (qs @ p # ps) b" "same_setup d b"
    using Cons.IH [of d "qs @ [p]"] d(2) dm Cons.prems(2,3) by auto
  then show ?case using pkt(1) c(1) d(1) same_setup_trans [OF dm(3)] by auto
qed

text \<open>The frames of the thread: the packets are written frame by frame, each frame is freed afterwards.\<close>

definition frame_writable :: "'a \<Rightarrow> heap \<Rightarrow> heap \<Rightarrow> dns_packet_frame \<Rightarrow> bool" where
  "frame_writable cfg hp0 hp f \<longleftrightarrow> frame_type f \<noteq> 1 \<and> fr_count f = length (fr_packets f) \<and>
     (fr_packets f = [] \<and> time_start f = DNS_NO_TIME \<or> DNS_NO_TIME < time_start f) \<and>
     (\<forall>p \<in> set (fr_packets f). writable cfg hp0 hp p)"

lemma regular_ok:
  assumes os: "os_ok E" and inv: "output_inv (hdr (dns_output.more out)) (rec (dns_output.more out) hp0) hp0 qs out"
    and f: "frame_writable (dns_output.more out) hp0 (ot_heap out) f" and time: "DNS_NO_TIME < time_start f"
    and cf: "valid (dns_output.more out)"
  shows "\<exists>b. output_regular E H f out = Inr b \<and>
    output_inv (hdr (dns_output.more out)) (rec (dns_output.more out) hp0) hp0 (qs @ fr_packets f) b \<and> same_setup out b"
proof -
  let ?m = "dns_output.more out"
  obtain n q where w: "dns_output_wait_for_pipe_process E out False = Inr (0, out\<lparr>ot_calls := n, ot_pipe_pid := q\<rparr>)"
    using wait_ok [OF os, of out False] by auto
  let ?o = "out\<lparr>ot_calls := n, ot_pipe_pid := q\<rparr>"
  obtain c bs where c: "dns_output_check_rotation E H ?o (time_start f) = Inr c" "output_inv (hdr ?m) (rec ?m hp0) hp0 qs c" "same_setup ?o c"
    using rotation_ok [OF os _ time, of ?o "rec ?m hp0" hp0 qs] inv cf by auto
  have m: "dns_output.more c = ?m" "ot_heap c = ot_heap out" using c(3) by (simp_all add: same_setup_def)
  obtain b where b: "output_packets E H (fr_packets f) c = Inr b"
    "output_inv (hdr ?m) (rec ?m hp0) hp0 (qs @ fr_packets f) b" "same_setup c b"
    using packets_ok [OF os, of c hp0 qs "fr_packets f"] c(2) m f cf by (auto simp: frame_writable_def)
  have "same_setup out b" using b(3) m by (simp add: same_setup_def)
  moreover have "output_regular E H f out = Inr b" using w c(1) b(1) by (simp add: output_regular_def)
  ultimately show ?thesis using b(2) by blast
qed

lemma out_round_ok:
  assumes os: "os_ok E" and inv: "output_inv (hdr (dns_output.more out)) (rec (dns_output.more out) hp0) hp0 qs out"
    and f: "frame_writable (dns_output.more out) hp0 (ot_heap out) f" and d: "distinct (owned_all hp0 (fr_packets f))"
    and cf: "valid (dns_output.more out)"
  shows "\<exists>b. output_round E H f out = Some (Inr (True, b)) \<and>
    output_inv (hdr (dns_output.more out)) (rec (dns_output.more out) hp0) hp0 (qs @ fr_packets f) b \<and>
    dns_output.more b = dns_output.more out \<and>
    ot_heap b = (\<lambda>x. if x \<in> set (owned_all hp0 (fr_packets f)) then None else ot_heap out x)"
proof -
  let ?m = "dns_output.more out"
  have w: "writable ?m hp0 (ot_heap out) p" if "p \<in> set (fr_packets f)" for p using f that by (simp add: frame_writable_def)
  have own: "owned_all (ot_heap out) (fr_packets f) = owned_all hp0 (fr_packets f)"
    unfolding owned_all_def by (rule concat_map_cong_set) (rule writableD(8) [OF w])
  let ?hp = "\<lambda>x. if x \<in> set (owned_all hp0 (fr_packets f)) then None else ot_heap out x"
  have free: "dns_packet_frame_destroy (ot_heap out) f = Some (Inr ?hp)"
    unfolding dns_packet_frame_destroy_def own [symmetric]
    by (rule destroy_packets_owned) (use writableD(1) [OF w] d own in auto)
  have t: "frame_type f \<noteq> 1" "fr_count f = length (fr_packets f)" using f by (simp_all add: frame_writable_def)
  consider (idle) "fr_packets f = []" "time_start f = DNS_NO_TIME" | (regular) "DNS_NO_TIME < time_start f"
    using f by (auto simp: frame_writable_def)
  then have "\<exists>b. (if time_start f = DNS_NO_TIME then bindr (assertr (fr_count f = 0) ''f->count == 0'') (\<lambda>_. Inr out)
      else output_regular E H f out) = Inr b \<and>
      output_inv (hdr ?m) (rec ?m hp0) hp0 (qs @ fr_packets f) b \<and> same_setup out b"
  proof cases
    case idle
    then show ?thesis using inv t by (simp add: same_setup_def)
  next
    case regular
    then show ?thesis using regular_ok [OF os inv f _ cf] by auto
  qed
  then obtain b where b: "(if time_start f = DNS_NO_TIME then bindr (assertr (fr_count f = 0) ''f->count == 0'') (\<lambda>_. Inr out)
      else output_regular E H f out) = Inr b"
    "output_inv (hdr ?m) (rec ?m hp0) hp0 (qs @ fr_packets f) b" "same_setup out b" by blast
  have s: "ot_heap b = ot_heap out" "dns_output.more b = ?m" using b(3) by (simp_all add: same_setup_def)
  have "output_round E H f out = Some (Inr (True, b\<lparr>ot_heap := ?hp\<rparr>))"
    unfolding output_round_def using t(1) b(1) free s by simp
  then show ?thesis using b(2) s by (intro exI [of _ "b\<lparr>ot_heap := ?hp\<rparr>"]) simp
qed

lemma writable_freed:
  assumes "writable cfg hp0 hp p" and "set (owned hp0 p) \<inter> D = {}"
  shows "writable cfg hp0 (\<lambda>x. if x \<in> D then None else hp x) p"
  using assms by (auto simp: writable_def)

lemma out_loop_ok:
  assumes os: "os_ok E" and g: "frame_type g = 1" "fr_count g = 0" "fr_packets g = []"
    and "output_inv (hdr (dns_output.more out)) (rec (dns_output.more out) hp0) hp0 qs out"
    and "\<And>f. f \<in> set fs \<Longrightarrow> frame_writable (dns_output.more out) hp0 (ot_heap out) f"
    and "distinct (owned_all hp0 (concat (map fr_packets fs)))" and "valid (dns_output.more out)"
  shows "\<exists>b. output_loop E H (fs @ [g]) out = Some (Inr b) \<and> dns_output.more b = dns_output.more out \<and>
    output_inv (hdr (dns_output.more out)) (rec (dns_output.more out) hp0) hp0 (qs @ concat (map fr_packets fs)) b"
  using assms(5-8)
proof (induction fs arbitrary: out qs)
  case Nil
  have "dns_packet_frame_destroy (ot_heap out) g = Some (Inr (ot_heap out))"
    using g(3) by (simp add: dns_packet_frame_destroy_def)
  then show ?case using Nil.prems(1) g by (simp add: output_round_def)
next
  case (Cons f fs)
  let ?m = "dns_output.more out"
  let ?o = "out\<lparr>ot_in := fs @ [g]\<rparr>"
  have o: "ot_heap ?o = ot_heap out" "dns_output.more ?o = ?m" by simp_all
  have d: "distinct (owned_all hp0 (fr_packets f))" "distinct (owned_all hp0 (concat (map fr_packets fs)))"
    "set (owned_all hp0 (fr_packets f)) \<inter> set (owned_all hp0 (concat (map fr_packets fs))) = {}"
    using Cons.prems(3) by simp_all
  obtain b where b: "output_round E H f ?o = Some (Inr (True, b))"
    "output_inv (hdr ?m) (rec ?m hp0) hp0 (qs @ fr_packets f) b" "dns_output.more b = ?m"
    "ot_heap b = (\<lambda>x. if x \<in> set (owned_all hp0 (fr_packets f)) then None else ot_heap out x)"
    using out_round_ok [OF os, of ?o hp0 qs f, unfolded o] Cons.prems(1) Cons.prems(2) [of f] d(1) Cons.prems(4) by auto
  have "frame_writable ?m hp0 (ot_heap b) k" if "k \<in> set fs" for k
  proof -
    have k: "frame_writable ?m hp0 (ot_heap out) k" using Cons.prems(2) that by simp
    have "set (owned hp0 p) \<inter> set (owned_all hp0 (fr_packets f)) = {}" if "p \<in> set (fr_packets k)" for p
    proof -
      have "p \<in> set (concat (map fr_packets fs))" using that \<open>k \<in> set fs\<close> by auto
      then have "set (owned hp0 p) \<subseteq> set (owned_all hp0 (concat (map fr_packets fs)))" by (auto simp: owned_all_def)
      then show ?thesis using d(3) by blast
    qed
    then show ?thesis using k writable_freed unfolding frame_writable_def b(4) by blast
  qed
  then obtain c where c: "output_loop E H (fs @ [g]) b = Some (Inr c)" "dns_output.more c = ?m"
    "output_inv (hdr ?m) (rec ?m hp0) hp0 ((qs @ fr_packets f) @ concat (map fr_packets fs)) c"
    using Cons.IH [of b "qs @ fr_packets f"] b(2,3) d(2) Cons.prems(4) by auto
  then show ?case using b(1) by simp
qed

text \<open>The whole thread.\<close>

lemma main_ok:
  assumes os: "os_ok E" and g: "frame_type g = 1" "fr_count g = 0" "fr_packets g = []"
    and inp: "ot_in out = fs @ [g]" and fs: "frames_writable (good (dns_output.more out)) (ot_heap out) fs"
    and inv: "output_inv (hdr (dns_output.more out)) (rec (dns_output.more out) (ot_heap out)) (ot_heap out) [] out"
    and cf: "valid (dns_output.more out)"
  shows "\<exists>b gs. dns_output_main E H out = Some (Inr b) \<and> ot_out_file b = None \<and> dns_output_finalize b = Inr () \<and>
    ot_files b = map (file_of (hdr (dns_output.more out)) (rec (dns_output.more out) (ot_heap out))) gs \<and>
    concat (map snd gs) = concat (map fr_packets fs) \<and> output_counts (ot_heap out) (concat (map fr_packets fs)) b"
proof -
  let ?m = "dns_output.more out" and ?hp = "ot_heap out" and ?ps = "concat (map fr_packets fs)"
  have "frame_writable ?m ?hp ?hp f" if "f \<in> set fs" for f
    using fs that by (auto simp: frames_writable_def frame_writable_def writable_def)
  moreover have d: "distinct (owned_all ?hp ?ps)" using fs by (simp add: frames_writable_def)
  ultimately obtain b where b: "output_loop E H (fs @ [g]) out = Some (Inr b)"
    "output_inv (hdr ?m) (rec ?m ?hp) ?hp ?ps b" "dns_output.more b = ?m"
    using out_loop_ok [OF os g inv, of fs] d cf by auto
  have fin: "\<exists>gs. ot_files c = map (file_of (hdr ?m) (rec ?m ?hp)) gs \<and> concat (map snd gs) = ?ps"
    "ot_path c = None" "output_counts ?hp ?ps c"
    if "output_inv (hdr ?m) (rec ?m ?hp) ?hp ?ps c" "ot_out_file c = None" for c
    using that by (auto simp: output_inv_def)
  show ?thesis
  proof (cases "ot_out_file b")
    case None
    then show ?thesis using b fin [OF b(2) None] by (auto simp: dns_output_main_def inp dns_output_finalize_def)
  next
    case (Some bs)
    then have "ot_current_time b \<noteq> DNS_NO_TIME" using b(2) by (auto simp: output_inv_def)
    then obtain c where c: "dns_output_close E H b (ot_current_time b) = Inr c" "output_inv (hdr ?m) (rec ?m ?hp) ?hp ?ps c"
      "ot_out_file c = None" using close_ok [OF os b(2) Some] by blast
    then show ?thesis using b(1) Some fin [OF c(2,3)] by (auto simp: dns_output_main_def inp dns_output_finalize_def)
  qed
qed

end

section \<open>Concrete frames\<close>

text \<open>A request with its response, a frame that holds them, and an operating system whose calls succeed.\<close>

definition ex_out_heap :: heap where
  "ex_out_heap = [1 \<mapsto> (ex_packet 10 False)\<lparr>response := Some 2\<rparr>, 2 \<mapsto> (ex_packet 20 True)\<lparr>dns_data := replicate 12 0\<rparr>]"

lemma ex_out_heap_read:
  "packet_ok ex_out_heap 1" "ex_out_heap 1 = Some ((ex_packet 10 False)\<lparr>response := Some 2\<rparr>)"
  "DNS_PACKET_RESPONSE ex_out_heap ((ex_packet 10 False)\<lparr>response := Some 2\<rparr>) = Inr (Some ((ex_packet 20 True)\<lparr>dns_data := replicate 12 0\<rparr>))"
  by (simp_all add: ex_out_heap_def packet_ok_def DNS_PACKET_RESPONSE_def deref_def ex_packet_def ex_knot_def DNS_PACKET_IS_RESPONSE_def)

definition ex_os_env :: os_env where
  "ex_os_env = \<lparr>os_strftime = (\<lambda>n f t. [97]), os_clock = \<lparr>ts_sec = 0, ts_nsec = 0\<rparr>, os_open = (\<lambda>n. True), os_spawn = (\<lambda>n. Some 5),
     os_wait = (\<lambda>n w. if w then Exited 0 else Still_running)\<rparr>"

definition ex_out_frame :: dns_packet_frame where
  "ex_out_frame = (dns_packet_frame_create 5 30)\<lparr>fr_packets := [1], fr_count := 1\<rparr>"

lemma ex_frames_writable:
  "good ex_out_heap 1 \<Longrightarrow> frames_writable good ex_out_heap [ex_out_frame]"
  using ex_out_heap_read(1,2)
  by (simp add: frames_writable_def ex_out_frame_def dns_packet_frame_create_def owned_all_def owned_def ex_packet_def DNS_NO_TIME_def)

lemma ex_os_ok: "os_ok ex_os_env"
  by (simp add: os_ok_def ex_os_env_def)

end
