(* ===== verification/Dns_Columns.thy ===== *)
theory Dns_Columns
  imports Dns_Packet
begin

text \<open>
  The columns that the writers put out. \<^verbatim>\<open>enum dns_output_field\<close> of \<^verbatim>\<open>src/common.h\<close> gives several
  columns the number of the same flag (\<open>dns_field_resp_aa = dns_field_flags\<close> and the like): a flag
  selects all of them. The functions that both writers use to get at the parts of a packet and of an
  EDNS option are here too.
\<close>

section \<open>Columns\<close>

datatype dns_column =
    col_time | col_delay_us
  | col_req_dns_len | col_resp_dns_len | col_req_net_len | col_resp_net_len
  | col_client_addr | col_client_port | col_server_addr | col_server_port
  | col_net_proto | col_net_ipv | col_net_ttl | col_req_udp_sum
  | col_id | col_qtype | col_qclass | col_opcode | col_rcode
  | col_resp_aa | col_resp_tc | col_req_rd | col_resp_ra | col_req_z | col_resp_ad | col_req_cd
  | col_qname
  | col_resp_ancount | col_resp_arcount | col_resp_nscount
  | col_req_edns_ver | col_req_edns_udp | col_req_edns_do | col_resp_edns_rcode | col_req_edns_ping
  | col_req_edns_dau | col_req_edns_dhu | col_req_edns_n3u | col_resp_edns_nsid
  | col_edns_client_subnet | col_edns_other

text \<open>The flag that selects a column.\<close>

fun column_flag :: "dns_column \<Rightarrow> dns_output_field" where
  "column_flag col_time = dns_field_time"
| "column_flag col_delay_us = dns_field_delay_us"
| "column_flag col_req_dns_len = dns_field_req_dns_len"
| "column_flag col_resp_dns_len = dns_field_resp_dns_len"
| "column_flag col_req_net_len = dns_field_req_net_len"
| "column_flag col_resp_net_len = dns_field_resp_net_len"
| "column_flag col_client_addr = dns_field_client_addr"
| "column_flag col_client_port = dns_field_client_port"
| "column_flag col_server_addr = dns_field_server_addr"
| "column_flag col_server_port = dns_field_server_port"
| "column_flag col_net_proto = dns_field_net_proto"
| "column_flag col_net_ipv = dns_field_net_ipv"
| "column_flag col_net_ttl = dns_field_net_ttl"
| "column_flag col_req_udp_sum = dns_field_req_udp_sum"
| "column_flag col_id = dns_field_id"
| "column_flag col_qtype = dns_field_qtype"
| "column_flag col_qclass = dns_field_qclass"
| "column_flag col_opcode = dns_field_opcode"
| "column_flag col_rcode = dns_field_rcode"
| "column_flag col_resp_aa = dns_field_flags"
| "column_flag col_resp_tc = dns_field_flags"
| "column_flag col_req_rd = dns_field_flags"
| "column_flag col_resp_ra = dns_field_flags"
| "column_flag col_req_z = dns_field_flags"
| "column_flag col_resp_ad = dns_field_flags"
| "column_flag col_req_cd = dns_field_flags"
| "column_flag col_qname = dns_field_qname"
| "column_flag col_resp_ancount = dns_field_rr_counts"
| "column_flag col_resp_arcount = dns_field_rr_counts"
| "column_flag col_resp_nscount = dns_field_rr_counts"
| "column_flag col_req_edns_ver = dns_field_edns"
| "column_flag col_req_edns_udp = dns_field_edns"
| "column_flag col_req_edns_do = dns_field_edns"
| "column_flag col_resp_edns_rcode = dns_field_edns"
| "column_flag col_req_edns_ping = dns_field_edns"
| "column_flag col_req_edns_dau = dns_field_edns"
| "column_flag col_req_edns_dhu = dns_field_edns"
| "column_flag col_req_edns_n3u = dns_field_edns"
| "column_flag col_resp_edns_nsid = dns_field_edns"
| "column_flag col_edns_client_subnet = dns_field_edns"
| "column_flag col_edns_other = dns_field_edns"

text \<open>The name of a column, which the macros make from the argument (\<open>#fieldname\<close>).\<close>

fun column_name :: "dns_column \<Rightarrow> string" where
  "column_name col_time = ''time''"
| "column_name col_delay_us = ''delay_us''"
| "column_name col_req_dns_len = ''req_dns_len''"
| "column_name col_resp_dns_len = ''resp_dns_len''"
| "column_name col_req_net_len = ''req_net_len''"
| "column_name col_resp_net_len = ''resp_net_len''"
| "column_name col_client_addr = ''client_addr''"
| "column_name col_client_port = ''client_port''"
| "column_name col_server_addr = ''server_addr''"
| "column_name col_server_port = ''server_port''"
| "column_name col_net_proto = ''net_proto''"
| "column_name col_net_ipv = ''net_ipv''"
| "column_name col_net_ttl = ''net_ttl''"
| "column_name col_req_udp_sum = ''req_udp_sum''"
| "column_name col_id = ''id''"
| "column_name col_qtype = ''qtype''"
| "column_name col_qclass = ''qclass''"
| "column_name col_opcode = ''opcode''"
| "column_name col_rcode = ''rcode''"
| "column_name col_resp_aa = ''resp_aa''"
| "column_name col_resp_tc = ''resp_tc''"
| "column_name col_req_rd = ''req_rd''"
| "column_name col_resp_ra = ''resp_ra''"
| "column_name col_req_z = ''req_z''"
| "column_name col_resp_ad = ''resp_ad''"
| "column_name col_req_cd = ''req_cd''"
| "column_name col_qname = ''qname''"
| "column_name col_resp_ancount = ''resp_ancount''"
| "column_name col_resp_arcount = ''resp_arcount''"
| "column_name col_resp_nscount = ''resp_nscount''"
| "column_name col_req_edns_ver = ''req_edns_ver''"
| "column_name col_req_edns_udp = ''req_edns_udp''"
| "column_name col_req_edns_do = ''req_edns_do''"
| "column_name col_resp_edns_rcode = ''resp_edns_rcode''"
| "column_name col_req_edns_ping = ''req_edns_ping''"
| "column_name col_req_edns_dau = ''req_edns_dau''"
| "column_name col_req_edns_dhu = ''req_edns_dhu''"
| "column_name col_req_edns_n3u = ''req_edns_n3u''"
| "column_name col_resp_edns_nsid = ''resp_edns_nsid''"
| "column_name col_edns_client_subnet = ''edns_client_subnet''"
| "column_name col_edns_other = ''edns_other''"

definition text_bytes :: "string \<Rightarrow> u8 list" where
  "text_bytes s = map of_char s"

text \<open>\<open>fields & (1 << (dns_field_...))\<close>\<close>

definition field_set :: "u32 \<Rightarrow> dns_output_field \<Rightarrow> bool" where
  "field_set flds fl \<longleftrightarrow> bit flds (dns_field_number fl)"

definition selects :: "u32 \<Rightarrow> dns_column \<Rightarrow> bool" where
  "selects flds c \<longleftrightarrow> field_set flds (column_flag c)"

section \<open>Parts of packets and options\<close>

text \<open>The libraries that print addresses (\<open>inet_ntop\<close>) and names (\<open>knot_dname_to_str\<close>).\<close>

record text_lib =
  inet_ntop :: "u16 \<Rightarrow> u8 list \<Rightarrow> u8 list"
  knot_dname_to_str :: "u8 list option \<Rightarrow> u8 list option"

text \<open>A big-endian 16-bit number in memory, and the data length that \<open>knot_edns_opt_get_length\<close> reads.\<close>

definition load_be16 :: "u8 list \<Rightarrow> nat \<Rightarrow> u16 res" where
  "load_be16 mem i =
     (if i + 1 < length mem then Inr (push_bit 8 (ucast (mem ! i)) OR ucast (mem ! (i + 1)))
      else Inl (Bad_pointer ''wire''))"

definition knot_edns_opt_get_length :: "u8 list \<Rightarrow> nat res" where
  "knot_edns_opt_get_length opt = bindr (load_be16 opt 2) (\<lambda>len. Inr (unat len))"

text \<open>The OPT records of the request and of the response.\<close>

definition req_opt_rr :: "dns_packet \<Rightarrow> knot_opt_rr option" where
  "req_opt_rr pkt = (case DNS_PACKET_REQUEST pkt of None \<Rightarrow> None | Some q \<Rightarrow> opt_rr (knot_packet q))"

definition resp_opt_rr :: "dns_packet option \<Rightarrow> knot_opt_rr option" where
  "resp_opt_rr resp = (case resp of None \<Rightarrow> None | Some r \<Rightarrow> opt_rr (knot_packet r))"

text \<open>The element that both writers read for entry \<open>i\<close> of a list: \<open>(opt + 2 * sizeof(uint16_t) + i)[i]\<close>.\<close>

definition understood_entry :: "u8 list \<Rightarrow> nat \<Rightarrow> u8 res" where
  "understood_entry opt i =
     (if 4 + i + i < length opt then Inr (opt ! (4 + i + i)) else Inl (Bad_pointer ''opt''))"

text \<open>Concrete libraries for the witnesses.\<close>

definition ex_text_lib :: text_lib where
  "ex_text_lib = \<lparr>inet_ntop = (\<lambda>af a. [49, 48, 46, 49]), knot_dname_to_str = (\<lambda>n. Some [99, 122, 46])\<rparr>"

end
