(* ===== verification/Csv_Text.thy ===== *)
theory Csv_Text
  imports Dns_Columns
begin

text \<open>
  The texts that the CSV writer puts into a line: decimal numbers as \<open>snprintf\<close> prints them
  (\<^verbatim>\<open>src/output_csv.c\<close>), their lengths, and texts that a reader can split at the separator.
\<close>

section \<open>Numbers\<close>

fun dec_nat :: "nat \<Rightarrow> u8 list" where
  "dec_nat n = (if n < 10 then [48 + of_nat n] else dec_nat (n div 10) @ [48 + of_nat (n mod 10)])"

declare dec_nat.simps [simp del]

text \<open>The conversions \<open>%d\<close>, \<open>%zd\<close> and \<open>PRId64\<close>, and \<open>%06\<close> with \<open>PRId64\<close>.\<close>

definition dec_int :: "int \<Rightarrow> u8 list" where
  "dec_int i = (if i < 0 then 45 # dec_nat (nat (- i)) else dec_nat (nat i))"

definition dec_pad6 :: "int \<Rightarrow> u8 list" where
  "dec_pad6 i = (let ds = dec_nat (nat \<bar>i\<bar>); sign = (if i < 0 then [45] else []) in
     sign @ replicate (6 - length sign - length ds) 48 @ ds)"

section \<open>Texts that fit\<close>

lemma dec_nat_length: "n < 10 ^ Suc k \<Longrightarrow> length (dec_nat n) \<le> Suc k"
proof (induction k arbitrary: n)
  case 0
  then show ?case by (simp add: dec_nat.simps)
next
  case (Suc k)
  have "n div 10 < 10 ^ Suc k" using Suc.prems by (simp add: less_mult_imp_div_less)
  then show ?case using Suc.IH [of "n div 10"] by (subst dec_nat.simps) simp
qed

lemma dec_int_length: "\<bar>i\<bar> < 10 ^ Suc k \<Longrightarrow> length (dec_int i) \<le> Suc (Suc k)"
proof -
  assume i: "\<bar>i\<bar> < 10 ^ Suc k"
  have "nat \<bar>i\<bar> < 10 ^ Suc k" using i by (simp add: nat_less_iff)
  then have "length (dec_nat (nat \<bar>i\<bar>)) \<le> Suc k" by (rule dec_nat_length)
  then show ?thesis by (auto simp: dec_int_def)
qed

lemma dec_int_length_nonneg: "0 \<le> i \<Longrightarrow> i < 10 ^ Suc k \<Longrightarrow> length (dec_int i) \<le> Suc k"
  using dec_nat_length [of "nat i" k] by (simp add: dec_int_def nat_less_iff)

lemma dec_pad6_length: "\<bar>i\<bar> < 1000000 \<Longrightarrow> length (dec_pad6 i) \<le> 7"
proof -
  assume "\<bar>i\<bar> < 1000000"
  then have "nat \<bar>i\<bar> < 10 ^ Suc 5" by simp
  then have "length (dec_nat (nat \<bar>i\<bar>)) \<le> 6" using dec_nat_length [of "nat \<bar>i\<bar>" 5] by simp
  then show ?thesis by (cases "i < 0") (simp_all add: dec_pad6_def Let_def abs_if)
qed

lemma word_dec_length:
  "length (dec_int (uint (x :: u16))) \<le> 5" "length (dec_int (uint (y :: u8))) \<le> 3" "length (dec_int (sint (z :: u64))) \<le> 20"
proof -
  have "uint x < 2 ^ 16" "uint y < 2 ^ 8" using uint_lt2p [of x] uint_lt2p [of y] by simp_all
  then show "length (dec_int (uint x)) \<le> 5" "length (dec_int (uint y)) \<le> 3"
    using dec_int_length_nonneg [of "uint x" 4] dec_int_length_nonneg [of "uint y" 2] by simp_all
  have "\<bar>sint z\<bar> \<le> 2 ^ 63" using sint_ge [of z] sint_lt [of z] by simp
  then show "length (dec_int (sint z)) \<le> 20" using dec_int_length [of "sint z" 18] by simp
qed

text \<open>A text that contains no newline, no separator outside an escape, and no unfinished escape.\<close>

definition closed_text :: "u8 \<Rightarrow> u8 list \<Rightarrow> bool" where
  "closed_text sp t \<longleftrightarrow> 10 \<notin> set t \<and> sp \<notin> set (plain_bytes t) \<and> (\<forall>r. plain_bytes (t @ r) = plain_bytes t @ plain_bytes r)"

lemma closed_plain:
  assumes "chr_bs \<notin> set t" and "sp \<notin> set t" and "10 \<notin> set t"
  shows "closed_text sp t"
  using assms plain_bytes_append_plain [OF assms(1)] plain_bytes_append_plain [OF assms(1), of "[]"]
  by (simp add: closed_text_def)

lemma closed_append: "closed_text sp a \<Longrightarrow> closed_text sp b \<Longrightarrow> closed_text sp (a @ b)"
  by (simp add: closed_text_def)

lemma closed_Nil [simp]: "closed_text sp []"
  by (simp add: closed_text_def)

lemma closed_escape [simp]: "c \<noteq> 10 \<Longrightarrow> closed_text sp [92, c]"
  by (simp add: closed_text_def)

lemma uint_digit: "m < 10 \<Longrightarrow> uint (48 + of_nat m :: u8) = 48 + int m"
  by (subst uint_add_lem [THEN iffD1]) (simp_all add: uint_nat unat_of_nat)

lemma dec_nat_digits: "b \<in> set (dec_nat n) \<Longrightarrow> 48 \<le> uint b \<and> uint b \<le> 57"
proof (induction n rule: less_induct)
  case (less n)
  show ?case
  proof (cases "n < 10")
    case True
    then have "b = 48 + of_nat n" using less.prems by (simp add: dec_nat.simps [of n])
    then show ?thesis using uint_digit [OF True] True by simp
  next
    case False
    then have "dec_nat n = dec_nat (n div 10) @ [48 + of_nat (n mod 10)]" by (subst dec_nat.simps) (rule if_not_P)
    then have "b \<in> set (dec_nat (n div 10)) \<or> b = 48 + of_nat (n mod 10)" using less.prems by auto
    then show ?thesis
    proof
      assume "b \<in> set (dec_nat (n div 10))"
      then show ?thesis using less.IH [of "n div 10"] False by simp
    next
      assume "b = 48 + of_nat (n mod 10)"
      moreover have "n mod 10 < 10" by simp
      ultimately show ?thesis using uint_digit [of "n mod 10"] by simp
    qed
  qed
qed

text \<open>Separators that cannot occur in a number: not a digit, minus, dot or backslash, and not \<open>N\<close>.\<close>

definition sep_ok :: "int \<Rightarrow> bool" where
  "sep_ok sep \<longleftrightarrow> 0 \<le> sep \<and> sep < 256 \<and> \<not> (48 \<le> sep \<and> sep \<le> 57) \<and> sep \<notin> {45, 46, 92, 78}"

lemma uint_sep: "sep_ok sep \<Longrightarrow> uint (word_of_int sep :: u8) = sep"
  by (simp add: sep_ok_def uint_word_of_int)

definition number_byte :: "u8 \<Rightarrow> bool" where
  "number_byte b \<longleftrightarrow> b = 45 \<or> b = 46 \<or> (48 \<le> uint b \<and> uint b \<le> 57)"

lemma number_byte_uint: "number_byte b \<Longrightarrow> uint b \<in> {45, 46} \<union> {48..57}"
  by (auto simp: number_byte_def)

lemma digits_closed:
  assumes "sep_ok sep" and "\<And>b. b \<in> set t \<Longrightarrow> number_byte b"
  shows "closed_text (word_of_int sep) t"
proof (rule closed_plain)
  have u: "uint b \<in> {45, 46} \<union> {48..57}" if "b \<in> set t" for b using number_byte_uint assms(2) that by blast
  show "chr_bs \<notin> set t" "10 \<notin> set t" using u [of 92] u [of 10] by auto
  have "sep \<notin> {45, 46} \<union> {48..57}" using assms(1) by (auto simp: sep_ok_def)
  then show "word_of_int sep \<notin> set t" using u [of "word_of_int sep"] unfolding uint_sep [OF assms(1)] by blast
qed

lemma dec_int_bytes: "b \<in> set (dec_int i) \<Longrightarrow> number_byte b"
  using dec_nat_digits by (auto simp: dec_int_def number_byte_def split: if_splits)

lemma dec_pad6_bytes: "b \<in> set (dec_pad6 i) \<Longrightarrow> number_byte b"
  using dec_nat_digits by (auto simp: dec_pad6_def number_byte_def Let_def split: if_splits)

lemma oct_digit_plain: "0 \<le> k \<Longrightarrow> k < 8 \<Longrightarrow> oct_digit k \<noteq> chr_bs"
proof
  assume "0 \<le> k" "k < 8" "oct_digit k = chr_bs"
  then have "uint (oct_digit k) = 92" by simp
  then show False using uint_oct_digit [of k] \<open>0 \<le> k\<close> \<open>k < 8\<close> by simp
qed

lemma snescape_char_closed:
  "plain_bytes (snescape_char sep d @ r) = plain_bytes (snescape_char sep d) @ plain_bytes r"
  by (auto simp: snescape_char_def octal3_def plain_bytes_Cons_plain oct_digit_plain)

lemma snescape_closed:
  assumes "sep_ok sep"
  shows "closed_text (word_of_int sep) (concat (map (snescape_char sep) ds))"
proof -
  have r: "0 \<le> sep" "sep < 256" using assms by (simp_all add: sep_ok_def)
  have "plain_bytes (concat (map (snescape_char sep) ds) @ r) = plain_bytes (concat (map (snescape_char sep) ds)) @ plain_bytes r" for r
  proof (induction ds)
    case (Cons d ds)
    then show ?case using snescape_char_closed [of sep d] by (simp del: plain_bytes.simps)
  qed simp
  moreover have "word_of_int sep \<notin> set (plain_bytes (concat (map (snescape_char sep) ds)))"
    using plain_bytes_concat_snescape [OF r] uint_sep [OF assms] by blast
  moreover have "10 \<notin> set (concat (map (snescape_char sep) ds))" using snescape_char_no_nl [OF r] by auto
  ultimately show ?thesis by (simp add: closed_text_def)
qed

end
