(* ===== verification/Output_Csv.thy ===== *)
theory Output_Csv
  imports Output Csv_Text
begin

text \<open>
  \<^verbatim>\<open>src/output_csv.h\<close> and \<^verbatim>\<open>src/output_csv.c\<close>: the CSV writer. A line is made in a buffer of 2048
  bytes. The model keeps the text that the write pointer has passed; only its first 2047 bytes are
  in the buffer, as \<open>snprintf\<close> stops there but returns the full length. A write with the pointer behind
  the end of the buffer is a write to a bad pointer: the size that \<open>snprintf\<close> gets is then a negative
  number converted to \<open>size_t\<close>.
\<close>

section \<open>The line buffer\<close>

definition CSV_BUF :: nat where
  "CSV_BUF = 2048"

definition csv_write :: "u8 list \<Rightarrow> u8 list \<Rightarrow> u8 list res" where
  "csv_write txt buf = (if length buf \<le> CSV_BUF then Inr (buf @ txt) else Inl (Bad_pointer ''outbuf''))"

definition csv_writenull :: "u8 list \<Rightarrow> u8 list res" where
  "csv_writenull buf = csv_write [92, 78] buf"

text \<open>\<open>*(p++) = separator\<close>\<close>

definition csv_put :: "u8 \<Rightarrow> u8 list \<Rightarrow> u8 list res" where
  "csv_put c buf = (if length buf < CSV_BUF then Inr (buf @ [c]) else Inl (Bad_pointer ''outbuf''))"

text \<open>\<open>p += dns_snescape(p, (outbuf + sizeof(outbuf)) - p, separator, ...)\<close>\<close>

definition csv_escape :: "int \<Rightarrow> u8 list \<Rightarrow> u8 list \<Rightarrow> u8 list res" where
  "csv_escape sep dat buf =
     (if length buf \<le> CSV_BUF
      then (let (stored, n) = dns_snescape (CSV_BUF - length buf) sep dat in Inr (buf @ take n stored))
      else Inl (Bad_pointer ''outbuf''))"

section \<open>Columns\<close>

definition write_num :: "int \<Rightarrow> u8 list \<Rightarrow> u8 list res" where
  "write_num i buf = csv_write (dec_int i) buf"

definition write_flag :: "(knot_pkt \<Rightarrow> bool) \<Rightarrow> dns_packet option \<Rightarrow> u8 list \<Rightarrow> u8 list res" where
  "write_flag get pk buf =
     (case pk of None \<Rightarrow> Inr buf | Some q \<Rightarrow> write_num (if get (knot_packet q) then 1 else 0) buf)"

definition write_opt :: "('p \<Rightarrow> int) \<Rightarrow> 'p option \<Rightarrow> u8 list \<Rightarrow> u8 list res" where
  "write_opt get x buf = (case x of None \<Rightarrow> Inr buf | Some y \<Rightarrow> write_num (get y) buf)"

definition write_count :: "nat \<Rightarrow> dns_packet option \<Rightarrow> u8 list \<Rightarrow> u8 list res" where
  "write_count off resp buf =
     (case resp of None \<Rightarrow> Inr buf
      | Some r \<Rightarrow> bindr (load_be16 (dns_data r) off) (\<lambda>n. write_num (uint n) buf))"

text \<open>\<open>WRITE_UNDERSTOOD_LIST\<close>: the loop from entry \<open>i\<close> with \<open>n\<close> entries left, and the macro.\<close>

fun understood_list :: "int \<Rightarrow> u8 list \<Rightarrow> nat \<Rightarrow> nat \<Rightarrow> u8 list \<Rightarrow> u8 list res" where
  "understood_list sep opt i 0 buf = Inr buf"
| "understood_list sep opt i (Suc n) buf =
     bindr (if i > 0 then csv_write (if sep = 44 then [92, 44] else [44]) buf else Inr buf) (\<lambda>buf.
     bindr (understood_entry opt i) (\<lambda>v.
     bindr (write_num (uint v) buf) (\<lambda>buf. understood_list sep opt (Suc i) n buf)))"

definition write_understood :: "int \<Rightarrow> nat \<Rightarrow> dns_packet \<Rightarrow> u8 list \<Rightarrow> u8 list res" where
  "write_understood sep code pkt buf =
     (case req_opt_rr pkt of
        None \<Rightarrow> csv_writenull buf
      | Some rr \<Rightarrow>
          (case edns_option rr code of
             None \<Rightarrow> csv_writenull buf
           | Some opt \<Rightarrow> bindr (knot_edns_opt_get_length opt) (\<lambda>len. understood_list sep opt 0 len buf)))"

definition write_nsid :: "int \<Rightarrow> dns_packet option \<Rightarrow> u8 list \<Rightarrow> u8 list res" where
  "write_nsid sep resp buf =
     (case resp_opt_rr resp of
        None \<Rightarrow> csv_writenull buf
      | Some rr \<Rightarrow>
          (case edns_option rr 3 of
             None \<Rightarrow> csv_writenull buf
           | Some opt \<Rightarrow> bindr (knot_edns_opt_get_length opt) (\<lambda>len.
               if 4 + len \<le> length opt then csv_escape sep (take len (drop 4 opt)) buf
               else Inl (Bad_pointer ''opt''))))"

definition write_subnet :: "dns_packet \<Rightarrow> dns_packet option \<Rightarrow> u8 list \<Rightarrow> u8 list res" where
  "write_subnet pkt resp buf =
     (let opt = (case resp_opt_rr resp of None \<Rightarrow> None | Some rr \<Rightarrow> edns_option rr 8);
          opt = (case (req_opt_rr pkt, opt) of (Some rr, None) \<Rightarrow> edns_option rr 8 | _ \<Rightarrow> opt) in
      if opt \<noteq> None then Inr buf else csv_writenull buf)"

text \<open>
  The text of a column for a packet: \<open>resp\<close> is \<open>DNS_PACKET_RESPONSE(pkt)\<close>, \<open>own\<close> the packet that
  \<open>pkt->response\<close> points to. Columns of \<open>snprintf\<close> conversions take the value as C has it.
\<close>

fun csv_column ::
    "text_lib \<Rightarrow> int \<Rightarrow> dns_packet \<Rightarrow> dns_packet option \<Rightarrow> dns_packet option \<Rightarrow> dns_column \<Rightarrow> u8 list \<Rightarrow> u8 list res" where
  "csv_column L sep pkt resp own col_time buf =
     csv_write (dec_int (ts pkt sdiv 1000000) @ [46] @ dec_pad6 (ts pkt smod 1000000)) buf"
| "csv_column L sep pkt resp own col_delay_us buf = write_opt (\<lambda>r. ts r - ts pkt) own buf"
| "csv_column L sep pkt resp own col_req_dns_len buf =
     write_opt (\<lambda>q. sint (dns_data_size_orig q)) (DNS_PACKET_REQUEST pkt) buf"
| "csv_column L sep pkt resp own col_resp_dns_len buf = write_opt (\<lambda>q. sint (dns_data_size_orig q)) resp buf"
| "csv_column L sep pkt resp own col_req_net_len buf = write_opt (\<lambda>q. sint (net_size q)) (DNS_PACKET_REQUEST pkt) buf"
| "csv_column L sep pkt resp own col_resp_net_len buf = write_opt (\<lambda>q. sint (net_size q)) resp buf"
| "csv_column L sep pkt resp own col_client_addr buf =
     csv_write (inet_ntop L (DNS_PACKET_AF pkt) (DNS_PACKET_CLIENT_ADDR pkt)) buf"
| "csv_column L sep pkt resp own col_client_port buf = write_num (uint (DNS_PACKET_CLIENT_PORT pkt)) buf"
| "csv_column L sep pkt resp own col_server_addr buf =
     csv_write (inet_ntop L (DNS_PACKET_AF pkt) (DNS_PACKET_SERVER_ADDR pkt)) buf"
| "csv_column L sep pkt resp own col_server_port buf = write_num (uint (DNS_PACKET_SERVER_PORT pkt)) buf"
| "csv_column L sep pkt resp own col_net_proto buf = write_num (uint (net_protocol pkt)) buf"
| "csv_column L sep pkt resp own col_net_ipv buf =
     (if DNS_SOCKADDR_AF (src_addr pkt) = AF_INET then csv_write [52] buf
      else if DNS_SOCKADDR_AF (src_addr pkt) = AF_INET6 then csv_write [54] buf else Inr buf)"
| "csv_column L sep pkt resp own col_net_ttl buf =
     (if net_ttl pkt > 0 then write_num (uint (net_ttl pkt)) buf else Inr buf)"
| "csv_column L sep pkt resp own col_req_udp_sum buf =
     (if net_protocol pkt = TRACE_IPPROTO_UDP
      then write_opt (\<lambda>q. uint (net_udp_sum q)) (DNS_PACKET_REQUEST pkt) buf else Inr buf)"
| "csv_column L sep pkt resp own col_id buf = write_num (uint (wire_id (knot_packet pkt))) buf"
| "csv_column L sep pkt resp own col_qtype buf = write_num (uint (knot_qtype (knot_packet pkt))) buf"
| "csv_column L sep pkt resp own col_qclass buf = write_num (uint (knot_qclass (knot_packet pkt))) buf"
| "csv_column L sep pkt resp own col_opcode buf = write_num (uint (wire_opcode (knot_packet pkt))) buf"
| "csv_column L sep pkt resp own col_rcode buf = write_opt (\<lambda>r. uint (wire_rcode (knot_packet r))) resp buf"
| "csv_column L sep pkt resp own col_resp_aa buf = write_flag wire_aa resp buf"
| "csv_column L sep pkt resp own col_resp_tc buf = write_flag wire_tc resp buf"
| "csv_column L sep pkt resp own col_req_rd buf = write_flag wire_rd (DNS_PACKET_REQUEST pkt) buf"
| "csv_column L sep pkt resp own col_resp_ra buf = write_flag wire_ra resp buf"
| "csv_column L sep pkt resp own col_req_z buf = write_flag wire_z (DNS_PACKET_REQUEST pkt) buf"
| "csv_column L sep pkt resp own col_resp_ad buf = write_flag wire_ad resp buf"
| "csv_column L sep pkt resp own col_req_cd buf = write_flag wire_cd (DNS_PACKET_REQUEST pkt) buf"
| "csv_column L sep pkt resp own col_qname buf =
     (case knot_dname_to_str L (knot_qname (knot_packet pkt)) of
        Some txt \<Rightarrow> csv_write txt buf | None \<Rightarrow> csv_writenull buf)"
| "csv_column L sep pkt resp own col_resp_ancount buf = write_count 6 resp buf"
| "csv_column L sep pkt resp own col_resp_arcount buf = write_count 10 resp buf"
| "csv_column L sep pkt resp own col_resp_nscount buf = write_count 8 resp buf"
| "csv_column L sep pkt resp own col_req_edns_ver buf = write_opt (\<lambda>rr. uint (edns_version rr)) (req_opt_rr pkt) buf"
| "csv_column L sep pkt resp own col_req_edns_udp buf = write_opt (\<lambda>rr. uint (edns_payload rr)) (req_opt_rr pkt) buf"
| "csv_column L sep pkt resp own col_req_edns_do buf =
     write_opt (\<lambda>rr. if edns_do rr then 1 else 0) (req_opt_rr pkt) buf"
| "csv_column L sep pkt resp own col_resp_edns_rcode buf =
     write_opt (\<lambda>rr. uint (edns_ext_rcode rr)) (resp_opt_rr resp) buf"
| "csv_column L sep pkt resp own col_req_edns_ping buf = Inr buf"
| "csv_column L sep pkt resp own col_req_edns_dau buf = write_understood sep 5 pkt buf"
| "csv_column L sep pkt resp own col_req_edns_dhu buf = write_understood sep 6 pkt buf"
| "csv_column L sep pkt resp own col_req_edns_n3u buf = write_understood sep 7 pkt buf"
| "csv_column L sep pkt resp own col_resp_edns_nsid buf = write_nsid sep resp buf"
| "csv_column L sep pkt resp own col_edns_client_subnet buf = write_subnet pkt resp buf"
| "csv_column L sep pkt resp own col_edns_other buf =
     (if req_opt_rr pkt = None \<and> resp_opt_rr resp = None then csv_writenull buf else Inr buf)"

text \<open>The columns in the order of the source.\<close>

definition csv_columns :: "dns_column list" where
  "csv_columns =
    [col_time, col_delay_us, col_req_dns_len, col_resp_dns_len, col_req_net_len, col_resp_net_len,
     col_client_addr, col_client_port, col_server_addr, col_server_port, col_net_proto, col_net_ipv, col_net_ttl,
     col_req_udp_sum, col_id, col_qtype, col_qclass, col_opcode, col_rcode,
     col_resp_aa, col_resp_tc, col_req_rd, col_resp_ra, col_req_z, col_resp_ad, col_req_cd,
     col_qname, col_resp_ancount, col_resp_arcount, col_resp_nscount,
     col_req_edns_ver, col_req_edns_udp, col_req_edns_do, col_resp_edns_rcode, col_req_edns_ping,
     col_req_edns_dau, col_req_edns_dhu, col_req_edns_n3u, col_resp_edns_nsid, col_edns_client_subnet, col_edns_other]"

text \<open>\<open>COND\<close> \<open>...\<close> \<open>COND_END\<close> for each column; \<open>body\<close> writes the name or the value.\<close>

fun csv_row :: "(dns_column \<Rightarrow> u8 list \<Rightarrow> u8 list res) \<Rightarrow> u8 \<Rightarrow> u32 \<Rightarrow> bool \<Rightarrow> dns_column list \<Rightarrow> u8 list \<Rightarrow> u8 list res" where
  "csv_row body sep flds first [] buf = Inr buf"
| "csv_row body sep flds first (c # cs) buf =
     (if selects flds c then
        bindr (if first then Inr buf else csv_put sep buf) (\<lambda>buf.
        bindr (body c buf) (\<lambda>buf. csv_row body sep flds False cs buf))
      else csv_row body sep flds first cs buf)"

text \<open>The end of the line: truncation to 2046 bytes and the newline.\<close>

definition csv_finish :: "u8 list \<Rightarrow> u8 list" where
  "csv_finish buf = (if length buf > CSV_BUF - 2 then take (CSV_BUF - 2) buf else buf) @ [10]"

definition write_packet_csv :: "text_lib \<Rightarrow> heap \<Rightarrow> u32 \<Rightarrow> int \<Rightarrow> dns_packet option \<Rightarrow> u8 list res" where
  "write_packet_csv L hp flds sep pk =
     (case pk of
        None \<Rightarrow> bindr (csv_row (\<lambda>c. csv_write (text_bytes (column_name c))) (word_of_int sep) flds True csv_columns [])
                  (\<lambda>buf. Inr (csv_finish buf))
      | Some pkt \<Rightarrow>
          bindr (DNS_PACKET_RESPONSE hp pkt) (\<lambda>resp.
          bindr (case response pkt of None \<Rightarrow> Inr None | Some r \<Rightarrow> bindr (deref hp r) (\<lambda>x. Inr (Some x))) (\<lambda>own.
          bindr (csv_row (csv_column L sep pkt resp own) (word_of_int sep) flds True csv_columns [])
            (\<lambda>buf. Inr (csv_finish buf)))))"

section \<open>The hooks\<close>

record dns_output_csv = dns_output +
  csv_sep :: int
  csv_inline :: bool
  csv_external_fmt :: "u8 list"
  csv_flds :: u32

text \<open>The header in a file of its own.\<close>

definition external_header :: "text_lib \<Rightarrow> os_env \<Rightarrow> int \<Rightarrow> dns_output_csv \<Rightarrow> dns_output_csv res" where
  "external_header L E time out =
     bindr (dns_us_time_strftime (os_strftime E) (length (csv_external_fmt out) + 64) (csv_external_fmt out) time) (\<lambda>path.
       if path = [] then Inl (Died ''Expanded filename expansion too long.'')
       else
         let n = ot_calls out; out = out\<lparr>ot_calls := n + 1\<rparr> in
         if os_open E n
         then bindr (write_packet_csv L (ot_heap out) (csv_flds out) (csv_sep out) None) (\<lambda>line.
           Inr (out\<lparr>ot_side_files := ot_side_files out @ [(path, line)]\<rparr>))
         else Inl (Died ''Unable to open output header file''))"

definition dns_output_csv_start_file :: "text_lib \<Rightarrow> os_env \<Rightarrow> int \<Rightarrow> dns_output_csv \<Rightarrow> dns_output_csv res" where
  "dns_output_csv_start_file L E time out =
     bindr (assertr (ot_out_file out \<noteq> None) ''out && out->base.out_file'') (\<lambda>_.
     bindr (if csv_inline out
            then bindr (write_packet_csv L (ot_heap out) (csv_flds out) (csv_sep out) None) (\<lambda>line. file_write line out)
            else Inr out) (\<lambda>out.
       if csv_external_fmt out \<noteq> [] then external_header L E time out else Inr out))"

definition dns_output_csv_write_packet :: "text_lib \<Rightarrow> pid \<Rightarrow> dns_output_csv \<Rightarrow> dns_output_csv res" where
  "dns_output_csv_write_packet L p out =
     bindr (deref (ot_heap out) p) (\<lambda>pkt.
     bindr (write_packet_csv L (ot_heap out) (csv_flds out) (csv_sep out) (Some pkt)) (\<lambda>line.
     bindr (file_write line out) (\<lambda>out. output_account p out)))"

definition csv_hooks :: "text_lib \<Rightarrow> os_env \<Rightarrow> dns_output_csv output_hooks" where
  "csv_hooks L E = \<lparr>hk_write_packet = Some (dns_output_csv_write_packet L),
     hk_start_file = Some (dns_output_csv_start_file L E), hk_finish_file = None\<rparr>"

definition dns_output_csv_create :: "heap \<Rightarrow> dns_config \<Rightarrow> dns_packet_frame list \<Rightarrow> dns_output_csv" where
  "dns_output_csv_create hp conf frames =
     dns_output.extend (dns_output_init hp frames (output_path_fmt conf) (output_pipe_cmd conf) (output_period_sec conf))
       (dns_output_csv.fields (c_char (csv_separator conf ! 0)) (csv_inline_header conf \<noteq> 0)
         (csv_external_header_path_fmt conf) (csv_fields conf))"

section \<open>Rows\<close>

text \<open>The texts of a row put together with the separator.\<close>

fun join :: "u8 \<Rightarrow> bool \<Rightarrow> u8 list list \<Rightarrow> u8 list" where
  "join sep first [] = []"
| "join sep first (t # txs) = (if first then [] else [sep]) @ t @ join sep False txs"

lemma csv_row_texts:
  assumes "\<And>c buf. c \<in> set cs \<Longrightarrow> length buf + bound c \<le> CSV_BUF \<Longrightarrow>
      \<exists>t. body c buf = Inr (buf @ t) \<and> length t \<le> bound c \<and> P t"
    and "length buf + sum_list (map (\<lambda>c. Suc (bound c)) cs) \<le> CSV_BUF"
  shows "\<exists>txs. csv_row body sep flds first cs buf = Inr (buf @ join sep first txs) \<and>
    length txs = length (filter (selects flds) cs) \<and> (\<forall>t \<in> set txs. P t) \<and>
    length (join sep first txs) \<le> sum_list (map (\<lambda>c. Suc (bound c)) cs)"
  using assms
proof (induction cs arbitrary: first buf)
  case Nil
  show ?case by (intro exI [of _ "[]"]) simp
next
  case (Cons c cs)
  show ?case
  proof (cases "selects flds c")
    case True
    define b1 where "b1 = (if first then buf else buf @ [sep])"
    have l: "length b1 \<le> Suc (length buf)" "b1 = buf @ (if first then [] else [sep])" by (simp_all add: b1_def)
    obtain t where t: "body c b1 = Inr (b1 @ t)" "length t \<le> bound c" "P t"
      using Cons.prems(1) [of c b1] Cons.prems(2) l(1) by auto
    have put: "(if first then Inr buf else csv_put sep buf) = Inr b1"
      using Cons.prems(2) by (simp add: csv_put_def b1_def)
    have "length (b1 @ t) + sum_list (map (\<lambda>c. Suc (bound c)) cs) \<le> CSV_BUF" using t(2) l(1) Cons.prems(2) by simp
    then obtain txs where txs: "csv_row body sep flds False cs (b1 @ t) = Inr ((b1 @ t) @ join sep False txs)"
      "length txs = length (filter (selects flds) cs)" "\<forall>t \<in> set txs. P t"
      "length (join sep False txs) \<le> sum_list (map (\<lambda>c. Suc (bound c)) cs)"
      using Cons.IH [of "b1 @ t" False] Cons.prems(1) by auto
    show ?thesis
      using True put t txs by (intro exI [of _ "t # txs"]) (simp add: l(2))
  next
    case False
    have "length buf + sum_list (map (\<lambda>c. Suc (bound c)) cs) \<le> CSV_BUF" using Cons.prems(2) by simp
    then obtain txs where "csv_row body sep flds first cs buf = Inr (buf @ join sep first txs)"
      "length txs = length (filter (selects flds) cs)" "\<forall>t \<in> set txs. P t"
      "length (join sep first txs) \<le> sum_list (map (\<lambda>c. Suc (bound c)) cs)"
      using Cons.IH [of buf first] Cons.prems(1) by auto
    then show ?thesis using False by (intro exI [of _ txs]) simp
  qed
qed

lemma plain_join:
  assumes "\<forall>t \<in> set txs. closed_text sep t" and "sep \<noteq> chr_bs" and "sep \<noteq> 10"
  shows "plain_bytes (join sep first txs @ r) = plain_bytes (join sep first txs) @ plain_bytes r"
    and "count_list (plain_bytes (join sep first txs)) sep = length txs - (if first then 1 else 0)"
    and "10 \<notin> set (join sep first txs)"
proof -
  have c: "plain_bytes (sep # x) = sep # plain_bytes x" for x using assms(2) by (rule plain_bytes_Cons_plain)
  have all: "plain_bytes (join sep first txs @ r) = plain_bytes (join sep first txs) @ plain_bytes r \<and>
    count_list (plain_bytes (join sep first txs)) sep = length txs - (if first then 1 else 0) \<and> 10 \<notin> set (join sep first txs)" for first r
    using assms(1)
  proof (induction txs arbitrary: first)
    case (Cons t txs)
    have t: "plain_bytes (t @ x) = plain_bytes t @ plain_bytes x" "count_list (plain_bytes t) sep = 0" "10 \<notin> set t" for x
      using Cons.prems by (simp_all add: closed_text_def count_list_0_iff)
    show ?case using Cons.IH [of False] Cons.prems assms(3) t by (auto simp: c)
  qed simp
  show "plain_bytes (join sep first txs @ r) = plain_bytes (join sep first txs) @ plain_bytes r"
    and "count_list (plain_bytes (join sep first txs)) sep = length txs - (if first then 1 else 0)"
    and "10 \<notin> set (join sep first txs)" using all by blast+
qed

text \<open>The header never fills the buffer.\<close>

definition header_bound :: "dns_column \<Rightarrow> nat" where
  "header_bound c = length (column_name c)"

lemma header_row:
  "\<exists>txs. csv_row (\<lambda>c. csv_write (text_bytes (column_name c))) sep flds True csv_columns [] = Inr (join sep True txs) \<and>
     length (join sep True txs) < 1000"
proof -
  have sum: "sum_list (map (\<lambda>c. Suc (header_bound c)) csv_columns) < 1000"
    by (simp add: csv_columns_def header_bound_def)
  have "\<exists>txs. csv_row (\<lambda>c. csv_write (text_bytes (column_name c))) sep flds True csv_columns [] = Inr ([] @ join sep True txs) \<and>
    length txs = length (filter (selects flds) csv_columns) \<and> (\<forall>t \<in> set txs. True) \<and>
    length (join sep True txs) \<le> sum_list (map (\<lambda>c. Suc (header_bound c)) csv_columns)"
    by (rule csv_row_texts) (use sum in \<open>auto simp: csv_write_def CSV_BUF_def header_bound_def text_bytes_def\<close>)
  then show ?thesis using sum by auto
qed

section \<open>The CSV writer is a writer\<close>

text \<open>What the writer puts out: the header, if it is in line, and the line of a packet.\<close>

definition csv_header_line :: "text_lib \<Rightarrow> u32 \<Rightarrow> int \<Rightarrow> u8 list" where
  "csv_header_line L flds sep = projr (write_packet_csv L Map.empty flds sep None)"

definition csv_good :: "text_lib \<Rightarrow> u32 \<Rightarrow> int \<Rightarrow> heap \<Rightarrow> pid \<Rightarrow> bool" where
  "csv_good L flds sep hp p \<longleftrightarrow> (case write_packet_csv L hp flds sep (hp p) of Inl _ \<Rightarrow> False | Inr _ \<Rightarrow> True)"

definition csv_line :: "text_lib \<Rightarrow> u32 \<Rightarrow> int \<Rightarrow> heap \<Rightarrow> pid \<Rightarrow> u8 list" where
  "csv_line L flds sep hp p = projr (write_packet_csv L hp flds sep (hp p))"

text \<open>The settings of the writer as a whole output, for the part of the record that it adds.\<close>

definition csv_of :: "unit dns_output_csv_ext \<Rightarrow> dns_output_csv" where
  "csv_of m = dns_output.extend (dns_output_init Map.empty [] [] [] 0) m"

lemma csv_of_more [simp]:
  "csv_sep (csv_of (dns_output.more out)) = csv_sep out" "csv_inline (csv_of (dns_output.more out)) = csv_inline out"
  "csv_flds (csv_of (dns_output.more out)) = csv_flds out"
  by (cases out; simp add: csv_of_def dns_output.defs)+

definition csv_hdr :: "text_lib \<Rightarrow> unit dns_output_csv_ext \<Rightarrow> u8 list" where
  "csv_hdr L m = (if csv_inline (csv_of m) then csv_header_line L (csv_flds (csv_of m)) (csv_sep (csv_of m)) else [])"

lemma header_line:
  "write_packet_csv L hp flds sep None = Inr (csv_header_line L flds sep)"
proof -
  obtain txs where "csv_row (\<lambda>c. csv_write (text_bytes (column_name c))) (word_of_int sep) flds True csv_columns []
      = Inr (join (word_of_int sep) True txs)" using header_row by blast
  then show ?thesis by (simp add: write_packet_csv_def csv_header_line_def)
qed

lemma written_csv_simps [simp]:
  "csv_external_fmt (written bs out) = csv_external_fmt out" "csv_flds (written bs out) = csv_flds out"
  "csv_sep (written bs out) = csv_sep out"
  by (simp_all add: written_def)

lemma external_header_ok:
  assumes "os_ok E" and "time \<noteq> DNS_NO_TIME"
  shows "\<exists>n sf. external_header L E time out = Inr (out\<lparr>ot_calls := n, ot_side_files := sf\<rparr>)"
  using assms by (simp add: external_header_def dns_us_time_strftime_def os_ok_def header_line Let_def) blast

lemma csv_start_ok:
  assumes "os_ok E" and "ot_out_file out = Some bs" and "time \<noteq> DNS_NO_TIME"
  shows "\<exists>n sf. dns_output_csv_start_file L E time out
    = Inr ((written (csv_hdr L (dns_output.more out)) out)\<lparr>ot_calls := n, ot_side_files := sf\<rparr>)"
proof -
  let ?w = "written (csv_hdr L (dns_output.more out)) out"
  have w: "written [] out = out" using assms(2) by (cases out) (simp add: written_def)
  have "(if csv_inline out then bindr (write_packet_csv L (ot_heap out) (csv_flds out) (csv_sep out) None) (\<lambda>line. file_write line out)
      else Inr out) = Inr ?w"
    using assms(2) w by (simp add: csv_hdr_def header_line file_write_Some)
  then have s: "dns_output_csv_start_file L E time out = (if csv_external_fmt ?w \<noteq> [] then external_header L E time ?w else Inr ?w)"
    using assms(2) by (simp add: dns_output_csv_start_file_def)
  show ?thesis
  proof (cases "csv_external_fmt ?w = []")
    case True
    then have "dns_output_csv_start_file L E time out = Inr (?w\<lparr>ot_calls := ot_calls ?w, ot_side_files := ot_side_files ?w\<rparr>)"
      unfolding s by simp
    then show ?thesis by blast
  next
    case False
    then show ?thesis unfolding s using external_header_ok [OF assms(1,3), of L ?w] by simp
  qed
qed

lemma csv_write_ok:
  assumes "ot_out_file out = Some bs" and "packet_ok (ot_heap out) p"
    and "csv_good L (csv_flds out) (csv_sep out) (ot_heap out) p"
  shows "dns_output_csv_write_packet L p out
    = Inr (counted p (written (csv_line L (csv_flds out) (csv_sep out) (ot_heap out) p) out))"
proof -
  let ?line = "csv_line L (csv_flds out) (csv_sep out) (ot_heap out) p"
  obtain pkt where p: "ot_heap out p = Some pkt" using assms(2) by (auto simp: packet_ok_def split: option.splits)
  have "write_packet_csv L (ot_heap out) (csv_flds out) (csv_sep out) (Some pkt) = Inr ?line"
    using assms(3) p by (auto simp: csv_good_def csv_line_def split: sum.splits)
  moreover have "output_account p (written ?line out) = Inr (counted p (written ?line out))"
    by (rule output_account_counted) (simp add: assms(2))
  ultimately show ?thesis using p by (simp add: dns_output_csv_write_packet_def file_write_Some [OF assms(1)])
qed

text \<open>A line depends on the packet and on the response that it owns only.\<close>

lemma csv_local:
  assumes "packet_ok hp p" and "\<And>x. x \<in> set (owned hp p) \<Longrightarrow> hp' x = hp x"
  shows "write_packet_csv L hp' flds sep (hp' p) = write_packet_csv L hp flds sep (hp p)"
proof -
  obtain pkt where p: "hp p = Some pkt" using assms(1) by (auto simp: packet_ok_def split: option.splits)
  have p': "hp' p = Some pkt" using assms(2) [of p] p by simp
  have r: "hp' x = hp x" if "response pkt = Some x" for x using assms(2) [of x] p that by (simp add: owned_def)
  have "DNS_PACKET_RESPONSE hp' pkt = DNS_PACKET_RESPONSE hp pkt"
    "(case response pkt of None \<Rightarrow> Inr None | Some r \<Rightarrow> bindr (deref hp' r) (\<lambda>x. Inr (Some x)))
      = (case response pkt of None \<Rightarrow> Inr None | Some r \<Rightarrow> bindr (deref hp r) (\<lambda>x. Inr (Some x)))"
    using r by (cases "response pkt"; simp add: DNS_PACKET_RESPONSE_def deref_def)+
  then show ?thesis by (simp add: write_packet_csv_def p p')
qed

interpretation csv: output_writer E "csv_hooks L E" "\<lambda>_. True" "csv_hdr L"
  "\<lambda>m. csv_line L (csv_flds (csv_of m)) (csv_sep (csv_of m))" "\<lambda>m. csv_good L (csv_flds (csv_of m)) (csv_sep (csv_of m))"
proof unfold_locales
  show "\<exists>n sf. call_hook (hk_start_file (csv_hooks L E)) time out
      = Inr ((written (csv_hdr L (dns_output.more out)) out)\<lparr>ot_calls := n, ot_side_files := sf\<rparr>)"
    if "os_ok E" "True" "ot_out_file out = Some bs" "time \<noteq> DNS_NO_TIME" for out bs time
    using csv_start_ok [OF that(1,3,4)] by (simp add: call_hook_def csv_hooks_def)
  show "call_hook (hk_write_packet (csv_hooks L E)) p out
      = Inr (counted p (written (csv_line L (csv_flds (csv_of (dns_output.more out))) (csv_sep (csv_of (dns_output.more out))) (ot_heap out) p) out))"
    if "ot_out_file out = Some bs" "packet_ok (ot_heap out) p"
      "csv_good L (csv_flds (csv_of (dns_output.more out))) (csv_sep (csv_of (dns_output.more out))) (ot_heap out) p" for out bs p
    using csv_write_ok [OF that(1,2)] that(3) by (simp add: call_hook_def csv_hooks_def)
  show "call_hook (hk_finish_file (csv_hooks L E)) time out = Inr out" for time and out :: dns_output_csv
    by (simp add: call_hook_def csv_hooks_def)
  show "csv_line L (csv_flds (csv_of cfg)) (csv_sep (csv_of cfg)) hp' p = csv_line L (csv_flds (csv_of cfg)) (csv_sep (csv_of cfg)) hp p \<and>
      csv_good L (csv_flds (csv_of cfg)) (csv_sep (csv_of cfg)) hp' p = csv_good L (csv_flds (csv_of cfg)) (csv_sep (csv_of cfg)) hp p"
    if "packet_ok hp p" "\<And>x. x \<in> set (owned hp p) \<Longrightarrow> hp' x = hp x" for hp p hp' cfg
    using csv_local [OF that] by (simp add: csv_line_def csv_good_def)
qed

section \<open>Lines that fit\<close>

text \<open>
  \<open>puts sep X n f\<close>: the code \<open>f\<close> adds at most \<open>n\<close> bytes if there is room for them, and under the
  condition \<open>X\<close> on the libraries' texts what it adds is a closed text.
\<close>

definition clean :: "int \<Rightarrow> bool \<Rightarrow> u8 list \<Rightarrow> bool" where
  "clean sep X t \<longleftrightarrow> (sep_ok sep \<and> X \<longrightarrow> closed_text (word_of_int sep) t)"

definition puts :: "int \<Rightarrow> bool \<Rightarrow> nat \<Rightarrow> (u8 list \<Rightarrow> u8 list res) \<Rightarrow> bool" where
  "puts sep X n f \<longleftrightarrow> (\<forall>buf. length buf + n \<le> CSV_BUF \<longrightarrow>
     (\<exists>t. f buf = Inr (buf @ t) \<and> length t \<le> n \<and> clean sep X t))"

named_theorems puts_intros "the parts of a line that fit into the buffer"

lemma puts_write [puts_intros]: "length t \<le> n \<Longrightarrow> clean sep X t \<Longrightarrow> puts sep X n (csv_write t)"
  by (simp add: puts_def csv_write_def)

lemma puts_skip [puts_intros]: "puts sep X n Inr"
  by (simp add: puts_def clean_def)

lemma puts_null [puts_intros]: "2 \<le> n \<Longrightarrow> puts sep X n csv_writenull"
  unfolding csv_writenull_def by (rule puts_write) (simp_all add: clean_def)

lemma clean_num: "clean sep X (dec_int i)"
  using digits_closed dec_int_bytes by (auto simp: clean_def)

lemma puts_num [puts_intros]: "length (dec_int i) \<le> n \<Longrightarrow> puts sep X n (write_num i)"
  unfolding write_num_def by (intro puts_write clean_num)

lemma write_column_simps [simp]:
  "write_opt get None = Inr" "write_opt get (Some y) = write_num (get y)" "write_flag gf None = Inr"
  "write_flag gf (Some q) = write_num (if gf (knot_packet q) then 1 else 0)" "write_count off None = Inr"
  by (rule ext; simp add: write_opt_def write_flag_def write_count_def)+

lemma sep_byte: "sep_ok sep \<Longrightarrow> (word_of_int sep :: u8) = c \<Longrightarrow> sep = uint c"
  using uint_sep [of sep] by simp

lemma puts_opt [puts_intros]: "(\<And>y. x = Some y \<Longrightarrow> length (dec_int (get y)) \<le> n) \<Longrightarrow> puts sep X n (write_opt get x)"
  by (cases x) (simp_all add: puts_skip puts_num)

lemma puts_flag [puts_intros]: "1 \<le> n \<Longrightarrow> puts sep X n (write_flag get pk)"
proof -
  assume n: "1 \<le> n"
  have "length (dec_int (if b then 1 else 0)) \<le> n" for b using n by (simp add: dec_int_def dec_nat.simps)
  then show ?thesis by (cases pk) (simp_all add: puts_skip puts_num)
qed

lemma load_be16_Inr: "i + 1 < length mem \<Longrightarrow> \<exists>w. load_be16 mem i = Inr w"
  by (simp add: load_be16_def)

lemma puts_count [puts_intros]:
  assumes "\<And>r. resp = Some r \<Longrightarrow> off + 1 < length (dns_data r)" and "5 \<le> n"
  shows "puts sep X n (write_count off resp)"
proof (cases resp)
  case None
  then show ?thesis by (simp add: puts_skip)
next
  case (Some r)
  then obtain w where "load_be16 (dns_data r) off = Inr w" using load_be16_Inr assms(1) by blast
  moreover have "length (dec_int (uint w)) \<le> n" using word_dec_length(1) [of w] assms(2) by simp
  moreover have "write_count off resp = write_num (uint w)"
    using Some calculation(1) by (intro ext) (simp add: write_count_def)
  ultimately show ?thesis by (simp add: puts_num)
qed

text \<open>The lists of understood algorithms: at most five bytes an entry.\<close>

lemma understood_list_puts:
  assumes "\<And>j. i \<le> j \<Longrightarrow> j < i + n \<Longrightarrow> 4 + j + j < length opt" and "length buf + 5 * n \<le> CSV_BUF"
  shows "\<exists>t. understood_list sep opt i n buf = Inr (buf @ t) \<and> length t \<le> 5 * n \<and> clean sep X t"
  using assms
proof (induction n arbitrary: i buf)
  case 0
  show ?case by (simp add: clean_def)
next
  case (Suc n)
  define s where "s = (if i > 0 then (if sep = 44 then [92, 44] else [44]) else ([] :: u8 list))"
  have "clean sep X [44]" if "sep \<noteq> 44"
    using that sep_byte [of sep 44] by (auto simp: clean_def intro!: closed_plain)
  then have s: "length s \<le> 2" "clean sep X s" by (auto simp: s_def clean_def)
  have e: "understood_entry opt i = Inr (opt ! (4 + i + i))" using Suc.prems(1) [of i] by (simp add: understood_entry_def)
  define v where "v = dec_int (uint (opt ! (4 + i + i)))"
  have v: "length v \<le> 3" "clean sep X v" using word_dec_length(2) clean_num by (simp_all add: v_def)
  have w1: "(if i > 0 then csv_write (if sep = 44 then [92, 44] else [44]) buf else Inr buf) = Inr (buf @ s)"
    using Suc.prems(2) by (simp add: csv_write_def s_def)
  have w2: "write_num (uint (opt ! (4 + i + i))) (buf @ s) = Inr ((buf @ s) @ v)"
    using Suc.prems(2) s(1) by (simp add: write_num_def csv_write_def v_def)
  obtain t where t: "understood_list sep opt (Suc i) n ((buf @ s) @ v) = Inr (((buf @ s) @ v) @ t)" "length t \<le> 5 * n" "clean sep X t"
    using Suc.IH [of "Suc i" "(buf @ s) @ v"] Suc.prems s(1) v(1) by auto
  have "clean sep X (s @ v @ t)" using s(2) v(2) t(3) closed_append by (auto simp: clean_def)
  then show ?case using w1 w2 e t(1,2) s(1) v(1) by (intro exI [of _ "s @ v @ t"]) simp
qed

definition list_small :: "u8 list \<Rightarrow> bool" where
  "list_small opt \<longleftrightarrow> (case knot_edns_opt_get_length opt of Inl _ \<Rightarrow> False | Inr len \<Rightarrow> len \<le> 16 \<and> 4 + 2 * len \<le> length opt)"

lemma puts_understood [puts_intros]:
  assumes "\<And>rr opt. req_opt_rr pkt = Some rr \<Longrightarrow> edns_option rr code = Some opt \<Longrightarrow> list_small opt"
  shows "puts sep X 80 (write_understood sep code pkt)"
proof -
  consider (none) "write_understood sep code pkt = csv_writenull"
    | (opt) rr opt where "req_opt_rr pkt = Some rr" "edns_option rr code = Some opt"
    by (cases "req_opt_rr pkt"; cases "edns_option (the (req_opt_rr pkt)) code") (auto simp: write_understood_def fun_eq_iff)
  then show ?thesis
  proof cases
    case none
    then show ?thesis by (simp add: puts_null)
  next
    case (opt rr opt)
    obtain len where len: "knot_edns_opt_get_length opt = Inr len" "len \<le> 16" "4 + 2 * len \<le> length opt"
      using assms [OF opt] by (auto simp: list_small_def split: sum.splits)
    have w: "write_understood sep code pkt buf = understood_list sep opt 0 len buf" for buf
      using opt len(1) by (simp add: write_understood_def)
    show ?thesis unfolding puts_def
    proof (intro allI impI)
      fix buf :: "u8 list"
      assume "length buf + 80 \<le> CSV_BUF"
      then obtain t where "understood_list sep opt 0 len buf = Inr (buf @ t)" "length t \<le> 5 * len" "clean sep X t"
        using understood_list_puts [of 0 len opt buf sep X] len by auto
      then show "\<exists>t. write_understood sep code pkt buf = Inr (buf @ t) \<and> length t \<le> 80 \<and> clean sep X t"
        using len(2) by (intro exI [of _ t]) (simp add: w)
    qed
  qed
qed

definition nsid_small :: "u8 list \<Rightarrow> bool" where
  "nsid_small opt \<longleftrightarrow> (case knot_edns_opt_get_length opt of Inl _ \<Rightarrow> False | Inr len \<Rightarrow> len \<le> 64 \<and> 4 + len \<le> length opt)"

lemma snescape_stored:
  "\<exists>ds'. (let (stored, n) = dns_snescape room sep ds in take n stored) = concat (map (snescape_char sep) ds') \<and> length ds' \<le> length ds"
proof (cases "room = 0")
  case True
  then show ?thesis by (intro exI [of _ "[]"]) (simp add: dns_snescape_def)
next
  case False
  obtain k where "snescape_loop (room - 1) sep ds = concat (map (snescape_char sep) (take k ds))"
    using snescape_loop_prefix [of ds "room - 1" sep] by auto
  then show ?thesis using False by (intro exI [of _ "take k ds"]) (simp add: dns_snescape_def Let_def)
qed

lemma concat_snescape_length: "length (concat (map (snescape_char sep) ds)) \<le> 4 * length ds"
proof (induction ds)
  case (Cons d ds)
  then show ?case using snescape_char_length [of sep d] by simp
qed simp

lemma puts_escape: "4 * length ds \<le> n \<Longrightarrow> puts sep X n (csv_escape sep ds)"
  unfolding puts_def
proof (intro allI impI)
  fix buf :: "u8 list"
  assume n: "4 * length ds \<le> n" "length buf + n \<le> CSV_BUF"
  obtain ds' where d: "(let (stored, n) = dns_snescape (CSV_BUF - length buf) sep ds in take n stored) = concat (map (snescape_char sep) ds')"
    "length ds' \<le> length ds" using snescape_stored by blast
  have "csv_escape sep ds buf = Inr (buf @ concat (map (snescape_char sep) ds'))"
    using n d(1) by (simp add: csv_escape_def split_beta)
  moreover have "length (concat (map (snescape_char sep) ds')) \<le> n" using concat_snescape_length [of sep ds'] n(1) d(2) by simp
  moreover have "clean sep X (concat (map (snescape_char sep) ds'))" using snescape_closed by (simp add: clean_def)
  ultimately show "\<exists>t. csv_escape sep ds buf = Inr (buf @ t) \<and> length t \<le> n \<and> clean sep X t" by blast
qed

lemma puts_nsid [puts_intros]:
  assumes "\<And>rr opt. resp_opt_rr resp = Some rr \<Longrightarrow> edns_option rr 3 = Some opt \<Longrightarrow> nsid_small opt"
  shows "puts sep X 256 (write_nsid sep resp)"
proof -
  consider (none) "write_nsid sep resp = csv_writenull"
    | (opt) rr opt where "resp_opt_rr resp = Some rr" "edns_option rr 3 = Some opt"
    by (cases "resp_opt_rr resp"; cases "edns_option (the (resp_opt_rr resp)) 3") (auto simp: write_nsid_def fun_eq_iff)
  then show ?thesis
  proof cases
    case none
    then show ?thesis by (simp add: puts_null)
  next
    case (opt rr opt)
    obtain len where len: "knot_edns_opt_get_length opt = Inr len" "len \<le> 64" "4 + len \<le> length opt"
      using assms [OF opt] by (auto simp: nsid_small_def split: sum.splits)
    have "write_nsid sep resp = csv_escape sep (take len (drop 4 opt))"
      using opt len(1,3) by (intro ext) (simp add: write_nsid_def)
    then show ?thesis using puts_escape [of "take len (drop 4 opt)" 256] len(2) by simp
  qed
qed

lemma puts_subnet [puts_intros]: "2 \<le> n \<Longrightarrow> puts sep X n (write_subnet pkt resp)"
proof -
  assume n: "2 \<le> n"
  have "write_subnet pkt resp = Inr \<or> write_subnet pkt resp = csv_writenull"
    by (auto simp: write_subnet_def Let_def fun_eq_iff)
  then show ?thesis using n puts_skip puts_null by metis
qed

text \<open>The packets whose lines fit, with the longest text of each column.\<close>

definition column_bound :: "dns_column \<Rightarrow> nat" where
  "column_bound c = (case c of col_time \<Rightarrow> 22 | col_delay_us \<Rightarrow> 21
     | col_req_dns_len \<Rightarrow> 20 | col_resp_dns_len \<Rightarrow> 20 | col_req_net_len \<Rightarrow> 20 | col_resp_net_len \<Rightarrow> 20
     | col_client_addr \<Rightarrow> 49 | col_server_addr \<Rightarrow> 49 | col_qname \<Rightarrow> 1023
     | col_req_edns_dau \<Rightarrow> 80 | col_req_edns_dhu \<Rightarrow> 80 | col_req_edns_n3u \<Rightarrow> 80 | col_resp_edns_nsid \<Rightarrow> 256 | _ \<Rightarrow> 5)"

definition csv_small :: "text_lib \<Rightarrow> dns_packet \<Rightarrow> dns_packet option \<Rightarrow> dns_packet option \<Rightarrow> bool" where
  "csv_small L pkt resp own \<longleftrightarrow> \<bar>ts pkt\<bar> < 2 ^ 63 \<and> (\<forall>r. own = Some r \<longrightarrow> \<bar>ts r\<bar> < 2 ^ 63) \<and>
     length (inet_ntop L (DNS_PACKET_AF pkt) (DNS_PACKET_CLIENT_ADDR pkt)) \<le> 49 \<and>
     length (inet_ntop L (DNS_PACKET_AF pkt) (DNS_PACKET_SERVER_ADDR pkt)) \<le> 49 \<and>
     (\<forall>txt. knot_dname_to_str L (knot_qname (knot_packet pkt)) = Some txt \<longrightarrow> length txt \<le> 1023) \<and>
     (\<forall>r. resp = Some r \<longrightarrow> 12 \<le> length (dns_data r)) \<and>
     (\<forall>rr code opt. req_opt_rr pkt = Some rr \<longrightarrow> code \<in> {5, 6, 7} \<longrightarrow> edns_option rr code = Some opt \<longrightarrow> list_small opt) \<and>
     (\<forall>rr opt. resp_opt_rr resp = Some rr \<longrightarrow> edns_option rr 3 = Some opt \<longrightarrow> nsid_small opt)"

definition csv_texts_closed :: "text_lib \<Rightarrow> int \<Rightarrow> dns_packet \<Rightarrow> bool" where
  "csv_texts_closed L sep pkt \<longleftrightarrow>
     closed_text (word_of_int sep) (inet_ntop L (DNS_PACKET_AF pkt) (DNS_PACKET_CLIENT_ADDR pkt)) \<and>
     closed_text (word_of_int sep) (inet_ntop L (DNS_PACKET_AF pkt) (DNS_PACKET_SERVER_ADDR pkt)) \<and>
     (\<forall>txt. knot_dname_to_str L (knot_qname (knot_packet pkt)) = Some txt \<longrightarrow> closed_text (word_of_int sep) txt)"

lemma time_text:
  assumes "\<bar>t\<bar> < 2 ^ 63"
  shows "length (dec_int (t sdiv 1000000) @ [46] @ dec_pad6 (t smod 1000000)) \<le> 22"
    and "clean sep X (dec_int (t sdiv 1000000) @ [46] @ dec_pad6 (t smod 1000000))"
proof -
  have "\<bar>t sdiv 1000000\<bar> < 10 ^ Suc 12" "\<bar>t smod 1000000\<bar> < 1000000"
  proof -
    define d m where "d = \<bar>t\<bar> div 1000000" and "m = \<bar>t\<bar> mod 1000000"
    have "0 \<le> d" "d < 10 ^ Suc 12" "0 \<le> m" "m < 1000000" using assms by (simp_all add: d_def m_def)
    moreover have "t sdiv 1000000 = sgn t * d" "t smod 1000000 = sgn t * m"
      by (simp_all add: signed_divide_int_def signed_modulo_int_def d_def m_def)
    ultimately show "\<bar>t sdiv 1000000\<bar> < 10 ^ Suc 12" "\<bar>t smod 1000000\<bar> < 1000000" by (simp_all add: abs_mult sgn_if)
  qed
  then show "length (dec_int (t sdiv 1000000) @ [46] @ dec_pad6 (t smod 1000000)) \<le> 22"
    using dec_int_length [of "t sdiv 1000000" 12] dec_pad6_length [of "t smod 1000000"] by simp
  have "number_byte b" if "b \<in> set (dec_int (t sdiv 1000000) @ [46] @ dec_pad6 (t smod 1000000))" for b
    using that dec_int_bytes dec_pad6_bytes by (auto simp: number_byte_def)
  then show "clean sep X (dec_int (t sdiv 1000000) @ [46] @ dec_pad6 (t smod 1000000))"
    unfolding clean_def using digits_closed by blast
qed

lemmas csv_column_ext = csv_column.simps [THEN ext]

lemma word_dec_length_le:
  "5 \<le> n \<Longrightarrow> length (dec_int (uint (x :: u16))) \<le> n" "5 \<le> n \<Longrightarrow> length (dec_int (uint (y :: u8))) \<le> n"
  using word_dec_length(1) [of x] word_dec_length(2) [of y] by simp_all

lemma puts_if [puts_intros]:
  "puts sep X n f \<Longrightarrow> puts sep X n g \<Longrightarrow> puts sep X n (\<lambda>buf. if b then f buf else g buf)"
  by (cases b) simp_all

lemma puts_if_skip [puts_intros]:
  "puts sep X n f \<Longrightarrow> puts sep X n (\<lambda>buf. if b then f buf else Inr buf)"
  using puts_if [OF _ puts_skip] by blast

lemma puts_text:
  assumes "\<And>t. tx = Some t \<Longrightarrow> length t \<le> n \<and> clean sep X t" and "2 \<le> n"
  shows "puts sep X n (\<lambda>buf. case tx of Some t \<Rightarrow> csv_write t buf | None \<Rightarrow> csv_writenull buf)"
  using assms puts_write [of _ n sep X] puts_null [OF assms(2), of sep X] by (cases tx) simp_all

lemma csv_column_puts:
  assumes small: "csv_small L pkt resp own"
  shows "puts sep (csv_texts_closed L sep pkt) (column_bound c) (csv_column L sep pkt resp own c)"
proof -
  have delay: "length (dec_int (ts r - ts pkt)) \<le> 21" if "own = Some r" for r
  proof -
    have "\<bar>ts pkt\<bar> < 2 ^ 63" "\<bar>ts r\<bar> < 2 ^ 63" using small that by (simp_all add: csv_small_def)
    then have "\<bar>ts r - ts pkt\<bar> < 10 ^ Suc 19" by simp
    then show ?thesis using dec_int_length [of "ts r - ts pkt" 19] by simp
  qed
  have opts: "list_small opt" if "req_opt_rr pkt = Some rr" "code \<in> {5, 6, 7}" "edns_option rr code = Some opt" for rr code opt
    using small that unfolding csv_small_def by blast
  have nsid: "nsid_small opt" if "resp_opt_rr resp = Some rr" "edns_option rr 3 = Some opt" for rr opt
    using small that unfolding csv_small_def by blast
  have dat: "k + 1 < length (dns_data r)" if "k \<le> 10" "resp = Some r" for r k
    using small that unfolding csv_small_def by fastforce
  have addr: "length (inet_ntop L (DNS_PACKET_AF pkt) (DNS_PACKET_CLIENT_ADDR pkt)) \<le> 49"
    "length (inet_ntop L (DNS_PACKET_AF pkt) (DNS_PACKET_SERVER_ADDR pkt)) \<le> 49"
    "clean sep (csv_texts_closed L sep pkt) (inet_ntop L (DNS_PACKET_AF pkt) (DNS_PACKET_CLIENT_ADDR pkt))"
    "clean sep (csv_texts_closed L sep pkt) (inet_ntop L (DNS_PACKET_AF pkt) (DNS_PACKET_SERVER_ADDR pkt))"
    using small by (simp_all add: csv_small_def clean_def csv_texts_closed_def)
  have name: "length t \<le> 1023 \<and> clean sep (csv_texts_closed L sep pkt) t"
    if "knot_dname_to_str L (knot_qname (knot_packet pkt)) = Some t" for t
    using small that by (simp add: csv_small_def clean_def csv_texts_closed_def)
  have time: "\<bar>ts pkt\<bar> < 2 ^ 63" using small by (simp add: csv_small_def)
  have digit: "clean sep (csv_texts_closed L sep pkt) [52]" "clean sep (csv_texts_closed L sep pkt) [54]"
    using digits_closed [of sep "[52]"] digits_closed [of sep "[54]"] by (simp_all add: clean_def number_byte_def)
  have bool: "length (dec_int (if b then 1 else 0)) \<le> 5" for b by (simp add: dec_int_def dec_nat.simps)
  show ?thesis
    by (cases c; simp only: csv_column_ext column_bound_def dns_column.case;
      (intro puts_intros puts_text time_text time addr name delay opts nsid dat digit bool word_dec_length_le word_dec_length(3))?; simp?)
qed

section \<open>Properties of the writer\<close>

lemma csv_row_small:
  assumes "csv_small L pkt resp own"
  shows "\<exists>txs. csv_row (csv_column L sep pkt resp own) w flds True csv_columns [] = Inr (join w True txs) \<and>
    length txs = length (filter (selects flds) csv_columns) \<and> (\<forall>t \<in> set txs. clean sep (csv_texts_closed L sep pkt) t) \<and>
    length (join w True txs) \<le> 2046"
proof -
  have sum: "sum_list (map (\<lambda>c. Suc (column_bound c)) csv_columns) \<le> 2046"
    by (simp add: csv_columns_def column_bound_def)
  have "\<exists>txs. csv_row (csv_column L sep pkt resp own) w flds True csv_columns [] = Inr ([] @ join w True txs) \<and>
    length txs = length (filter (selects flds) csv_columns) \<and> (\<forall>t \<in> set txs. clean sep (csv_texts_closed L sep pkt) t) \<and>
    length (join w True txs) \<le> sum_list (map (\<lambda>c. Suc (column_bound c)) csv_columns)"
  proof (rule csv_row_texts)
    show "\<exists>t. csv_column L sep pkt resp own c buf = Inr (buf @ t) \<and> length t \<le> column_bound c \<and>
        clean sep (csv_texts_closed L sep pkt) t"
      if "length buf + column_bound c \<le> CSV_BUF" for c buf
      using csv_column_puts [OF assms, of sep c] that unfolding puts_def by blast
    show "length [] + sum_list (map (\<lambda>c. Suc (column_bound c)) csv_columns) \<le> CSV_BUF" using sum by (simp add: CSV_BUF_def)
  qed
  then show ?thesis using sum by auto
qed

lemma csv_packet_small:
  assumes "packet_ok hp p" and "hp p = Some pkt" and "DNS_PACKET_RESPONSE hp pkt = Inr resp"
    and "csv_small L pkt resp (own_response hp pkt)"
  shows "\<exists>txs. write_packet_csv L hp flds sep (Some pkt) = Inr (join (word_of_int sep) True txs @ [10]) \<and>
    length txs = length (filter (selects flds) csv_columns) \<and> (\<forall>t \<in> set txs. clean sep (csv_texts_closed L sep pkt) t)"
proof -
  obtain txs where "csv_row (csv_column L sep pkt resp (own_response hp pkt)) (word_of_int sep) flds True csv_columns []
      = Inr (join (word_of_int sep) True txs)" "length txs = length (filter (selects flds) csv_columns)"
    "\<forall>t \<in> set txs. clean sep (csv_texts_closed L sep pkt) t" "length (join (word_of_int sep) True txs) \<le> 2046"
    using csv_row_small [OF assms(4)] by blast
  then show ?thesis
    by (intro exI [of _ txs]) (simp add: write_packet_csv_def assms(3) own_response_read [OF assms(1,2)] csv_finish_def CSV_BUF_def)
qed

lemma ex_out_heap_small:
  "csv_small ex_text_lib ((ex_packet 10 False)\<lparr>response := Some 2\<rparr>) (Some ((ex_packet 20 True)\<lparr>dns_data := replicate 12 0\<rparr>))
     (own_response ex_out_heap ((ex_packet 10 False)\<lparr>response := Some 2\<rparr>))"
  by (simp add: csv_small_def ex_text_lib_def own_response_def ex_out_heap_def ex_packet_def ex_knot_def req_opt_rr_def resp_opt_rr_def
      DNS_PACKET_REQUEST_def split: if_splits)

lemma dec_int_nonempty: "0 < length (dec_int i)"
  by (simp add: dec_int_def dec_nat.simps)

lemma understood_list_step:
  assumes "understood_list 44 opt i (Suc n) buf = Inr r"
  shows "\<exists>v. understood_list 44 opt (Suc i) n ((if i > 0 then buf @ [92, 44] else buf) @ dec_int (uint (v :: u8))) = Inr r \<and>
    length (if i > 0 then buf @ [92, 44] else buf) \<le> CSV_BUF"
  using assms by (auto simp: csv_write_def write_num_def bindr_def split: sum.splits if_splits)

lemma understood_list_room:
  assumes "understood_list 44 opt (Suc i) (Suc n) buf = Inr r"
  shows "length buf + 3 * n + 2 \<le> CSV_BUF"
  using assms
proof (induction n arbitrary: i buf)
  case 0
  then show ?case using understood_list_step [of opt "Suc i" 0 buf r] by auto
next
  case (Suc n)
  then obtain v where "understood_list 44 opt (Suc (Suc i)) (Suc n) ((buf @ [92, 44]) @ dec_int (uint (v :: u8))) = Inr r"
    using understood_list_step [of opt "Suc i" "Suc n" buf r] by (auto simp del: understood_list.simps)
  from Suc.IH [OF this] have "length buf + 2 + length (dec_int (uint v)) + 3 * n + 2 \<le> CSV_BUF" by simp
  then show ?case using dec_int_nonempty [of "uint v"] by presburger
qed

lemma understood_list_errors:
  assumes "4 + 2 * (i + n) \<le> length opt + 1"
  shows "(\<exists>r. understood_list sep opt i n buf = Inr r) \<or> understood_list sep opt i n buf = Inl (Bad_pointer ''outbuf'')"
  using assms
proof (induction n arbitrary: i buf)
  case (Suc n)
  have e: "understood_entry opt i = Inr (opt ! (4 + i + i))" using Suc.prems by (simp add: understood_entry_def)
  show ?case using Suc.IH [of "Suc i"] Suc.prems by (auto simp: e csv_write_def write_num_def)
qed simp

lemma long_list_no_result:
  assumes "700 \<le> n"
  shows "\<exists>why. understood_list 44 opt 0 n buf = Inl why"
proof (cases "understood_list 44 opt 0 n buf")
  case (Inr r)
  define k where "k = n - 2"
  have n: "n = Suc (Suc k)" "698 \<le> k" using assms by (simp_all add: k_def)
  from Inr obtain v where "understood_list 44 opt (Suc 0) (Suc k) (buf @ dec_int (uint (v :: u8))) = Inr r"
    unfolding n(1) using understood_list_step [of opt 0 "Suc k" buf r] by auto
  from understood_list_room [OF this] show ?thesis using n(2) by (simp add: CSV_BUF_def)
qed simp

lemma long_list_overflows:
  assumes "700 \<le> n" and "4 + 2 * n \<le> length opt"
  shows "understood_list 44 opt 0 n buf = Inl (Bad_pointer ''outbuf'')"
  using understood_list_errors [of 0 n opt 44 buf] long_list_no_result [OF assms(1), of opt buf] assms(2) by auto

lemma bindr_stuck:
  "(\<And>x. \<exists>why. g x = Inl why) \<Longrightarrow> \<exists>why. bindr m g = Inl why" "m = Inl why \<Longrightarrow> \<exists>why. bindr m g = Inl why"
  by (cases m; simp)+

lemma csv_row_stuck:
  assumes "c \<in> set cs" and "selects flds c" and "\<And>buf. \<exists>why. body c buf = Inl why"
  shows "\<exists>why. csv_row body sep flds first cs buf = Inl why"
  using assms(1)
proof (induction cs arbitrary: first buf)
  case (Cons d cs)
  show ?case
  proof (cases "d = c")
    case True
    then show ?thesis using assms(2,3) by (cases first) (auto simp: csv_put_def bindr_def split: sum.splits, (metis sum.distinct(1))+)
  next
    case False
    then show ?thesis using Cons by (auto simp: bindr_def split: sum.splits)
  qed
qed simp

lemma csv_output_run:
  assumes "os_ok E" and "frame_type g = 1" and "fr_count g = 0" and "fr_packets g = []"
    and "flds = csv_fields conf" and "sep = c_char (csv_separator conf ! 0)"
    and "frames_writable (csv_good L flds sep) hp fs"
  shows "\<exists>b gs. dns_output_main E (csv_hooks L E) (dns_output_csv_create hp conf (fs @ [g])) = Some (Inr b) \<and>
    ot_out_file b = None \<and> dns_output_finalize b = Inr () \<and>
    ot_files b = map (file_of (if csv_inline_header conf \<noteq> 0 then csv_header_line L flds sep else []) (csv_line L flds sep hp)) gs \<and>
    concat (map snd gs) = concat (map fr_packets fs) \<and> output_counts hp (concat (map fr_packets fs)) b"
proof -
  let ?out = "dns_output_csv_create hp conf (fs @ [g])" and ?m = "dns_output.more (dns_output_csv_create hp conf (fs @ [g]))"
  have set: "csv_flds (csv_of ?m) = flds" "csv_sep (csv_of ?m) = sep" "csv_inline (csv_of ?m) \<longleftrightarrow> csv_inline_header conf \<noteq> 0"
    "ot_in ?out = fs @ [g]" "ot_heap ?out = hp"
    using assms(5,6) by (simp_all add: csv_of_def dns_output_csv_create_def dns_output.defs dns_output_csv.defs dns_output_init_def)
  have hdr: "csv_hdr L ?m = (if csv_inline_header conf \<noteq> 0 then csv_header_line L flds sep else [])"
    unfolding csv_hdr_def set by (rule refl)
  have inv: "output_inv (csv_hdr L ?m) (csv_line L flds sep hp) hp [] ?out"
    by (simp add: output_inv_def output_counts_def dns_output_csv_create_def dns_output.defs dns_output_csv.defs dns_output_init_def)
  show ?thesis
    by (rule csv.main_ok [OF assms(1-4), of ?out fs L, unfolded set hdr, OF refl assms(7) inv [unfolded hdr] TrueI])
qed


lemma ex_csv_good: "csv_good ex_text_lib flds sep ex_out_heap 1"
  using csv_packet_small [OF ex_out_heap_read(1,2,3) ex_out_heap_small, of flds sep] by (auto simp: csv_good_def ex_out_heap_read(2) simp del: One_nat_def)


text \<open>
  C10: The line of a packet within the limits of \<open>csv_small\<close> always fits: it is written whole, it ends
  with its only newline, and it has one separator that is not escaped between each two of the
  selected columns, if the texts of the libraries keep to the escaping.
\<close>

theorem csv_line_fields:
  assumes "packet_ok hp p" and "hp p = Some pkt" and "DNS_PACKET_RESPONSE hp pkt = Inr resp"
    and "csv_small L pkt resp (own_response hp pkt)" and "sep_ok sep" and "sep \<noteq> 10" and "csv_texts_closed L sep pkt"
  shows "\<exists>line. write_packet_csv L hp flds sep (Some pkt) = Inr (line @ [10]) \<and> 10 \<notin> set line \<and>
    count_list (plain_bytes line) (word_of_int sep) = length (filter (selects flds) csv_columns) - 1"
proof -
  obtain txs where t: "write_packet_csv L hp flds sep (Some pkt) = Inr (join (word_of_int sep) True txs @ [10])"
    "length txs = length (filter (selects flds) csv_columns)" "\<forall>t \<in> set txs. clean sep (csv_texts_closed L sep pkt) t"
    using csv_packet_small [OF assms(1-4), of flds sep] by blast
  have c: "\<forall>t \<in> set txs. closed_text (word_of_int sep) t" using t(3) assms(5,7) by (simp add: clean_def)
  have n: "(word_of_int sep :: u8) \<noteq> chr_bs" "(word_of_int sep :: u8) \<noteq> 10"
    using sep_byte [OF assms(5), of 92] sep_byte [OF assms(5), of 10] assms(5,6) by (auto simp: sep_ok_def)
  show ?thesis
    using t(1,2) plain_join(2,3) [OF c n, of True] by (intro exI [of _ "join (word_of_int sep) True txs"]) simp
qed

lemma ex_texts_closed: "csv_texts_closed ex_text_lib 44 ((ex_packet 10 False)\<lparr>response := Some 2\<rparr>)"
  unfolding csv_texts_closed_def ex_text_lib_def by (auto intro!: closed_plain)

theorem csv_line_fields_witness:
  "\<exists>line. write_packet_csv ex_text_lib ex_out_heap all_fields 44 (Some ((ex_packet 10 False)\<lparr>response := Some 2\<rparr>)) = Inr (line @ [10]) \<and>
     10 \<notin> set line \<and> count_list (plain_bytes line) 44 = length (filter (selects all_fields) csv_columns) - 1"
  using csv_line_fields [OF ex_out_heap_read ex_out_heap_small _ _ ex_texts_closed, of all_fields] by (simp add: sep_ok_def)

text \<open>
  C37: A request with a DAU list of 700 entries or more overruns the line buffer when the separator is
  the comma, whatever was written before: the remaining room that \<open>snprintf\<close> is given has then become
  negative. The packet never gets a line.
\<close>

theorem csv_long_list_overflows:
  assumes "req_opt_rr pkt = Some rr" and "edns_option rr 5 = Some opt" and "knot_edns_opt_get_length opt = Inr len"
    and "700 \<le> len" and "4 + 2 * len \<le> length opt" and "field_set flds dns_field_edns"
  shows "csv_column L 44 pkt resp own col_req_edns_dau buf = Inl (Bad_pointer ''outbuf'') \<and>
    (\<exists>why. write_packet_csv L hp flds 44 (Some pkt) = Inl why)"
proof
  have w: "csv_column L 44 pkt resp own col_req_edns_dau buf = Inl (Bad_pointer ''outbuf'')" for resp own buf
    using assms(1-3) long_list_overflows [OF assms(4,5)] by (simp add: write_understood_def)
  show "csv_column L 44 pkt resp own col_req_edns_dau buf = Inl (Bad_pointer ''outbuf'')" by (rule w)
  have row: "\<exists>why. csv_row (csv_column L 44 pkt resp own) sep flds True csv_columns [] = Inl why" for resp own sep
    by (rule csv_row_stuck [of col_req_edns_dau]) (simp_all add: csv_columns_def selects_def assms(6) w [unfolded csv_column.simps])
  have "\<exists>why. bindr (csv_row (csv_column L 44 pkt resp own) sep flds True csv_columns []) (\<lambda>buf. Inr (csv_finish buf)) = Inl why" for resp own sep
    using row [of resp own sep] by (auto intro: bindr_stuck(2))
  then show "\<exists>why. write_packet_csv L hp flds 44 (Some pkt) = Inl why"
    unfolding write_packet_csv_def option.case by (rule bindr_stuck(1) [OF bindr_stuck(1)])
qed

definition ex_dau_packet :: dns_packet where
  "ex_dau_packet = (ex_packet 10 False)\<lparr>knot_packet := (ex_knot False)\<lparr>opt_rr := Some \<lparr>edns_version = 0, edns_payload = 4096,
     edns_do = False, edns_ext_rcode = 0, edns_option = [5 \<mapsto> [0, 5, 2, 188] @ replicate 1400 0]\<rparr>\<rparr>\<rparr>"

theorem csv_long_list_overflows_witness:
  "csv_column ex_text_lib 44 ex_dau_packet None None col_req_edns_dau [] = Inl (Bad_pointer ''outbuf'')"
proof -
  let ?opt = "[0, 5, 2, 188] @ replicate 1400 0 :: u8 list"
  have len: "knot_edns_opt_get_length ?opt = Inr 700" "4 + 2 * 700 \<le> length ?opt" "(700 :: nat) \<le> 700"
    by (simp_all add: knot_edns_opt_get_length_def load_be16_def)
  have all: "field_set all_fields dns_field_edns" by (simp add: field_set_def all_fields_def dns_of_LAST_def)
  obtain rr where rr: "req_opt_rr ex_dau_packet = Some rr" "edns_option rr 5 = Some ?opt"
    by (simp add: ex_dau_packet_def req_opt_rr_def DNS_PACKET_REQUEST_def DNS_PACKET_IS_RESPONSE_def DNS_PACKET_IS_REQUEST_def ex_packet_def ex_knot_def)
  show ?thesis
    using csv_long_list_overflows [OF rr len(1,3,2) all, of ex_text_lib None None "[]"] by blast
qed

end
