(* ===== verification/Cbor_Base.thy ===== *)
theory Cbor_Base
  imports Dns_Prelude
begin

text \<open>
  The constants that the encoder and the parser of tinycbor share (\<^verbatim>\<open>tinycbor/src/cbor.h\<close>,
  \<^verbatim>\<open>tinycbor/src/cborinternal_p.h\<close>), the texts of its errors, and the data items of
  RFC 7049 with their encoding, which is the reference that the code is compared with.
\<close>

section \<open>Errors\<close>

datatype CborError =
    CborNoError
  | CborUnknownError
  | CborErrorUnknownLength
  | CborErrorAdvancePastEOF
  | CborErrorIO
  | CborErrorGarbageAtEnd
  | CborErrorUnexpectedEOF
  | CborErrorUnexpectedBreak
  | CborErrorUnknownType
  | CborErrorIllegalType
  | CborErrorIllegalNumber
  | CborErrorIllegalSimpleType
  | CborErrorUnknownSimpleType
  | CborErrorUnknownTag
  | CborErrorInappropriateTagForType
  | CborErrorDuplicateObjectKeys
  | CborErrorInvalidUtf8TextString
  | CborErrorExcludedType
  | CborErrorExcludedValue
  | CborErrorImproperValue
  | CborErrorOverlongEncoding
  | CborErrorMapKeyNotString
  | CborErrorMapNotSorted
  | CborErrorMapKeysNotUnique
  | CborErrorTooManyItems
  | CborErrorTooFewItems
  | CborErrorDataTooLarge
  | CborErrorNestingTooDeep
  | CborErrorUnsupportedType
  | CborErrorJsonObjectKeyIsAggregate
  | CborErrorJsonObjectKeyNotString
  | CborErrorJsonNotImplemented
  | CborErrorOutOfMemory
  | CborErrorInternalError

text \<open>The numbers of the enumeration.\<close>

fun CborError_number :: "CborError \<Rightarrow> int" where
  "CborError_number CborNoError = 0"
| "CborError_number CborUnknownError = 1"
| "CborError_number CborErrorUnknownLength = 2"
| "CborError_number CborErrorAdvancePastEOF = 3"
| "CborError_number CborErrorIO = 4"
| "CborError_number CborErrorGarbageAtEnd = 256"
| "CborError_number CborErrorUnexpectedEOF = 257"
| "CborError_number CborErrorUnexpectedBreak = 258"
| "CborError_number CborErrorUnknownType = 259"
| "CborError_number CborErrorIllegalType = 260"
| "CborError_number CborErrorIllegalNumber = 261"
| "CborError_number CborErrorIllegalSimpleType = 262"
| "CborError_number CborErrorUnknownSimpleType = 512"
| "CborError_number CborErrorUnknownTag = 513"
| "CborError_number CborErrorInappropriateTagForType = 514"
| "CborError_number CborErrorDuplicateObjectKeys = 515"
| "CborError_number CborErrorInvalidUtf8TextString = 516"
| "CborError_number CborErrorExcludedType = 517"
| "CborError_number CborErrorExcludedValue = 518"
| "CborError_number CborErrorImproperValue = 519"
| "CborError_number CborErrorOverlongEncoding = 520"
| "CborError_number CborErrorMapKeyNotString = 521"
| "CborError_number CborErrorMapNotSorted = 522"
| "CborError_number CborErrorMapKeysNotUnique = 523"
| "CborError_number CborErrorTooManyItems = 768"
| "CborError_number CborErrorTooFewItems = 769"
| "CborError_number CborErrorDataTooLarge = 1024"
| "CborError_number CborErrorNestingTooDeep = 1025"
| "CborError_number CborErrorUnsupportedType = 1026"
| "CborError_number CborErrorJsonObjectKeyIsAggregate = 1280"
| "CborError_number CborErrorJsonObjectKeyNotString = 1281"
| "CborError_number CborErrorJsonNotImplemented = 1282"
| "CborError_number CborErrorOutOfMemory = -2147483648"
| "CborError_number CborErrorInternalError = 2147483647"

fun cbor_error_string :: "CborError \<Rightarrow> string" where
  "cbor_error_string CborNoError = ''''"
| "cbor_error_string CborUnknownError = ''unknown error''"
| "cbor_error_string CborErrorUnknownLength = ''unknown length (attempted to get the length of a map/array/string of indeterminate length''"
| "cbor_error_string CborErrorAdvancePastEOF = ''attempted to advance past EOF''"
| "cbor_error_string CborErrorIO = ''I/O error''"
| "cbor_error_string CborErrorGarbageAtEnd = ''garbage after the end of the content''"
| "cbor_error_string CborErrorUnexpectedEOF = ''unexpected end of data''"
| "cbor_error_string CborErrorUnexpectedBreak = ''unexpected 'break' byte''"
| "cbor_error_string CborErrorUnknownType = ''illegal byte (encodes future extension type)''"
| "cbor_error_string CborErrorIllegalType = ''mismatched string type in chunked string''"
| "cbor_error_string CborErrorIllegalNumber = ''illegal initial byte (encodes unspecified additional information)''"
| "cbor_error_string CborErrorIllegalSimpleType = ''illegal encoding of simple type smaller than 32''"
| "cbor_error_string CborErrorUnknownSimpleType = ''unknown simple type''"
| "cbor_error_string CborErrorUnknownTag = ''unknown tag''"
| "cbor_error_string CborErrorInappropriateTagForType = ''inappropriate tag for type''"
| "cbor_error_string CborErrorDuplicateObjectKeys = ''duplicate keys in object''"
| "cbor_error_string CborErrorInvalidUtf8TextString = ''invalid UTF-8 content in string''"
| "cbor_error_string CborErrorExcludedType = ''excluded type found''"
| "cbor_error_string CborErrorExcludedValue = ''excluded value found''"
| "cbor_error_string CborErrorImproperValue = ''value encoded in non-canonical form''"
| "cbor_error_string CborErrorOverlongEncoding = ''value encoded in non-canonical form''"
| "cbor_error_string CborErrorMapKeyNotString = ''key in map is not a string''"
| "cbor_error_string CborErrorMapNotSorted = ''map is not sorted''"
| "cbor_error_string CborErrorMapKeysNotUnique = ''map keys are not unique''"
| "cbor_error_string CborErrorTooManyItems = ''too many items added to encoder''"
| "cbor_error_string CborErrorTooFewItems = ''too few items added to encoder''"
| "cbor_error_string CborErrorDataTooLarge = ''internal error: data too large''"
| "cbor_error_string CborErrorNestingTooDeep = ''internal error: too many nested containers found in recursive function''"
| "cbor_error_string CborErrorUnsupportedType = ''unsupported type''"
| "cbor_error_string CborErrorJsonObjectKeyIsAggregate = ''conversion to JSON failed: key in object is an array or map''"
| "cbor_error_string CborErrorJsonObjectKeyNotString = ''key in map is not a string''"
| "cbor_error_string CborErrorJsonNotImplemented = ''conversion to JSON failed: open_memstream unavailable''"
| "cbor_error_string CborErrorOutOfMemory = ''out of memory/need more memory''"
| "cbor_error_string CborErrorInternalError = ''internal error''"

section \<open>Types and constants\<close>

datatype CborMajorTypes =
    UnsignedIntegerType
  | NegativeIntegerType
  | ByteStringType
  | TextStringType
  | ArrayType
  | MapType
  | TagType
  | SimpleTypesType

fun CborMajorTypes_number :: "CborMajorTypes \<Rightarrow> u8" where
  "CborMajorTypes_number UnsignedIntegerType = 0"
| "CborMajorTypes_number NegativeIntegerType = 1"
| "CborMajorTypes_number ByteStringType = 2"
| "CborMajorTypes_number TextStringType = 3"
| "CborMajorTypes_number ArrayType = 4"
| "CborMajorTypes_number MapType = 5"
| "CborMajorTypes_number TagType = 6"
| "CborMajorTypes_number SimpleTypesType = 7"

definition Value8Bit :: nat where
  "Value8Bit = 24"

definition Value16Bit :: nat where
  "Value16Bit = 25"

definition Value32Bit :: nat where
  "Value32Bit = 26"

definition Value64Bit :: nat where
  "Value64Bit = 27"

definition IndefiniteLength :: nat where
  "IndefiniteLength = 31"

definition MajorTypeShift :: nat where
  "MajorTypeShift = 5"

definition SmallValueMask :: u8 where
  "SmallValueMask = 31"

definition MajorTypeMask :: u8 where
  "MajorTypeMask = 0xE0"

definition HalfPrecisionFloat :: u8 where
  "HalfPrecisionFloat = 25"

definition Break :: u8 where
  "Break = 31"

text \<open>\<open>(unsigned)Break | (SimpleTypesType << MajorTypeShift)\<close>\<close>

definition BreakByte :: u8 where
  "BreakByte = Break OR push_bit MajorTypeShift (CborMajorTypes_number SimpleTypesType)"

definition major :: "CborMajorTypes \<Rightarrow> u8" where
  "major t = push_bit MajorTypeShift (CborMajorTypes_number t)"

lemma major_simps [simp]:
  "major UnsignedIntegerType = 0" "major NegativeIntegerType = 0x20" "major ByteStringType = 0x40" "major TextStringType = 0x60"
  "major ArrayType = 0x80" "major MapType = 0xA0" "major TagType = 0xC0" "major SimpleTypesType = 0xE0" "BreakByte = 0xFF"
  by (simp_all add: major_def MajorTypeShift_def BreakByte_def Break_def)

text \<open>The types of values that the API names; they are the initial byte of such a value.\<close>

datatype CborType =
    CborIntegerType
  | CborByteStringType
  | CborTextStringType
  | CborArrayType
  | CborMapType
  | CborTagType
  | CborSimpleType
  | CborBooleanType
  | CborNullType
  | CborUndefinedType
  | CborHalfFloatType
  | CborFloatType
  | CborDoubleType
  | CborInvalidType

fun CborType_number :: "CborType \<Rightarrow> u8" where
  "CborType_number CborIntegerType = 0x00"
| "CborType_number CborByteStringType = 0x40"
| "CborType_number CborTextStringType = 0x60"
| "CborType_number CborArrayType = 0x80"
| "CborType_number CborMapType = 0xA0"
| "CborType_number CborTagType = 0xC0"
| "CborType_number CborSimpleType = 0xE0"
| "CborType_number CborBooleanType = 0xF5"
| "CborType_number CborNullType = 0xF6"
| "CborType_number CborUndefinedType = 0xF7"
| "CborType_number CborHalfFloatType = 0xF9"
| "CborType_number CborFloatType = 0xFA"
| "CborType_number CborDoubleType = 0xFB"
| "CborType_number CborInvalidType = 0xFF"

definition CborIteratorFlag_IntegerValueTooLarge :: u8 where
  "CborIteratorFlag_IntegerValueTooLarge = 0x01"

definition CborIteratorFlag_NegativeInteger :: u8 where
  "CborIteratorFlag_NegativeInteger = 0x02"

definition CborIteratorFlag_UnknownLength :: u8 where
  "CborIteratorFlag_UnknownLength = 0x04"

definition CborIteratorFlag_ContainerIsMap :: u8 where
  "CborIteratorFlag_ContainerIsMap = 0x20"

definition CborIndefiniteLength :: u64 where
  "CborIndefiniteLength = -1"

section \<open>Reference encoding\<close>

text \<open>Big-endian bytes of a number.\<close>

definition be_bytes :: "nat \<Rightarrow> u64 \<Rightarrow> u8 list" where
  "be_bytes n v = map (\<lambda>i. ucast (drop_bit (8 * (n - 1 - i)) v)) [0..<n]"

lemma length_be_bytes [simp]: "length (be_bytes n v) = n"
  by (simp add: be_bytes_def)

text \<open>The head of an item (RFC 7049, 2.1): the major type and the shortest form of the number.\<close>

definition cbor_head :: "u8 \<Rightarrow> u64 \<Rightarrow> u8 list" where
  "cbor_head mt n =
     (if n < 24 then [mt + ucast n]
      else if n < 2 ^ 8 then (mt + 24) # be_bytes 1 n
      else if n < 2 ^ 16 then (mt + 25) # be_bytes 2 n
      else if n < 2 ^ 32 then (mt + 26) # be_bytes 4 n
      else (mt + 27) # be_bytes 8 n)"

lemma length_cbor_head: "1 \<le> length (cbor_head mt n)" "length (cbor_head mt n) \<le> 9"
  by (simp_all add: cbor_head_def)

datatype cbor_item =
    Item_unsigned u64
  | Item_negative u64  \<comment> \<open>the number \<open>-1 - n\<close>\<close>
  | Item_bytes "u8 list"
  | Item_text "u8 list"
  | Item_array "cbor_item list"
  | Item_tag u64 cbor_item
  | Item_simple u8
  | Item_double u64    \<comment> \<open>the bits of the IEEE 754 number\<close>

fun cbor_bytes :: "cbor_item \<Rightarrow> u8 list" where
  "cbor_bytes (Item_unsigned n) = cbor_head 0x00 n"
| "cbor_bytes (Item_negative n) = cbor_head 0x20 n"
| "cbor_bytes (Item_bytes bs) = cbor_head 0x40 (of_nat (length bs)) @ bs"
| "cbor_bytes (Item_text bs) = cbor_head 0x60 (of_nat (length bs)) @ bs"
| "cbor_bytes (Item_array is) = cbor_head 0x80 (of_nat (length is)) @ concat (map cbor_bytes is)"
| "cbor_bytes (Item_tag t i) = cbor_head 0xC0 t @ cbor_bytes i"
| "cbor_bytes (Item_simple v) = cbor_head 0xE0 (ucast v)"
| "cbor_bytes (Item_double d) = 0xFB # be_bytes 8 d"

text \<open>A signed number of 64 bits as an item.\<close>

definition int_item :: "u64 \<Rightarrow> cbor_item" where
  "int_item w = (if 0 \<le> sint w then Item_unsigned w else Item_negative (NOT w))"

lemma cbor_bytes_nonempty: "1 \<le> length (cbor_bytes i)"
  using length_cbor_head(1) by (cases i) (auto intro: trans_le_add1)

end
