(* ===== verification/Cbor_Encoder.thy ===== *)
theory Cbor_Encoder
  imports Cbor_Base
begin

text \<open>
  The encoder of tinycbor (\<^verbatim>\<open>tinycbor/src/cborencoder.c\<close>). An encoder points into an output buffer
  that the encoders of nested containers share; the buffer is passed along as the list of its bytes.
  \<open>ce_data\<close> is the union of the source: the offset of the next byte, or the number of bytes missing
  once the buffer was too small (\<open>ce_end\<close> is then \<open>None\<close>).
\<close>

section \<open>The encoder\<close>

record cbor_encoder =
  ce_data :: nat
  ce_end :: "nat option"
  ce_remaining :: u64
  ce_flags :: u8

type_synonym enc_result = "CborError \<times> cbor_encoder \<times> u8 list"

definition cbor_encoder_init :: "nat \<Rightarrow> u8 \<Rightarrow> cbor_encoder" where
  "cbor_encoder_init sz flags = \<lparr>ce_data = 0, ce_end = Some sz, ce_remaining = 2, ce_flags = flags\<rparr>"

definition put16 :: "u16 \<Rightarrow> u8 list" where
  "put16 v = be_bytes 2 (ucast v)"

definition put32 :: "u32 \<Rightarrow> u8 list" where
  "put32 v = be_bytes 4 (ucast v)"

definition put64 :: "u64 \<Rightarrow> u8 list" where
  "put64 v = be_bytes 8 v"

definition isOomError :: "CborError \<Rightarrow> bool" where
  "isOomError err \<longleftrightarrow> True"

definition would_overflow :: "cbor_encoder \<Rightarrow> nat \<Rightarrow> bool" where
  "would_overflow e len \<longleftrightarrow>
     (let remaining = (case ce_end e of None \<Rightarrow> 0 - int (ce_data e) | Some en \<Rightarrow> int en - int (ce_data e)) in
      remaining - int len < 0)"

definition advance_ptr :: "cbor_encoder \<Rightarrow> nat \<Rightarrow> cbor_encoder" where
  "advance_ptr e n = e\<lparr>ce_data := ce_data e + n\<rparr>"

definition append_to_buffer :: "cbor_encoder \<Rightarrow> u8 list \<Rightarrow> u8 list \<Rightarrow> enc_result" where
  "append_to_buffer e mem dat =
     (if would_overflow e (length dat) then
        (case ce_end e of
           Some en \<Rightarrow> (CborErrorOutOfMemory,
             advance_ptr (e\<lparr>ce_end := None, ce_data := 0\<rparr>) (length dat - (en - ce_data e)), mem)
         | None \<Rightarrow> (CborErrorOutOfMemory, advance_ptr e (length dat), mem))
      else (CborNoError, e\<lparr>ce_data := ce_data e + length dat\<rparr>,
        take (ce_data e) mem @ dat @ drop (ce_data e + length dat) mem))"

definition append_byte_to_buffer :: "cbor_encoder \<Rightarrow> u8 list \<Rightarrow> u8 \<Rightarrow> enc_result" where
  "append_byte_to_buffer e mem byte = append_to_buffer e mem [byte]"

text \<open>
  The number is stored big-endian at the end of a buffer of 16 bytes; the head is written in front of
  its significant bytes, or added to the last byte if the number is small.
\<close>

definition number_more :: "u64 \<Rightarrow> nat" where
  "number_more ui = (if ui > 0xFF then 1 else 0) + (if ui > 0xFFFF then 1 else 0) + (if ui > 0xFFFFFFFF then 1 else 0)"

definition number_buf :: "u64 \<Rightarrow> u8 \<Rightarrow> u8 list" where
  "number_buf ui shiftedMajorType =
     (let buf = replicate 8 0 @ put64 ui; bufstart = 15 in
      if ui < of_nat Value8Bit then drop bufstart (buf[bufstart := buf ! bufstart + shiftedMajorType])
      else
        let more = number_more ui; bufstart = bufstart - 2 ^ more in
        drop bufstart (buf[bufstart := shiftedMajorType + of_nat Value8Bit + of_nat more]))"

definition encode_number_no_update :: "cbor_encoder \<Rightarrow> u8 list \<Rightarrow> u64 \<Rightarrow> u8 \<Rightarrow> enc_result" where
  "encode_number_no_update e mem ui shiftedMajorType = append_to_buffer e mem (number_buf ui shiftedMajorType)"

definition saturated_decrement :: "cbor_encoder \<Rightarrow> cbor_encoder" where
  "saturated_decrement e = (if ce_remaining e \<noteq> 0 then e\<lparr>ce_remaining := ce_remaining e - 1\<rparr> else e)"

definition encode_number :: "cbor_encoder \<Rightarrow> u8 list \<Rightarrow> u64 \<Rightarrow> u8 \<Rightarrow> enc_result" where
  "encode_number e mem ui shiftedMajorType = encode_number_no_update (saturated_decrement e) mem ui shiftedMajorType"

section \<open>Values\<close>

definition cbor_encode_uint :: "u64 \<Rightarrow> cbor_encoder \<Rightarrow> u8 list \<Rightarrow> enc_result" where
  "cbor_encode_uint val e mem = encode_number e mem val (major UnsignedIntegerType)"

definition cbor_encode_negative_int :: "u64 \<Rightarrow> cbor_encoder \<Rightarrow> u8 list \<Rightarrow> enc_result" where
  "cbor_encode_negative_int absolute_value e mem = encode_number e mem (absolute_value - 1) (major NegativeIntegerType)"

text \<open>\<open>value >> 63\<close> is an arithmetic shift of an \<open>int64_t\<close>.\<close>

definition cbor_encode_int :: "u64 \<Rightarrow> cbor_encoder \<Rightarrow> u8 list \<Rightarrow> enc_result" where
  "cbor_encode_int val e mem =
     (let ui = signed_drop_bit 63 val; majorType = ucast ui AND 0x20; ui = ui XOR val in
      encode_number e mem ui majorType)"

definition cbor_encode_simple_value :: "u8 \<Rightarrow> cbor_encoder \<Rightarrow> u8 list \<Rightarrow> enc_result" where
  "cbor_encode_simple_value val e mem =
     (if val \<ge> HalfPrecisionFloat \<and> val \<le> Break then (CborErrorIllegalSimpleType, e, mem)
      else encode_number e mem (ucast val) (major SimpleTypesType))"

text \<open>
  Floating-point numbers, given as the bits of the value. The assertion of the source
  (\<open>cbor_assert\<close>) is about the constant types of the three callers.
\<close>

definition cbor_encode_floating_point :: "CborType \<Rightarrow> u64 \<Rightarrow> cbor_encoder \<Rightarrow> u8 list \<Rightarrow> enc_result" where
  "cbor_encode_floating_point fpType val e mem =
     (let fsize = 2 * 2 ^ unat (CborType_number fpType - CborType_number CborHalfFloatType) :: nat;
          buf = (if fsize = 8 then put64 val else if fsize = 4 then put32 (ucast val) else put16 (ucast val)) in
      append_to_buffer (saturated_decrement e) mem (take (fsize + 1) (CborType_number fpType # buf)))"

definition cbor_encode_tag :: "u64 \<Rightarrow> cbor_encoder \<Rightarrow> u8 list \<Rightarrow> enc_result" where
  "cbor_encode_tag tag e mem = encode_number_no_update e mem tag (major TagType)"

definition encode_string :: "cbor_encoder \<Rightarrow> u8 list \<Rightarrow> u8 \<Rightarrow> u8 list \<Rightarrow> enc_result" where
  "encode_string e mem shiftedMajorType str =
     (let (err, e, mem) = encode_number e mem (of_nat (length str)) shiftedMajorType in
      if err \<noteq> CborNoError \<and> \<not> isOomError err then (err, e, mem) else append_to_buffer e mem str)"

definition cbor_encode_byte_string :: "u8 list \<Rightarrow> cbor_encoder \<Rightarrow> u8 list \<Rightarrow> enc_result" where
  "cbor_encode_byte_string str e mem = encode_string e mem (major ByteStringType) str"

definition cbor_encode_text_string :: "u8 list \<Rightarrow> cbor_encoder \<Rightarrow> u8 list \<Rightarrow> enc_result" where
  "cbor_encode_text_string str e mem = encode_string e mem (major TextStringType) str"

text \<open>The inline functions of the header.\<close>

definition cbor_encode_text_stringz :: "u8 list \<Rightarrow> cbor_encoder \<Rightarrow> u8 list \<Rightarrow> enc_result" where
  "cbor_encode_text_stringz str e mem = cbor_encode_text_string (takeWhile (\<lambda>c. c \<noteq> 0) str) e mem"

definition cbor_encode_boolean :: "bool \<Rightarrow> cbor_encoder \<Rightarrow> u8 list \<Rightarrow> enc_result" where
  "cbor_encode_boolean val e mem =
     cbor_encode_simple_value ((if val then 1 else 0) - 1 + (CborType_number CborBooleanType AND 0x1F)) e mem"

definition cbor_encode_null :: "cbor_encoder \<Rightarrow> u8 list \<Rightarrow> enc_result" where
  "cbor_encode_null e mem = cbor_encode_simple_value (CborType_number CborNullType AND 0x1F) e mem"

definition cbor_encode_undefined :: "cbor_encoder \<Rightarrow> u8 list \<Rightarrow> enc_result" where
  "cbor_encode_undefined e mem = cbor_encode_simple_value (CborType_number CborUndefinedType AND 0x1F) e mem"

definition cbor_encode_half_float :: "u16 \<Rightarrow> cbor_encoder \<Rightarrow> u8 list \<Rightarrow> enc_result" where
  "cbor_encode_half_float val e mem = cbor_encode_floating_point CborHalfFloatType (ucast val) e mem"

definition cbor_encode_float :: "u32 \<Rightarrow> cbor_encoder \<Rightarrow> u8 list \<Rightarrow> enc_result" where
  "cbor_encode_float val e mem = cbor_encode_floating_point CborFloatType (ucast val) e mem"

definition cbor_encode_double :: "u64 \<Rightarrow> cbor_encoder \<Rightarrow> u8 list \<Rightarrow> enc_result" where
  "cbor_encode_double val e mem = cbor_encode_floating_point CborDoubleType val e mem"

section \<open>Containers\<close>

text \<open>The result has the encoder after the call, the encoder of the container, and the buffer.\<close>

definition create_container ::
    "cbor_encoder \<Rightarrow> u8 list \<Rightarrow> u64 \<Rightarrow> u8 \<Rightarrow> CborError \<times> cbor_encoder \<times> cbor_encoder \<times> u8 list" where
  "create_container e mem len shiftedMajorType =
     (let container = \<lparr>ce_data = ce_data e, ce_end = ce_end e, ce_remaining = len + 1,
            ce_flags = shiftedMajorType AND CborIteratorFlag_ContainerIsMap\<rparr>;
          e = saturated_decrement e;
          (err, container, mem) =
            (if len = CborIndefiniteLength
             then append_byte_to_buffer (container\<lparr>ce_flags := ce_flags container OR CborIteratorFlag_UnknownLength\<rparr>) mem
               (shiftedMajorType + of_nat IndefiniteLength)
             else
               encode_number_no_update
                 (if shiftedMajorType AND CborIteratorFlag_ContainerIsMap \<noteq> 0
                  then container\<lparr>ce_remaining := ce_remaining container + len\<rparr> else container)
                 mem len shiftedMajorType) in
      (err, e, container, mem))"

definition cbor_encoder_create_array ::
    "cbor_encoder \<Rightarrow> u8 list \<Rightarrow> u64 \<Rightarrow> CborError \<times> cbor_encoder \<times> cbor_encoder \<times> u8 list" where
  "cbor_encoder_create_array e mem len = create_container e mem len (major ArrayType)"

text \<open>When the length is refused, the container's encoder is left as it was (\<open>c0\<close>).\<close>

definition cbor_encoder_create_map ::
    "cbor_encoder \<Rightarrow> cbor_encoder \<Rightarrow> u8 list \<Rightarrow> u64 \<Rightarrow> CborError \<times> cbor_encoder \<times> cbor_encoder \<times> u8 list" where
  "cbor_encoder_create_map e c0 mem len =
     (if len \<noteq> CborIndefiniteLength \<and> len > (- 1) div 2 then (CborErrorDataTooLarge, e, c0, mem)
      else create_container e mem len (major MapType))"

definition cbor_encoder_close_container :: "cbor_encoder \<Rightarrow> cbor_encoder \<Rightarrow> u8 list \<Rightarrow> enc_result" where
  "cbor_encoder_close_container e container mem =
     (let e = e\<lparr>ce_data := ce_data container, ce_end := ce_end container\<rparr> in
      if ce_flags container AND CborIteratorFlag_UnknownLength \<noteq> 0 then append_byte_to_buffer e mem BreakByte
      else if ce_remaining container \<noteq> 1
      then (if ce_remaining container = 0 then CborErrorTooManyItems else CborErrorTooFewItems, e, mem)
      else if ce_end e = None then (CborErrorOutOfMemory, e, mem)
      else (CborNoError, e, mem))"

definition cbor_encoder_close_container_checked :: "cbor_encoder \<Rightarrow> cbor_encoder \<Rightarrow> u8 list \<Rightarrow> enc_result" where
  "cbor_encoder_close_container_checked e container mem = cbor_encoder_close_container e container mem"

definition cbor_encoder_get_buffer_size :: "cbor_encoder \<Rightarrow> nat" where
  "cbor_encoder_get_buffer_size e = ce_data e"

definition cbor_encoder_get_extra_bytes_needed :: "cbor_encoder \<Rightarrow> nat" where
  "cbor_encoder_get_extra_bytes_needed e = (case ce_end e of Some _ \<Rightarrow> 0 | None \<Rightarrow> ce_data e)"

section \<open>Heads\<close>

lemma number_ranges:
  fixes ui :: u64
  shows "\<not> ui > 0xFF \<longleftrightarrow> ui < 2 ^ 8" "\<not> ui > 0xFFFF \<longleftrightarrow> ui < 2 ^ 16" "\<not> ui > 0xFFFFFFFF \<longleftrightarrow> ui < 2 ^ 32"
  by (simp_all add: word_less_nat_alt, linarith+)

lemma drop_be_bytes: "n \<le> m \<Longrightarrow> drop (m - n) (be_bytes m v) = be_bytes n v"
  by (rule nth_equalityI) (auto simp: be_bytes_def)

lemma drop_list_update: "k < length xs \<Longrightarrow> drop k (xs[k := x]) = x # drop (Suc k) xs"
  using Cons_nth_drop_Suc [of k "xs[k := x]"] by simp

lemma number_buf_head: "number_buf ui mt = cbor_head mt ui"
proof -
  define buf where "buf = replicate 8 0 @ put64 ui"
  have len: "length buf = 16" by (simp add: buf_def put64_def)
  have tail: "drop (16 - n) buf = be_bytes n ui" if "n \<le> 8" for n
    using that drop_be_bytes [of n 8 ui] by (simp add: buf_def put64_def)
  have head: "drop (15 - n) (buf[15 - n := x]) = x # be_bytes n ui" if "n \<le> 8" for n x
    using drop_list_update [of "15 - n" buf x] tail [OF that] that len by (simp add: Suc_diff_le [symmetric])
  have one: "buf ! 15 = ucast ui"
    using tail [of 1] Cons_nth_drop_Suc [of 15 buf] len by (simp add: be_bytes_def)
  have more: "number_more ui = (if ui < 2 ^ 8 then 0 else if ui < 2 ^ 16 then 1 else if ui < 2 ^ 32 then 2 else 3)"
    unfolding number_more_def number_ranges [symmetric] by (auto simp: word_less_nat_alt)
  have small: "drop 15 (buf[15 := x]) = [x]" for x using head [of 0] by (simp add: be_bytes_def)
  show ?thesis
    unfolding number_buf_def cbor_head_def more buf_def [symmetric] Let_def one small Value8Bit_def
    using head [of 1] head [of 2] head [of 4] head [of 8] by (simp add: add.commute)
qed

section \<open>What the operations write\<close>

text \<open>The encoder \<open>e\<close> has written \<open>out\<close> into its buffer \<open>mem\<close> of \<open>sz\<close> bytes.\<close>

definition enc_at :: "nat \<Rightarrow> u8 list \<Rightarrow> cbor_encoder \<Rightarrow> u8 list \<Rightarrow> bool" where
  "enc_at sz out e mem \<longleftrightarrow> ce_end e = Some sz \<and> ce_data e = length out \<and> length mem = sz \<and> length out \<le> sz \<and>
     take (length out) mem = out"

text \<open>
  The operation \<open>op\<close> writes one item with the bytes \<open>bs\<close>: it succeeds exactly if they fit, and counts
  the item; otherwise it reports that the memory is out.
\<close>

definition encodes :: "(cbor_encoder \<Rightarrow> u8 list \<Rightarrow> enc_result) \<Rightarrow> u8 list \<Rightarrow> bool" where
  "encodes op bs \<longleftrightarrow> (\<forall>sz out e mem. enc_at sz out e mem \<longrightarrow>
     (if length out + length bs \<le> sz
      then \<exists>e' mem'. op e mem = (CborNoError, e', mem') \<and> enc_at sz (out @ bs) e' mem' \<and>
        ce_remaining e' = ce_remaining (saturated_decrement e) \<and> ce_flags e' = ce_flags e
      else \<exists>e' mem'. op e mem = (CborErrorOutOfMemory, e', mem')))"

lemma saturated_decrement_simps [simp]:
  "ce_data (saturated_decrement e) = ce_data e" "ce_end (saturated_decrement e) = ce_end e"
  "ce_flags (saturated_decrement e) = ce_flags e"
  "ce_remaining (saturated_decrement e) = (if ce_remaining e \<noteq> 0 then ce_remaining e - 1 else 0)"
  by (simp_all add: saturated_decrement_def)

lemma enc_at_decrement [simp]: "enc_at sz out (saturated_decrement e) mem = enc_at sz out e mem"
  by (simp add: enc_at_def)

lemma append_fits:
  assumes "enc_at sz out e mem" and "length out + length bs \<le> sz"
  shows "append_to_buffer e mem bs = (CborNoError, e\<lparr>ce_data := length out + length bs\<rparr>,
      out @ bs @ drop (length out + length bs) mem)"
    and "enc_at sz (out @ bs) (e\<lparr>ce_data := length out + length bs\<rparr>) (out @ bs @ drop (length out + length bs) mem)"
  using assms by (simp_all add: append_to_buffer_def would_overflow_def enc_at_def)

lemma append_full:
  assumes "enc_at sz out e mem" and "\<not> length out + length bs \<le> sz"
  shows "\<exists>e'. append_to_buffer e mem bs = (CborErrorOutOfMemory, e', mem) \<and> ce_end e' = None"
  using assms by (simp add: append_to_buffer_def would_overflow_def enc_at_def advance_ptr_def)

lemma append_out_of_memory:
  "ce_end e = None \<Longrightarrow> ce_data e > 0 \<or> bs \<noteq> [] \<Longrightarrow> \<exists>e'. append_to_buffer e mem bs = (CborErrorOutOfMemory, e', mem)"
  by (cases bs) (auto simp: append_to_buffer_def would_overflow_def advance_ptr_def Let_def)

lemma encodes_append: "encodes (\<lambda>e mem. append_to_buffer (saturated_decrement e) mem bs) bs"
  unfolding encodes_def
proof (intro allI impI)
  fix sz out e mem
  assume "enc_at sz out e mem"
  then have a: "enc_at sz out (saturated_decrement e) mem" by simp
  show "if length out + length bs \<le> sz
      then \<exists>e' mem'. append_to_buffer (saturated_decrement e) mem bs = (CborNoError, e', mem') \<and> enc_at sz (out @ bs) e' mem' \<and>
        ce_remaining e' = ce_remaining (saturated_decrement e) \<and> ce_flags e' = ce_flags e
      else \<exists>e' mem'. append_to_buffer (saturated_decrement e) mem bs = (CborErrorOutOfMemory, e', mem')"
  proof (cases "length out + length bs \<le> sz")
    case True
    then show ?thesis using append_fits [OF a True] by simp
  next
    case False
    then show ?thesis using append_full [OF a False] by auto
  qed
qed

lemma encode_number_head: "encode_number e mem ui mt = append_to_buffer (saturated_decrement e) mem (cbor_head mt ui)"
  by (simp add: encode_number_def encode_number_no_update_def number_buf_head)

lemma encodes_number: "encodes (\<lambda>e mem. encode_number e mem ui mt) (cbor_head mt ui)"
  unfolding encode_number_head by (rule encodes_append)

text \<open>A string is the head and the bytes, in two steps.\<close>

lemma encodes_string: "encodes (\<lambda>e mem. encode_string e mem mt str) (cbor_head mt (of_nat (length str)) @ str)"
  unfolding encodes_def
proof (intro allI impI)
  fix sz out e mem
  let ?hd = "cbor_head mt (of_nat (length str))"
  assume a0: "enc_at sz out e mem"
  then have a: "enc_at sz out (saturated_decrement e) mem" by simp
  show "if length out + length (?hd @ str) \<le> sz
      then \<exists>e' mem'. encode_string e mem mt str = (CborNoError, e', mem') \<and> enc_at sz (out @ ?hd @ str) e' mem' \<and>
        ce_remaining e' = ce_remaining (saturated_decrement e) \<and> ce_flags e' = ce_flags e
      else \<exists>e' mem'. encode_string e mem mt str = (CborErrorOutOfMemory, e', mem')"
  proof (cases "length out + length ?hd \<le> sz")
    case True
    define e1 m1 where "e1 = (saturated_decrement e)\<lparr>ce_data := length out + length ?hd\<rparr>"
      and "m1 = out @ ?hd @ drop (length out + length ?hd) mem"
    have 1: "encode_string e mem mt str = append_to_buffer e1 m1 str"
      using append_fits(1) [OF a True] by (simp add: encode_string_def encode_number_head e1_def m1_def)
    have 2: "enc_at sz (out @ ?hd) e1 m1" using append_fits(2) [OF a True] by (simp add: e1_def m1_def)
    show ?thesis
    proof (cases "length (out @ ?hd) + length str \<le> sz")
      case fit: True
      then show ?thesis using append_fits [OF 2 fit] 1 by (simp add: e1_def)
    next
      case False
      then show ?thesis using append_full [OF 2 False] 1 by auto
    qed
  next
    case False
    then obtain e1 where e1: "append_to_buffer (saturated_decrement e) mem ?hd = (CborErrorOutOfMemory, e1, mem)" "ce_end e1 = None"
      using append_full [OF a False] by blast
    have "ce_data e1 > 0"
      using e1(1) False a by (auto simp: append_to_buffer_def would_overflow_def enc_at_def advance_ptr_def split: if_splits)
    then show ?thesis
      using e1 append_out_of_memory [OF e1(2), of str mem] False
      by (auto simp: encode_string_def encode_number_head isOomError_def)
  qed
qed

named_theorems encodes_intros "the bytes that the operations of the encoder write"

lemma encodes_uint [encodes_intros]: "encodes (cbor_encode_uint n) (cbor_bytes (Item_unsigned n))"
  unfolding cbor_encode_uint_def [abs_def] using encodes_number [of n 0] by simp

lemma encodes_negative_int: "encodes (cbor_encode_negative_int n) (cbor_bytes (Item_negative (n - 1)))"
  unfolding cbor_encode_negative_int_def [abs_def] using encodes_number [of "n - 1" "0x20"] by simp

lemma sign_word:
  fixes w :: u64
  shows "signed_drop_bit 63 w = (if 0 \<le> sint w then 0 else - 1)"
proof -
  have "bit w 63 \<longleftrightarrow> sint w < 0" using bit_last_iff [of w] by simp
  then show ?thesis by (intro bit_word_eqI) (auto simp: bit_signed_drop_bit_iff not_le min_def)
qed

lemma encodes_int [encodes_intros]: "encodes (cbor_encode_int w) (cbor_bytes (int_item w))"
proof -
  have mt: "(ucast (- 1 :: u64) :: u8) AND 0x20 = 0x20" by (rule bit_word_eqI) (auto simp: bit_simps)
  have "cbor_encode_int w = (\<lambda>e mem. encode_number e mem (if 0 \<le> sint w then w else NOT w) (if 0 \<le> sint w then 0 else 0x20))"
    by (intro ext) (simp add: cbor_encode_int_def sign_word Let_def mt)
  then show ?thesis using encodes_number [of w 0] encodes_number [of "NOT w" "0x20"] by (simp add: int_item_def)
qed

lemma encodes_simple:
  assumes "\<not> (25 \<le> v \<and> v \<le> 31)"
  shows "encodes (cbor_encode_simple_value v) (cbor_bytes (Item_simple v))"
proof -
  have "cbor_encode_simple_value v = (\<lambda>e mem. encode_number e mem (ucast v) 0xE0)"
    using assms by (intro ext) (auto simp: cbor_encode_simple_value_def HalfPrecisionFloat_def Break_def)
  then show ?thesis using encodes_number [of "ucast v" "0xE0"] by simp
qed

lemma encodes_null [encodes_intros]: "encodes cbor_encode_null (cbor_bytes (Item_simple 22))"
  using encodes_simple [of 22] by (simp add: cbor_encode_null_def [abs_def])

lemma encodes_boolean [encodes_intros]: "encodes (cbor_encode_boolean b) (cbor_bytes (Item_simple (if b then 21 else 20)))"
  using encodes_simple [of 21] encodes_simple [of 20] by (simp add: cbor_encode_boolean_def [abs_def])

lemma encodes_double [encodes_intros]: "encodes (cbor_encode_double d) (cbor_bytes (Item_double d))"
proof -
  have "cbor_encode_double d = (\<lambda>e mem. append_to_buffer (saturated_decrement e) mem (0xFB # be_bytes 8 d))"
    by (intro ext) (simp add: cbor_encode_double_def cbor_encode_floating_point_def put64_def Let_def)
  then show ?thesis using encodes_append [of "0xFB # be_bytes 8 d"] by simp
qed

lemma encodes_byte_string [encodes_intros]: "encodes (cbor_encode_byte_string str) (cbor_bytes (Item_bytes str))"
  unfolding cbor_encode_byte_string_def [abs_def] using encodes_string [of "0x40" str] by simp

lemma encodes_text_stringz [encodes_intros]:
  "encodes (cbor_encode_text_stringz str) (cbor_bytes (Item_text (takeWhile (\<lambda>c. c \<noteq> 0) str)))"
  unfolding cbor_encode_text_stringz_def [abs_def] cbor_encode_text_string_def
  using encodes_string [of "0x60" "takeWhile (\<lambda>c. c \<noteq> 0) str"] by simp

section \<open>Arrays\<close>

lemma create_array_at:
  assumes "enc_at sz out e mem" and "len \<noteq> CborIndefiniteLength"
  shows "if length out + length (cbor_head 0x80 len) \<le> sz
    then \<exists>c mem'. cbor_encoder_create_array e mem len = (CborNoError, saturated_decrement e, c, mem') \<and>
      enc_at sz (out @ cbor_head 0x80 len) c mem' \<and> ce_remaining c = len + 1 \<and> ce_flags c = 0
    else \<exists>e' c mem'. cbor_encoder_create_array e mem len = (CborErrorOutOfMemory, e', c, mem')"
proof -
  define c0 where "c0 = \<lparr>ce_data = ce_data e, ce_end = ce_end e, ce_remaining = len + 1, ce_flags = 0\<rparr>"
  have c0: "enc_at sz out c0 mem" "ce_remaining c0 = len + 1" "ce_flags c0 = 0"
    using assms(1) by (simp_all add: c0_def enc_at_def)
  have "create_container e mem len 0x80 = (let (err, c, mem) = append_to_buffer c0 mem (cbor_head 0x80 len) in (err, saturated_decrement e, c, mem))"
    using assms(2) by (simp add: create_container_def Let_def encode_number_no_update_def number_buf_head c0_def CborIteratorFlag_ContainerIsMap_def)
  then have c: "cbor_encoder_create_array e mem len
      = (let (err, c, mem) = append_to_buffer c0 mem (cbor_head 0x80 len) in (err, saturated_decrement e, c, mem))"
    by (simp add: cbor_encoder_create_array_def)
  show ?thesis
  proof (cases "length out + length (cbor_head 0x80 len) \<le> sz")
    case True
    then show ?thesis using append_fits [OF c0(1) True] c c0(2,3) by simp
  next
    case False
    then show ?thesis using append_full [OF c0(1) False] c by auto
  qed
qed

lemma close_array_at:
  assumes "enc_at sz out c mem" and "ce_flags c = 0"
  shows "cbor_encoder_close_container_checked e c mem =
      (if ce_remaining c = 1 then CborNoError else if ce_remaining c = 0 then CborErrorTooManyItems else CborErrorTooFewItems,
       e\<lparr>ce_data := ce_data c, ce_end := ce_end c\<rparr>, mem)"
    and "enc_at sz out (e\<lparr>ce_data := ce_data c, ce_end := ce_end c\<rparr>) mem"
  using assms by (simp_all add: cbor_encoder_close_container_checked_def cbor_encoder_close_container_def enc_at_def)

section \<open>Properties of the encoder\<close>


end
