(* ===== verification/Output_Cbor.thy ===== *)
theory Output_Cbor
  imports Output Dns_Columns Cbor_Encoder
begin

text \<open>
  \<^verbatim>\<open>src/output_cbor.c\<close>: a record is a CBOR array with one item for each selected column, made by the
  encoder of tinycbor in a buffer of 4096 bytes; the first record of a file holds the names of the
  columns. Every error of the encoder ends the program.
\<close>

section \<open>Time as a double\<close>

text \<open>
  The arithmetic of \<open>(double)(pkt->ts) / 1000000.0\<close>: IEEE 754 binary64, rounding to nearest, ties to
  even. A finite double is a significand below \<open>2 ^ 53\<close> and an exponent; the values here are in the
  normal range or zero.
\<close>

fun bit_length :: "nat \<Rightarrow> nat" where
  "bit_length n = (if n = 0 then 0 else Suc (bit_length (n div 2)))"

declare bit_length.simps [simp del]

definition round_half_even :: "nat \<Rightarrow> nat \<Rightarrow> nat" where
  "round_half_even n d =
     (let q = n div d; r = n mod d in if 2 * r < d \<or> (2 * r = d \<and> even q) then q else q + 1)"

text \<open>The double nearest to \<open>n / d\<close>.\<close>

definition round_double :: "nat \<Rightarrow> nat \<Rightarrow> nat \<times> int" where
  "round_double n d =
     (if n = 0 then (0, 0)
      else
        let k = int (bit_length n) - int (bit_length d) - 53;
            n = n * 2 ^ nat (- k); d = d * 2 ^ nat k;
            (k, d) = (if n < 2 ^ 53 * d then (k, d) else (k + 1, 2 * d));
            m = round_half_even n d in
        if m = 2 ^ 53 then (2 ^ 52, k + 1) else (m, k))"

definition double_bits :: "bool \<Rightarrow> nat \<times> int \<Rightarrow> u64" where
  "double_bits neg x =
     (case x of (m, k) \<Rightarrow>
        (if neg then push_bit 63 1 else 0) OR
        (if m = 0 then 0 else push_bit 52 (word_of_int (k + 1075)) OR of_nat (m - 2 ^ 52)))"

definition time_double :: "int \<Rightarrow> nat \<times> int" where
  "time_double t =
     (let (m, k) = round_double (nat \<bar>t\<bar>) 1 in round_double (m * 2 ^ nat k) (1000000 * 2 ^ nat (- k)))"

definition time_bits :: "int \<Rightarrow> u64" where
  "time_bits t = double_bits (t < 0) (time_double t)"

section \<open>Calls of the encoder\<close>

text \<open>\<open>CERR\<close>: the program dies on every error.\<close>

type_synonym enc_state = "cbor_encoder \<times> u8 list"

definition cbor_died :: "CborError \<Rightarrow> stop" where
  "cbor_died err = Died (''CBOR error: '' @ cbor_error_string err)"

definition cerr :: "enc_result \<Rightarrow> enc_state res" where
  "cerr r = (case r of (err, e, mem) \<Rightarrow> if err \<noteq> CborNoError then Inl (cbor_died err) else Inr (e, mem))"

definition cenc :: "(cbor_encoder \<Rightarrow> u8 list \<Rightarrow> enc_result) \<Rightarrow> enc_state \<Rightarrow> enc_state res" where
  "cenc op st = cerr (op (fst st) (snd st))"

text \<open>An array: its head, its items, its end.\<close>

definition cbor_array :: "u64 \<Rightarrow> (enc_state \<Rightarrow> enc_state res) \<Rightarrow> enc_state \<Rightarrow> enc_state res" where
  "cbor_array len items st =
     (case cbor_encoder_create_array (fst st) (snd st) len of
        (err, e, c, mem) \<Rightarrow>
          if err \<noteq> CborNoError then Inl (cbor_died err)
          else bindr (items (c, mem)) (\<lambda>(c, mem). cerr (cbor_encoder_close_container_checked e c mem)))"

text \<open>\<open>CONDIF\<close> for a packet: null if the value that the column is about does not exist.\<close>

definition condif :: "'a option \<Rightarrow> ('a \<Rightarrow> enc_state \<Rightarrow> enc_state res) \<Rightarrow> enc_state \<Rightarrow> enc_state res" where
  "condif x f = (case x of None \<Rightarrow> cenc cbor_encode_null | Some y \<Rightarrow> f y)"

definition cint :: "u64 \<Rightarrow> enc_state \<Rightarrow> enc_state res" where
  "cint w = cenc (cbor_encode_int w)"

definition cbor_flag :: "(knot_pkt \<Rightarrow> bool) \<Rightarrow> dns_packet option \<Rightarrow> enc_state \<Rightarrow> enc_state res" where
  "cbor_flag get pk = condif pk (\<lambda>q. cenc (cbor_encode_boolean (get (knot_packet q))))"

definition cbor_count :: "nat \<Rightarrow> dns_packet option \<Rightarrow> enc_state \<Rightarrow> enc_state res" where
  "cbor_count off resp = condif resp (\<lambda>r st. bindr (load_be16 (dns_data r) off) (\<lambda>n. cint (ucast n) st))"

text \<open>\<open>WRITE_UNDERSTOOD_LIST\<close>: the loop from entry \<open>i\<close> with \<open>n\<close> entries left.\<close>

fun cbor_entries :: "u8 list \<Rightarrow> nat \<Rightarrow> nat \<Rightarrow> enc_state \<Rightarrow> enc_state res" where
  "cbor_entries opt i 0 st = Inr st"
| "cbor_entries opt i (Suc n) st =
     bindr (bindr (understood_entry opt i) (\<lambda>v. cint (ucast v) st)) (\<lambda>st. cbor_entries opt (Suc i) n st)"

text \<open>\<open>COND_OPT_RR\<close>\<close>

definition cond_opt_rr ::
    "nat \<Rightarrow> knot_opt_rr option \<Rightarrow> (u8 list \<Rightarrow> nat \<Rightarrow> enc_state \<Rightarrow> enc_state res) \<Rightarrow> enc_state \<Rightarrow> enc_state res" where
  "cond_opt_rr code rr f = condif rr (\<lambda>rr. condif (edns_option rr code) (\<lambda>opt st.
     bindr (knot_edns_opt_get_length opt) (\<lambda>len. f opt len st)))"

definition cbor_understood :: "nat \<Rightarrow> dns_packet \<Rightarrow> enc_state \<Rightarrow> enc_state res" where
  "cbor_understood code pkt = cond_opt_rr code (req_opt_rr pkt) (\<lambda>opt len. cbor_array (of_nat len) (cbor_entries opt 0 len))"

definition cbor_nsid :: "dns_packet option \<Rightarrow> enc_state \<Rightarrow> enc_state res" where
  "cbor_nsid resp = cond_opt_rr 3 (resp_opt_rr resp) (\<lambda>opt len st.
     if 4 + len \<le> length opt then cenc (cbor_encode_byte_string (take len (drop 4 opt))) st
     else Inl (Bad_pointer ''opt''))"

section \<open>Columns\<close>

text \<open>
  The item of a column for a packet: \<open>resp\<close> is \<open>DNS_PACKET_RESPONSE(pkt)\<close>, \<open>own\<close> the packet that
  \<open>pkt->response\<close> points to. The last two columns have the condition 0, that is, are always null.
\<close>

fun cbor_column ::
    "text_lib \<Rightarrow> dns_packet \<Rightarrow> dns_packet option \<Rightarrow> dns_packet option \<Rightarrow> dns_column \<Rightarrow> enc_state \<Rightarrow> enc_state res" where
  "cbor_column L pkt resp own col_time = cenc (cbor_encode_double (time_bits (ts pkt)))"
| "cbor_column L pkt resp own col_delay_us = condif own (\<lambda>r. cint (word_of_int (ts r - ts pkt)))"
| "cbor_column L pkt resp own col_req_dns_len = condif (DNS_PACKET_REQUEST pkt) (\<lambda>q. cint (dns_data_size_orig q))"
| "cbor_column L pkt resp own col_resp_dns_len = condif resp (\<lambda>r. cint (dns_data_size_orig r))"
| "cbor_column L pkt resp own col_req_net_len = condif (DNS_PACKET_REQUEST pkt) (\<lambda>q. cint (net_size q))"
| "cbor_column L pkt resp own col_resp_net_len = condif resp (\<lambda>r. cint (net_size r))"
| "cbor_column L pkt resp own col_client_addr =
     cenc (cbor_encode_text_stringz (inet_ntop L (DNS_PACKET_AF pkt) (DNS_PACKET_CLIENT_ADDR pkt)))"
| "cbor_column L pkt resp own col_client_port = cint (ucast (DNS_PACKET_CLIENT_PORT pkt))"
| "cbor_column L pkt resp own col_server_addr =
     cenc (cbor_encode_text_stringz (inet_ntop L (DNS_PACKET_AF pkt) (DNS_PACKET_SERVER_ADDR pkt)))"
| "cbor_column L pkt resp own col_server_port = cint (ucast (DNS_PACKET_SERVER_PORT pkt))"
| "cbor_column L pkt resp own col_net_proto = cint (ucast (net_protocol pkt))"
| "cbor_column L pkt resp own col_net_ipv =
     (if DNS_SOCKADDR_AF (src_addr pkt) = AF_INET then cint 4
      else if DNS_SOCKADDR_AF (src_addr pkt) = AF_INET6 then cint 6 else Inr)"
| "cbor_column L pkt resp own col_net_ttl = condif (if net_ttl pkt > 0 then Some pkt else None) (\<lambda>q. cint (ucast (net_ttl q)))"
| "cbor_column L pkt resp own col_req_udp_sum =
     condif (if net_protocol pkt = TRACE_IPPROTO_UDP then DNS_PACKET_REQUEST pkt else None) (\<lambda>q. cint (ucast (net_udp_sum q)))"
| "cbor_column L pkt resp own col_id = cint (ucast (wire_id (knot_packet pkt)))"
| "cbor_column L pkt resp own col_qtype = cint (ucast (knot_qtype (knot_packet pkt)))"
| "cbor_column L pkt resp own col_qclass = cint (ucast (knot_qclass (knot_packet pkt)))"
| "cbor_column L pkt resp own col_opcode = cint (ucast (wire_opcode (knot_packet pkt)))"
| "cbor_column L pkt resp own col_rcode = condif resp (\<lambda>r. cint (ucast (wire_rcode (knot_packet r))))"
| "cbor_column L pkt resp own col_resp_aa = cbor_flag wire_aa resp"
| "cbor_column L pkt resp own col_resp_tc = cbor_flag wire_tc resp"
| "cbor_column L pkt resp own col_req_rd = cbor_flag wire_rd (DNS_PACKET_REQUEST pkt)"
| "cbor_column L pkt resp own col_resp_ra = cbor_flag wire_ra resp"
| "cbor_column L pkt resp own col_req_z = cbor_flag wire_z (DNS_PACKET_REQUEST pkt)"
| "cbor_column L pkt resp own col_resp_ad = cbor_flag wire_ad resp"
| "cbor_column L pkt resp own col_req_cd = cbor_flag wire_cd (DNS_PACKET_REQUEST pkt)"
| "cbor_column L pkt resp own col_qname =
     condif (knot_dname_to_str L (knot_qname (knot_packet pkt))) (\<lambda>res. cenc (cbor_encode_text_stringz res))"
| "cbor_column L pkt resp own col_resp_ancount = cbor_count 6 resp"
| "cbor_column L pkt resp own col_resp_arcount = cbor_count 10 resp"
| "cbor_column L pkt resp own col_resp_nscount = cbor_count 8 resp"
| "cbor_column L pkt resp own col_req_edns_ver = condif (req_opt_rr pkt) (\<lambda>rr. cint (ucast (edns_version rr)))"
| "cbor_column L pkt resp own col_req_edns_udp = condif (req_opt_rr pkt) (\<lambda>rr. cint (ucast (edns_payload rr)))"
| "cbor_column L pkt resp own col_req_edns_do = condif (req_opt_rr pkt) (\<lambda>rr. cenc (cbor_encode_boolean (edns_do rr)))"
| "cbor_column L pkt resp own col_resp_edns_rcode = condif (resp_opt_rr resp) (\<lambda>rr. cint (ucast (edns_ext_rcode rr)))"
| "cbor_column L pkt resp own col_req_edns_ping = Inr"
| "cbor_column L pkt resp own col_req_edns_dau = cbor_understood 5 pkt"
| "cbor_column L pkt resp own col_req_edns_dhu = cbor_understood 6 pkt"
| "cbor_column L pkt resp own col_req_edns_n3u = cbor_understood 7 pkt"
| "cbor_column L pkt resp own col_resp_edns_nsid = cbor_nsid resp"
| "cbor_column L pkt resp own col_edns_client_subnet = cenc cbor_encode_null"
| "cbor_column L pkt resp own col_edns_other = cenc cbor_encode_null"

text \<open>The columns in the order of the source, which leaves \<open>req_edns_ping\<close> out.\<close>

definition cbor_columns :: "dns_column list" where
  "cbor_columns =
    [col_time, col_delay_us, col_req_dns_len, col_resp_dns_len, col_req_net_len, col_resp_net_len,
     col_client_addr, col_client_port, col_server_addr, col_server_port, col_net_proto, col_net_ipv, col_net_ttl,
     col_req_udp_sum, col_id, col_qtype, col_qclass, col_opcode, col_rcode,
     col_resp_aa, col_resp_tc, col_req_rd, col_resp_ra, col_req_z, col_resp_ad, col_req_cd,
     col_qname, col_resp_ancount, col_resp_arcount, col_resp_nscount,
     col_req_edns_ver, col_req_edns_udp, col_req_edns_do, col_resp_edns_rcode,
     col_req_edns_dau, col_req_edns_dhu, col_req_edns_n3u, col_resp_edns_nsid, col_edns_client_subnet, col_edns_other]"

fun cbor_row :: "(dns_column \<Rightarrow> enc_state \<Rightarrow> enc_state res) \<Rightarrow> u32 \<Rightarrow> dns_column list \<Rightarrow> enc_state \<Rightarrow> enc_state res" where
  "cbor_row body flds [] st = Inr st"
| "cbor_row body flds (c # cs) st =
     (if selects flds c then bindr (body c st) (\<lambda>st. cbor_row body flds cs st) else cbor_row body flds cs st)"

section \<open>Records\<close>

definition CBOR_BUF :: nat where
  "CBOR_BUF = 4096"

definition popcount :: "u32 \<Rightarrow> nat" where
  "popcount w = length (filter (bit w) [0..<32])"

definition cbor_noitems :: "u32 \<Rightarrow> nat" where
  "cbor_noitems flds = popcount flds + (if field_set flds dns_field_flags then 6 else 0) +
     (if field_set flds dns_field_rr_counts then 2 else 0) + (if field_set flds dns_field_edns then 9 else 0)"

text \<open>The whole record; the buffer starts with any contents, here zeros.\<close>

definition cbor_record :: "u32 \<Rightarrow> (dns_column \<Rightarrow> enc_state \<Rightarrow> enc_state res) \<Rightarrow> u8 list res" where
  "cbor_record flds body =
     bindr (cbor_array (of_nat (cbor_noitems flds)) (cbor_row body flds cbor_columns)
         (cbor_encoder_init CBOR_BUF 0, replicate CBOR_BUF 0))
       (\<lambda>(e, mem). Inr (take (cbor_encoder_get_buffer_size e) mem))"

definition write_packet_cbor :: "text_lib \<Rightarrow> heap \<Rightarrow> u32 \<Rightarrow> dns_packet option \<Rightarrow> u8 list res" where
  "write_packet_cbor L hp flds pk =
     (case pk of
        None \<Rightarrow> cbor_record flds (\<lambda>c. cenc (cbor_encode_text_stringz (text_bytes (column_name c))))
      | Some pkt \<Rightarrow>
          bindr (DNS_PACKET_RESPONSE hp pkt) (\<lambda>resp.
          bindr (case response pkt of None \<Rightarrow> Inr None | Some r \<Rightarrow> bindr (deref hp r) (\<lambda>x. Inr (Some x))) (\<lambda>own.
            cbor_record flds (cbor_column L pkt resp own))))"

section \<open>The hooks\<close>

record dns_output_cbor = dns_output +
  cbor_flds :: u32

definition dns_output_cbor_start_file :: "text_lib \<Rightarrow> int \<Rightarrow> dns_output_cbor \<Rightarrow> dns_output_cbor res" where
  "dns_output_cbor_start_file L time out =
     bindr (assertr (ot_out_file out \<noteq> None) ''out && out->base.out_file'') (\<lambda>_.
     bindr (write_packet_cbor L (ot_heap out) (cbor_flds out) None) (\<lambda>bs. file_write bs out))"

definition dns_output_cbor_write_packet :: "text_lib \<Rightarrow> pid \<Rightarrow> dns_output_cbor \<Rightarrow> dns_output_cbor res" where
  "dns_output_cbor_write_packet L p out =
     bindr (deref (ot_heap out) p) (\<lambda>pkt.
     bindr (write_packet_cbor L (ot_heap out) (cbor_flds out) (Some pkt)) (\<lambda>bs.
     bindr (file_write bs out) (\<lambda>out. output_account p out)))"

definition cbor_hooks :: "text_lib \<Rightarrow> dns_output_cbor output_hooks" where
  "cbor_hooks L = \<lparr>hk_write_packet = Some (dns_output_cbor_write_packet L),
     hk_start_file = Some (dns_output_cbor_start_file L), hk_finish_file = None\<rparr>"

definition dns_output_cbor_create :: "heap \<Rightarrow> dns_config \<Rightarrow> dns_packet_frame list \<Rightarrow> dns_output_cbor" where
  "dns_output_cbor_create hp conf frames =
     dns_output.extend (dns_output_init hp frames (output_path_fmt conf) (output_pipe_cmd conf) (output_period_sec conf))
       (dns_output_cbor.fields (cbor_fields conf))"

section \<open>Records are arrays\<close>

text \<open>
  \<open>puts_item f bs\<close>: the code \<open>f\<close> writes one item with the bytes \<open>bs\<close>, or dies because the buffer is
  full.
\<close>

definition puts_item :: "(enc_state \<Rightarrow> enc_state res) \<Rightarrow> u8 list \<Rightarrow> bool" where
  "puts_item f bs \<longleftrightarrow> (\<forall>sz out e mem. enc_at sz out e mem \<longrightarrow>
     (if length out + length bs \<le> sz
      then \<exists>e' mem'. f (e, mem) = Inr (e', mem') \<and> enc_at sz (out @ bs) e' mem' \<and>
        ce_remaining e' = ce_remaining (saturated_decrement e) \<and> ce_flags e' = ce_flags e
      else f (e, mem) = Inl (cbor_died CborErrorOutOfMemory)))"

named_theorems item_intros "the code that writes one item"

lemma puts_cenc: "encodes op bs \<Longrightarrow> puts_item (cenc op) bs"
  unfolding puts_item_def
proof (intro allI impI)
  fix sz out e mem
  assume "encodes op bs" "enc_at sz out e mem"
  then have "if length out + length bs \<le> sz
      then \<exists>e' mem'. op e mem = (CborNoError, e', mem') \<and> enc_at sz (out @ bs) e' mem' \<and>
        ce_remaining e' = ce_remaining (saturated_decrement e) \<and> ce_flags e' = ce_flags e
      else \<exists>e' mem'. op e mem = (CborErrorOutOfMemory, e', mem')"
    unfolding encodes_def by blast
  then show "if length out + length bs \<le> sz
      then \<exists>e' mem'. cenc op (e, mem) = Inr (e', mem') \<and> enc_at sz (out @ bs) e' mem' \<and>
        ce_remaining e' = ce_remaining (saturated_decrement e) \<and> ce_flags e' = ce_flags e
      else cenc op (e, mem) = Inl (cbor_died CborErrorOutOfMemory)"
    by (auto simp: cenc_def cerr_def split: if_splits)
qed

lemmas item_calls [item_intros] = encodes_intros [THEN puts_cenc]

lemma item_int [item_intros]: "puts_item (cint w) (cbor_bytes (int_item w))"
  unfolding cint_def by (rule item_intros)

text \<open>Several items in a row, into an array that expects exactly that many.\<close>

fun run_items :: "(enc_state \<Rightarrow> enc_state res) list \<Rightarrow> enc_state \<Rightarrow> enc_state res" where
  "run_items [] st = Inr st"
| "run_items (f # fs) st = bindr (f st) (run_items fs)"

lemma of_nat_Suc_Suc: "n < 2 ^ 32 \<Longrightarrow> (of_nat (Suc (Suc n)) :: u64) \<noteq> 0"
  by (simp only: word_of_nat_eq_0_iff) (auto dest: dvd_imp_le)

lemma run_items_at:
  assumes "list_all2 puts_item fs bss" and "length fs < 2 ^ 32"
    and "enc_at sz out e mem" and "ce_remaining e = of_nat (Suc (length fs))" and "ce_flags e = 0"
  shows "if length out + length (concat bss) \<le> sz
    then \<exists>e' mem'. run_items fs (e, mem) = Inr (e', mem') \<and> enc_at sz (out @ concat bss) e' mem' \<and>
      ce_remaining e' = 1 \<and> ce_flags e' = 0
    else run_items fs (e, mem) = Inl (cbor_died CborErrorOutOfMemory)"
  using assms
proof (induction fs bss arbitrary: out e mem rule: list_all2_induct)
  case Nil
  then show ?case by (simp add: enc_at_def)
next
  case (Cons f fs bs bss)
  have rem: "ce_remaining (saturated_decrement e) = of_nat (Suc (length fs))"
    using of_nat_Suc_Suc [of "length fs"] Cons.prems(1,3) by simp
  have f: "if length out + length bs \<le> sz
      then \<exists>e' mem'. f (e, mem) = Inr (e', mem') \<and> enc_at sz (out @ bs) e' mem' \<and>
        ce_remaining e' = ce_remaining (saturated_decrement e) \<and> ce_flags e' = ce_flags e
      else f (e, mem) = Inl (cbor_died CborErrorOutOfMemory)"
    using Cons.hyps(1) Cons.prems(2) unfolding puts_item_def by blast
  show ?case
  proof (cases "length out + length bs \<le> sz")
    case True
    then obtain e1 mem1 where 1: "f (e, mem) = Inr (e1, mem1)" "enc_at sz (out @ bs) e1 mem1"
      "ce_remaining e1 = of_nat (Suc (length fs))" "ce_flags e1 = 0"
      using f Cons.prems(4) rem by auto
    have "length fs < 2 ^ 32" using Cons.prems(1) by simp
    from Cons.IH [OF this 1(2-4)] show ?thesis using 1(1) by (simp add: add.assoc split: if_splits)
  next
    case False
    then show ?thesis using f by simp
  qed
qed

text \<open>The array around them.\<close>

lemma array_item:
  assumes "list_all2 puts_item fs bss" and "length fs < 2 ^ 32"
  shows "puts_item (cbor_array (of_nat (length fs)) (run_items fs)) (cbor_head 0x80 (of_nat (length fs)) @ concat bss)"
  unfolding puts_item_def
proof (intro allI impI)
  fix sz out e mem
  let ?n = "of_nat (length fs) :: u64" and ?hd = "cbor_head 0x80 (of_nat (length fs))"
  assume a: "enc_at sz out e mem"
  have n: "?n \<noteq> CborIndefiniteLength"
    using of_nat_Suc_Suc [of "length fs - 1"] assms(2) by (cases fs) (auto simp: CborIndefiniteLength_def add_eq_0_iff)
  show "if length out + length (?hd @ concat bss) \<le> sz
      then \<exists>e' mem'. cbor_array ?n (run_items fs) (e, mem) = Inr (e', mem') \<and> enc_at sz (out @ ?hd @ concat bss) e' mem' \<and>
        ce_remaining e' = ce_remaining (saturated_decrement e) \<and> ce_flags e' = ce_flags e
      else cbor_array ?n (run_items fs) (e, mem) = Inl (cbor_died CborErrorOutOfMemory)"
  proof (cases "length out + length ?hd \<le> sz")
    case True
    then obtain c mem1 where c: "cbor_encoder_create_array e mem ?n = (CborNoError, saturated_decrement e, c, mem1)"
      "enc_at sz (out @ ?hd) c mem1" "ce_remaining c = of_nat (Suc (length fs))" "ce_flags c = 0"
      using create_array_at [OF a n] by (auto simp: add.commute)
    note run = run_items_at [OF assms c(2-4)]
    show ?thesis
    proof (cases "length (out @ ?hd) + length (concat bss) \<le> sz")
      case fit: True
      then obtain c1 mem2 where c1: "run_items fs (c, mem1) = Inr (c1, mem2)" "enc_at sz ((out @ ?hd) @ concat bss) c1 mem2"
        "ce_remaining c1 = 1" "ce_flags c1 = 0"
        using run by auto
      show ?thesis
        using c(1) c1 fit close_array_at [OF c1(2,4), of "saturated_decrement e"] by (simp add: cbor_array_def cerr_def)
    next
      case False
      then show ?thesis using c(1) run by (simp add: cbor_array_def add.assoc)
    qed
  next
    case False
    then show ?thesis using create_array_at [OF a n] by (auto simp: cbor_array_def)
  qed
qed

section \<open>The items of a record\<close>

text \<open>What each column must hold.\<close>

definition null_item :: cbor_item where
  "null_item = Item_simple 22"

definition opt_item :: "'a option \<Rightarrow> ('a \<Rightarrow> cbor_item) \<Rightarrow> cbor_item" where
  "opt_item x f = (case x of None \<Rightarrow> null_item | Some y \<Rightarrow> f y)"

definition bool_item :: "bool \<Rightarrow> cbor_item" where
  "bool_item b = Item_simple (if b then 21 else 20)"

definition text_item :: "u8 list \<Rightarrow> cbor_item" where
  "text_item str = Item_text (takeWhile (\<lambda>c. c \<noteq> 0) str)"

definition be16_item :: "u8 list \<Rightarrow> nat \<Rightarrow> cbor_item" where
  "be16_item mem off = int_item (ucast (projr (load_be16 mem off)))"

definition list_item :: "u8 list \<Rightarrow> cbor_item" where
  "list_item opt = Item_array (map (\<lambda>i. int_item (ucast (opt ! (4 + i + i)))) [0..<projr (knot_edns_opt_get_length opt)])"

definition nsid_item :: "u8 list \<Rightarrow> cbor_item" where
  "nsid_item opt = Item_bytes (take (projr (knot_edns_opt_get_length opt)) (drop 4 opt))"

fun column_item :: "text_lib \<Rightarrow> dns_packet \<Rightarrow> dns_packet option \<Rightarrow> dns_packet option \<Rightarrow> dns_column \<Rightarrow> cbor_item" where
  "column_item L pkt resp own col_time = Item_double (time_bits (ts pkt))"
| "column_item L pkt resp own col_delay_us = opt_item own (\<lambda>r. int_item (word_of_int (ts r - ts pkt)))"
| "column_item L pkt resp own col_req_dns_len = opt_item (DNS_PACKET_REQUEST pkt) (\<lambda>q. int_item (dns_data_size_orig q))"
| "column_item L pkt resp own col_resp_dns_len = opt_item resp (\<lambda>r. int_item (dns_data_size_orig r))"
| "column_item L pkt resp own col_req_net_len = opt_item (DNS_PACKET_REQUEST pkt) (\<lambda>q. int_item (net_size q))"
| "column_item L pkt resp own col_resp_net_len = opt_item resp (\<lambda>r. int_item (net_size r))"
| "column_item L pkt resp own col_client_addr = text_item (inet_ntop L (DNS_PACKET_AF pkt) (DNS_PACKET_CLIENT_ADDR pkt))"
| "column_item L pkt resp own col_client_port = int_item (ucast (DNS_PACKET_CLIENT_PORT pkt))"
| "column_item L pkt resp own col_server_addr = text_item (inet_ntop L (DNS_PACKET_AF pkt) (DNS_PACKET_SERVER_ADDR pkt))"
| "column_item L pkt resp own col_server_port = int_item (ucast (DNS_PACKET_SERVER_PORT pkt))"
| "column_item L pkt resp own col_net_proto = int_item (ucast (net_protocol pkt))"
| "column_item L pkt resp own col_net_ipv = int_item (if DNS_SOCKADDR_AF (src_addr pkt) = AF_INET then 4 else 6)"
| "column_item L pkt resp own col_net_ttl = (if net_ttl pkt > 0 then int_item (ucast (net_ttl pkt)) else null_item)"
| "column_item L pkt resp own col_req_udp_sum =
     (if net_protocol pkt = TRACE_IPPROTO_UDP then opt_item (DNS_PACKET_REQUEST pkt) (\<lambda>q. int_item (ucast (net_udp_sum q)))
      else null_item)"
| "column_item L pkt resp own col_id = int_item (ucast (wire_id (knot_packet pkt)))"
| "column_item L pkt resp own col_qtype = int_item (ucast (knot_qtype (knot_packet pkt)))"
| "column_item L pkt resp own col_qclass = int_item (ucast (knot_qclass (knot_packet pkt)))"
| "column_item L pkt resp own col_opcode = int_item (ucast (wire_opcode (knot_packet pkt)))"
| "column_item L pkt resp own col_rcode = opt_item resp (\<lambda>r. int_item (ucast (wire_rcode (knot_packet r))))"
| "column_item L pkt resp own col_resp_aa = opt_item resp (\<lambda>r. bool_item (wire_aa (knot_packet r)))"
| "column_item L pkt resp own col_resp_tc = opt_item resp (\<lambda>r. bool_item (wire_tc (knot_packet r)))"
| "column_item L pkt resp own col_req_rd = opt_item (DNS_PACKET_REQUEST pkt) (\<lambda>q. bool_item (wire_rd (knot_packet q)))"
| "column_item L pkt resp own col_resp_ra = opt_item resp (\<lambda>r. bool_item (wire_ra (knot_packet r)))"
| "column_item L pkt resp own col_req_z = opt_item (DNS_PACKET_REQUEST pkt) (\<lambda>q. bool_item (wire_z (knot_packet q)))"
| "column_item L pkt resp own col_resp_ad = opt_item resp (\<lambda>r. bool_item (wire_ad (knot_packet r)))"
| "column_item L pkt resp own col_req_cd = opt_item (DNS_PACKET_REQUEST pkt) (\<lambda>q. bool_item (wire_cd (knot_packet q)))"
| "column_item L pkt resp own col_qname = opt_item (knot_dname_to_str L (knot_qname (knot_packet pkt))) text_item"
| "column_item L pkt resp own col_resp_ancount = opt_item resp (\<lambda>r. be16_item (dns_data r) 6)"
| "column_item L pkt resp own col_resp_arcount = opt_item resp (\<lambda>r. be16_item (dns_data r) 10)"
| "column_item L pkt resp own col_resp_nscount = opt_item resp (\<lambda>r. be16_item (dns_data r) 8)"
| "column_item L pkt resp own col_req_edns_ver = opt_item (req_opt_rr pkt) (\<lambda>rr. int_item (ucast (edns_version rr)))"
| "column_item L pkt resp own col_req_edns_udp = opt_item (req_opt_rr pkt) (\<lambda>rr. int_item (ucast (edns_payload rr)))"
| "column_item L pkt resp own col_req_edns_do = opt_item (req_opt_rr pkt) (\<lambda>rr. bool_item (edns_do rr))"
| "column_item L pkt resp own col_resp_edns_rcode = opt_item (resp_opt_rr resp) (\<lambda>rr. int_item (ucast (edns_ext_rcode rr)))"
| "column_item L pkt resp own col_req_edns_ping = null_item"
| "column_item L pkt resp own col_req_edns_dau = opt_item (req_opt_rr pkt) (\<lambda>rr. opt_item (edns_option rr 5) list_item)"
| "column_item L pkt resp own col_req_edns_dhu = opt_item (req_opt_rr pkt) (\<lambda>rr. opt_item (edns_option rr 6) list_item)"
| "column_item L pkt resp own col_req_edns_n3u = opt_item (req_opt_rr pkt) (\<lambda>rr. opt_item (edns_option rr 7) list_item)"
| "column_item L pkt resp own col_resp_edns_nsid = opt_item (resp_opt_rr resp) (\<lambda>rr. opt_item (edns_option rr 3) nsid_item)"
| "column_item L pkt resp own col_edns_client_subnet = null_item"
| "column_item L pkt resp own col_edns_other = null_item"

text \<open>The memory that the columns read, and the two address families.\<close>

definition list_readable :: "u8 list \<Rightarrow> bool" where
  "list_readable opt \<longleftrightarrow> (case knot_edns_opt_get_length opt of Inl _ \<Rightarrow> False | Inr len \<Rightarrow> 4 + 2 * len \<le> length opt + 1)"

definition nsid_readable :: "u8 list \<Rightarrow> bool" where
  "nsid_readable opt \<longleftrightarrow> (case knot_edns_opt_get_length opt of Inl _ \<Rightarrow> False | Inr len \<Rightarrow> 4 + len \<le> length opt)"

definition cbor_readable :: "dns_packet \<Rightarrow> dns_packet option \<Rightarrow> bool" where
  "cbor_readable pkt resp \<longleftrightarrow> DNS_SOCKADDR_AF (src_addr pkt) \<in> {AF_INET, AF_INET6} \<and>
     (\<forall>r. resp = Some r \<longrightarrow> 12 \<le> length (dns_data r)) \<and>
     (\<forall>rr code opt. req_opt_rr pkt = Some rr \<longrightarrow> code \<in> {5, 6, 7} \<longrightarrow> edns_option rr code = Some opt \<longrightarrow> list_readable opt) \<and>
     (\<forall>rr opt. resp_opt_rr resp = Some rr \<longrightarrow> edns_option rr 3 = Some opt \<longrightarrow> nsid_readable opt)"

lemma item_condif [item_intros]:
  "(\<And>y. x = Some y \<Longrightarrow> puts_item (f y) (cbor_bytes (g y))) \<Longrightarrow> puts_item (condif x f) (cbor_bytes (opt_item x g))"
  by (cases x) (simp_all add: condif_def opt_item_def null_item_def item_calls del: cbor_bytes.simps)

lemma item_null [item_intros]: "puts_item (cenc cbor_encode_null) (cbor_bytes null_item)"
  by (simp add: null_item_def item_calls del: cbor_bytes.simps)

lemma item_bool [item_intros]: "puts_item (cenc (cbor_encode_boolean b)) (cbor_bytes (bool_item b))"
  using encodes_boolean [of b] by (simp add: bool_item_def puts_cenc del: cbor_bytes.simps)

lemma item_text [item_intros]: "puts_item (cenc (cbor_encode_text_stringz str)) (cbor_bytes (text_item str))"
  using encodes_text_stringz [of str] by (simp add: text_item_def puts_cenc del: cbor_bytes.simps)

lemma item_flag [item_intros]: "puts_item (cbor_flag get pk) (cbor_bytes (opt_item pk (\<lambda>q. bool_item (get (knot_packet q)))))"
  unfolding cbor_flag_def by (intro item_intros)

lemma item_count [item_intros]:
  assumes "\<And>r. resp = Some r \<Longrightarrow> off + 1 < length (dns_data r)"
  shows "puts_item (cbor_count off resp) (cbor_bytes (opt_item resp (\<lambda>r. be16_item (dns_data r) off)))"
  unfolding cbor_count_def
proof (rule item_condif)
  fix r assume "resp = Some r"
  then obtain w where "load_be16 (dns_data r) off = Inr w" using assms by (auto simp: load_be16_def)
  then show "puts_item (\<lambda>st. bindr (load_be16 (dns_data r) off) (\<lambda>n. cint (ucast n) st)) (cbor_bytes (be16_item (dns_data r) off))"
    by (simp add: be16_item_def item_int)
qed

text \<open>The loops are runs of items.\<close>

lemma cbor_entries_run:
  "cbor_entries opt i n st = run_items (map (\<lambda>j st. bindr (understood_entry opt j) (\<lambda>v. cint (ucast v) st)) [i..<i + n]) st"
proof (induction n arbitrary: i st)
  case (Suc n)
  have u: "[i..<i + Suc n] = i # [Suc i..<Suc i + n]" using upt_conv_Cons [of i "i + Suc n"] by simp
  have "cbor_entries opt (Suc i) n
      = run_items (map (\<lambda>j st. bindr (understood_entry opt j) (\<lambda>v. cint (ucast v) st)) [Suc i..<Suc i + n])"
    by (rule ext) (rule Suc.IH)
  then show ?case unfolding u by (simp only: list.map run_items.simps cbor_entries.simps)
qed simp

lemma cbor_row_run: "cbor_row body flds cs st = run_items (map body (filter (selects flds) cs)) st"
proof (induction cs arbitrary: st)
  case (Cons c cs)
  have "cbor_row body flds cs = run_items (map body (filter (selects flds) cs))" using Cons by blast
  then show ?case by simp
qed simp

lemma opt_length_bound: "knot_edns_opt_get_length opt = Inr len \<Longrightarrow> len < 2 ^ 16"
proof -
  assume "knot_edns_opt_get_length opt = Inr len"
  then obtain w where "len = unat (w :: u16)" by (auto simp: knot_edns_opt_get_length_def bindr_def split: sum.splits)
  then show ?thesis using unsigned_less [of w, where 'a = nat] by simp
qed

lemma item_list:
  assumes "knot_edns_opt_get_length opt = Inr len" and "4 + 2 * len \<le> length opt + 1"
  shows "puts_item (cbor_array (of_nat len) (cbor_entries opt 0 len)) (cbor_bytes (list_item opt))"
proof -
  let ?fs = "map (\<lambda>j st. bindr (understood_entry opt j) (\<lambda>v. cint (ucast v) st)) [0..<0 + len]"
  let ?is = "map (\<lambda>i. int_item (ucast (opt ! (4 + i + i)))) [0..<len]"
  have e: "puts_item (\<lambda>st. bindr (understood_entry opt j) (\<lambda>v. cint (ucast v) st)) (cbor_bytes (int_item (ucast (opt ! (4 + j + j)))))"
    if "j < len" for j
    using assms(2) that by (simp add: understood_entry_def item_int)
  have "list_all2 puts_item ?fs (map cbor_bytes ?is)"
    using e by (simp add: list_all2_conv_all_nth)
  moreover have "length ?fs < 2 ^ 32" using opt_length_bound [OF assms(1)] by simp
  ultimately have "puts_item (cbor_array (of_nat (length ?fs)) (run_items ?fs)) (cbor_head 0x80 (of_nat (length ?fs)) @ concat (map cbor_bytes ?is))"
    by (rule array_item)
  moreover have "cbor_entries opt 0 len = run_items ?fs" by (rule ext) (rule cbor_entries_run)
  ultimately show ?thesis using assms(1) by (simp add: list_item_def)
qed

lemma item_understood [item_intros]:
  assumes "\<And>rr opt. req_opt_rr pkt = Some rr \<Longrightarrow> edns_option rr code = Some opt \<Longrightarrow> list_readable opt"
  shows "puts_item (cbor_understood code pkt) (cbor_bytes (opt_item (req_opt_rr pkt) (\<lambda>rr. opt_item (edns_option rr code) list_item)))"
  unfolding cbor_understood_def cond_opt_rr_def
proof (intro item_condif)
  fix rr opt assume "req_opt_rr pkt = Some rr" "edns_option rr code = Some opt"
  then have "list_readable opt" by (rule assms)
  then obtain len where "knot_edns_opt_get_length opt = Inr len" "4 + 2 * len \<le> length opt + 1"
    by (auto simp: list_readable_def split: sum.splits)
  then show "puts_item (\<lambda>st. bindr (knot_edns_opt_get_length opt) (\<lambda>len. cbor_array (of_nat len) (cbor_entries opt 0 len) st)) (cbor_bytes (list_item opt))"
    using item_list by simp
qed

lemma item_nsid [item_intros]:
  assumes "\<And>rr opt. resp_opt_rr resp = Some rr \<Longrightarrow> edns_option rr 3 = Some opt \<Longrightarrow> nsid_readable opt"
  shows "puts_item (cbor_nsid resp) (cbor_bytes (opt_item (resp_opt_rr resp) (\<lambda>rr. opt_item (edns_option rr 3) nsid_item)))"
  unfolding cbor_nsid_def cond_opt_rr_def
proof (intro item_condif)
  fix rr opt assume "resp_opt_rr resp = Some rr" "edns_option rr 3 = Some opt"
  then have "nsid_readable opt" by (rule assms)
  then obtain len where "knot_edns_opt_get_length opt = Inr len" "4 + len \<le> length opt"
    by (auto simp: nsid_readable_def split: sum.splits)
  then show "puts_item (\<lambda>st. bindr (knot_edns_opt_get_length opt) (\<lambda>len. if 4 + len \<le> length opt
      then cenc (cbor_encode_byte_string (take len (drop 4 opt))) st else Inl (Bad_pointer ''opt''))) (cbor_bytes (nsid_item opt))"
    using encodes_byte_string [of "take len (drop 4 opt)"] by (simp add: nsid_item_def puts_cenc del: cbor_bytes.simps)
qed

lemma column_puts:
  assumes "cbor_readable pkt resp" and "c \<noteq> col_req_edns_ping"
  shows "puts_item (cbor_column L pkt resp own c) (cbor_bytes (column_item L pkt resp own c))"
proof -
  have lists: "puts_item (cbor_understood code pkt) (cbor_bytes (opt_item (req_opt_rr pkt) (\<lambda>rr. opt_item (edns_option rr code) list_item)))"
    if "code \<in> {5, 6, 7}" for code
    using assms(1) that unfolding cbor_readable_def by (blast intro: item_understood)
  have nsid: "puts_item (cbor_nsid resp) (cbor_bytes (opt_item (resp_opt_rr resp) (\<lambda>rr. opt_item (edns_option rr 3) nsid_item)))"
    using assms(1) unfolding cbor_readable_def by (blast intro: item_nsid)
  have counts: "puts_item (cbor_count k resp) (cbor_bytes (opt_item resp (\<lambda>r. be16_item (dns_data r) k)))" if "k \<le> 10" for k
    by (rule item_count) (use assms(1) that in \<open>fastforce simp: cbor_readable_def\<close>)
  have ipv: "puts_item (cbor_column L pkt resp own col_net_ipv) (cbor_bytes (column_item L pkt resp own col_net_ipv))"
    by (cases "DNS_SOCKADDR_AF (src_addr pkt) = AF_INET") (use assms(1) in \<open>simp_all add: cbor_readable_def item_int del: cbor_bytes.simps\<close>)
  have ttl: "column_item L pkt resp own col_net_ttl = opt_item (if net_ttl pkt > 0 then Some pkt else None) (\<lambda>q. int_item (ucast (net_ttl q)))"
    and udp: "column_item L pkt resp own col_req_udp_sum
      = opt_item (if net_protocol pkt = TRACE_IPPROTO_UDP then DNS_PACKET_REQUEST pkt else None) (\<lambda>q. int_item (ucast (net_udp_sum q)))"
    by (simp_all add: opt_item_def)
  note special = lists [of 5] lists [of 6] lists [of 7] counts [of 6] counts [of 8] counts [of 10] nsid
  show ?thesis
  proof (cases c)
    case col_net_ipv
    then show ?thesis using ipv by simp
  next
    case col_net_ttl
    show ?thesis unfolding col_net_ttl ttl cbor_column.simps by (intro item_intros)
  next
    case col_req_udp_sum
    show ?thesis unfolding col_req_udp_sum udp cbor_column.simps by (intro item_intros)
  next
    case col_req_edns_ping
    then show ?thesis using assms(2) by simp
  qed (hypsubst, unfold cbor_column.simps column_item.simps, ((rule special; simp) | (intro item_intros)))+
qed

section \<open>The number of items\<close>

text \<open>The masks that the configuration can give: no bit at or above \<open>dns_of_LAST\<close>.\<close>

definition known_fields :: "u32 \<Rightarrow> bool" where
  "known_fields flds \<longleftrightarrow> (\<forall>i \<in> {dns_of_LAST..<32}. \<not> bit flds i)"

lemma length_filter_Cons: "length (filter P (x # xs)) = of_bool (P x) + length (filter P xs)"
  by simp

lemma noitems_selected:
  assumes "known_fields flds"
  shows "length (filter (selects flds) cbor_columns) = cbor_noitems flds"
proof -
  have upt: "[0..<32] = [0, 1, 2, 3, 4, 5, 6, 7, 8, 9, 10, 11, 12, 13, 14, 15, 16, 17, 18, 19, 20, 21, 22, 23, 24, 25, 26, 27, 28, 29, 30, 31 :: nat]"
    by (simp add: upt_rec)
  have hi: "\<not> bit flds i" if "dns_of_LAST \<le> i" "i < 32" for i using assms that by (simp add: known_fields_def)
  have if_bool: "(if b then n else 0) = n * of_bool b" for b and n :: nat by simp
  show ?thesis
    unfolding cbor_columns_def cbor_noitems_def popcount_def upt length_filter_Cons filter.simps(1) list.size(3)
      selects_def field_set_def column_flag.simps dns_field_number.simps if_bool
    using hi by (simp add: dns_of_LAST_def)
qed

lemma cbor_noitems_bound: "cbor_noitems flds < 100"
proof -
  have "popcount flds \<le> length [0..<32 :: nat]" unfolding popcount_def by (rule length_filter_le)
  then show ?thesis by (simp add: cbor_noitems_def)
qed

lemma init_at: "enc_at sz [] (cbor_encoder_init sz 0) (replicate sz 0)"
  by (simp add: enc_at_def cbor_encoder_init_def)

text \<open>A record is the array of its items if it fits into the buffer, and the end of the program otherwise.\<close>

lemma record_array:
  assumes "known_fields flds" and "\<And>c. c \<in> set cbor_columns \<Longrightarrow> puts_item (body c) (cbor_bytes (item c))"
  shows "cbor_record flds body =
    (let bs = cbor_bytes (Item_array (map item (filter (selects flds) cbor_columns))) in
     if length bs \<le> CBOR_BUF then Inr bs else Inl (cbor_died CborErrorOutOfMemory))"
proof -
  let ?cs = "filter (selects flds) cbor_columns"
  let ?bs = "cbor_bytes (Item_array (map item ?cs))" and ?st = "(cbor_encoder_init CBOR_BUF 0, replicate CBOR_BUF 0)"
  have n: "length ?cs = cbor_noitems flds" by (rule noitems_selected [OF assms(1)])
  have "list_all2 puts_item (map body ?cs) (map cbor_bytes (map item ?cs))"
    using assms(2) by (auto simp: list_all2_map1 list_all2_map2 list.rel_refl_strong intro!: list.rel_refl_strong)
  moreover have "length (map body ?cs) < 2 ^ 32" using n cbor_noitems_bound [of flds] by simp
  ultimately have "puts_item (cbor_array (of_nat (length (map body ?cs))) (run_items (map body ?cs)))
      (cbor_head 0x80 (of_nat (length (map body ?cs))) @ concat (map cbor_bytes (map item ?cs)))"
    by (rule array_item)
  moreover have "run_items (map body ?cs) = cbor_row body flds cbor_columns" by (rule ext) (rule cbor_row_run [symmetric])
  ultimately have "puts_item (cbor_array (of_nat (cbor_noitems flds)) (cbor_row body flds cbor_columns)) ?bs"
    using n by simp
  then have "if length ?bs \<le> CBOR_BUF
      then \<exists>e' mem'. cbor_array (of_nat (cbor_noitems flds)) (cbor_row body flds cbor_columns) ?st = Inr (e', mem') \<and> enc_at CBOR_BUF ?bs e' mem'
      else cbor_array (of_nat (cbor_noitems flds)) (cbor_row body flds cbor_columns) ?st = Inl (cbor_died CborErrorOutOfMemory)"
    using init_at [of CBOR_BUF] unfolding puts_item_def by fastforce
  then show ?thesis
    by (auto simp: cbor_record_def enc_at_def cbor_encoder_get_buffer_size_def Let_def simp del: cbor_bytes.simps split: if_splits)
qed

section \<open>The CBOR writer is a writer\<close>

lemma column_name_short: "length (column_name c) \<le> 18"
  by (cases c) simp_all

lemma text_item_length: "length (cbor_bytes (text_item str)) \<le> 9 + length str"
  using length_cbor_head(2) [of "0x60" "of_nat (length (takeWhile (\<lambda>c. c \<noteq> 0) str))"] length_takeWhile_le [of "\<lambda>c. c \<noteq> 0" str]
  by (simp add: text_item_def add_mono)

lemma concat_length_le: "(\<And>x. x \<in> set xs \<Longrightarrow> length (f x) \<le> k) \<Longrightarrow> length (concat (map f xs)) \<le> k * length xs"
proof (induction xs)
  case (Cons x xs)
  then show ?case using add_mono [of "length (f x)" k "length (concat (map f xs))" "k * length xs"] by simp
qed simp

definition header_items :: "u32 \<Rightarrow> cbor_item list" where
  "header_items flds = map (\<lambda>c. text_item (text_bytes (column_name c))) (filter (selects flds) cbor_columns)"

lemma header_small: "length (cbor_bytes (Item_array (header_items flds))) \<le> CBOR_BUF"
proof -
  let ?cs = "filter (selects flds) cbor_columns"
  have n: "length ?cs \<le> 40" using length_filter_le [of "selects flds" cbor_columns] by (simp add: cbor_columns_def)
  have i: "length (cbor_bytes (text_item (text_bytes (column_name c)))) \<le> 27" for c
    using text_item_length [of "text_bytes (column_name c)"] column_name_short [of c] by (simp add: text_bytes_def)
  have "length (concat (map (\<lambda>c. cbor_bytes (text_item (text_bytes (column_name c)))) ?cs)) \<le> 27 * length ?cs"
    by (rule concat_length_le) (rule i)
  then show ?thesis
    using n length_cbor_head(2) [of "0x80" "of_nat (length ?cs)"] by (simp add: header_items_def comp_def CBOR_BUF_def)
qed

lemma cbor_header:
  assumes "known_fields flds"
  shows "write_packet_cbor L hp flds None = Inr (cbor_bytes (Item_array (header_items flds)))"
  using record_array [OF assms, of "\<lambda>c. cenc (cbor_encode_text_stringz (text_bytes (column_name c)))"
      "\<lambda>c. text_item (text_bytes (column_name c))", OF item_text] header_small [of flds]
  by (simp add: write_packet_cbor_def header_items_def Let_def del: cbor_bytes.simps)

definition cbor_good :: "text_lib \<Rightarrow> u32 \<Rightarrow> heap \<Rightarrow> pid \<Rightarrow> bool" where
  "cbor_good L flds hp p \<longleftrightarrow> (case write_packet_cbor L hp flds (hp p) of Inl _ \<Rightarrow> False | Inr _ \<Rightarrow> True)"

definition cbor_rec :: "text_lib \<Rightarrow> u32 \<Rightarrow> heap \<Rightarrow> pid \<Rightarrow> u8 list" where
  "cbor_rec L flds hp p = projr (write_packet_cbor L hp flds (hp p))"

text \<open>The settings of the writer as a whole output, for the part of the record that it adds.\<close>

definition cbor_of :: "unit dns_output_cbor_ext \<Rightarrow> dns_output_cbor" where
  "cbor_of m = dns_output.extend (dns_output_init Map.empty [] [] [] 0) m"

lemma cbor_of_more [simp]: "cbor_flds (cbor_of (dns_output.more out)) = cbor_flds out"
  by (cases out) (simp add: cbor_of_def dns_output.defs)

lemma cbor_start_ok:
  assumes "known_fields (cbor_flds out)" and "ot_out_file out = Some bs"
  shows "dns_output_cbor_start_file L time out = Inr (written (cbor_bytes (Item_array (header_items (cbor_flds out)))) out)"
  using assms(2) by (simp add: dns_output_cbor_start_file_def cbor_header [OF assms(1)] file_write_Some del: cbor_bytes.simps)

lemma written_calls [simp]: "(written bs out)\<lparr>ot_calls := ot_calls out, ot_side_files := ot_side_files out\<rparr> = written bs out"
  by (cases out) (simp add: written_def)

lemma cbor_write_ok:
  assumes "ot_out_file out = Some bs" and "packet_ok (ot_heap out) p" and "cbor_good L (cbor_flds out) (ot_heap out) p"
  shows "dns_output_cbor_write_packet L p out = Inr (counted p (written (cbor_rec L (cbor_flds out) (ot_heap out) p) out))"
proof -
  let ?bs = "cbor_rec L (cbor_flds out) (ot_heap out) p"
  obtain pkt where p: "ot_heap out p = Some pkt" using assms(2) by (auto simp: packet_ok_def split: option.splits)
  have "write_packet_cbor L (ot_heap out) (cbor_flds out) (Some pkt) = Inr ?bs"
    using assms(3) p by (auto simp: cbor_good_def cbor_rec_def split: sum.splits)
  moreover have "output_account p (written ?bs out) = Inr (counted p (written ?bs out))"
    by (rule output_account_counted) (simp add: assms(2))
  ultimately show ?thesis using p by (simp add: dns_output_cbor_write_packet_def file_write_Some [OF assms(1)])
qed

lemma cbor_local:
  assumes "packet_ok hp p" and "\<And>x. x \<in> set (owned hp p) \<Longrightarrow> hp' x = hp x"
  shows "write_packet_cbor L hp' flds (hp' p) = write_packet_cbor L hp flds (hp p)"
proof -
  obtain pkt where p: "hp p = Some pkt" using assms(1) by (auto simp: packet_ok_def split: option.splits)
  have p': "hp' p = Some pkt" using assms(2) [of p] p by simp
  have r: "hp' x = hp x" if "response pkt = Some x" for x using assms(2) [of x] p that by (simp add: owned_def)
  have "DNS_PACKET_RESPONSE hp' pkt = DNS_PACKET_RESPONSE hp pkt"
    "(case response pkt of None \<Rightarrow> Inr None | Some r \<Rightarrow> bindr (deref hp' r) (\<lambda>x. Inr (Some x)))
      = (case response pkt of None \<Rightarrow> Inr None | Some r \<Rightarrow> bindr (deref hp r) (\<lambda>x. Inr (Some x)))"
    using r by (cases "response pkt"; simp add: DNS_PACKET_RESPONSE_def deref_def)+
  then show ?thesis by (simp add: write_packet_cbor_def p p')
qed

interpretation cbor: output_writer E "cbor_hooks L" "\<lambda>m. known_fields (cbor_flds (cbor_of m))"
  "\<lambda>m. cbor_bytes (Item_array (header_items (cbor_flds (cbor_of m))))"
  "\<lambda>m. cbor_rec L (cbor_flds (cbor_of m))" "\<lambda>m. cbor_good L (cbor_flds (cbor_of m))"
proof unfold_locales
  let ?h = "\<lambda>m. cbor_bytes (Item_array (header_items (cbor_flds (cbor_of m))))"
  show "\<exists>n sf. call_hook (hk_start_file (cbor_hooks L)) time out
      = Inr ((written (?h (dns_output.more out)) out)\<lparr>ot_calls := n, ot_side_files := sf\<rparr>)"
    if "os_ok E" "known_fields (cbor_flds (cbor_of (dns_output.more out)))" "ot_out_file out = Some bs" "time \<noteq> DNS_NO_TIME" for out bs time
    using cbor_start_ok [of out bs L time] that(2,3)
    by (intro exI [of _ "ot_calls out"] exI [of _ "ot_side_files out"]) (simp add: call_hook_def cbor_hooks_def del: cbor_bytes.simps)
  show "call_hook (hk_write_packet (cbor_hooks L)) p out
      = Inr (counted p (written (cbor_rec L (cbor_flds (cbor_of (dns_output.more out))) (ot_heap out) p) out))"
    if "ot_out_file out = Some bs" "packet_ok (ot_heap out) p" "cbor_good L (cbor_flds (cbor_of (dns_output.more out))) (ot_heap out) p" for out bs p
    using cbor_write_ok [OF that(1,2)] that(3) by (simp add: call_hook_def cbor_hooks_def)
  show "call_hook (hk_finish_file (cbor_hooks L)) time out = Inr out" for time and out :: dns_output_cbor
    by (simp add: call_hook_def cbor_hooks_def)
  show "cbor_rec L (cbor_flds (cbor_of cfg)) hp' p = cbor_rec L (cbor_flds (cbor_of cfg)) hp p \<and>
      cbor_good L (cbor_flds (cbor_of cfg)) hp' p = cbor_good L (cbor_flds (cbor_of cfg)) hp p"
    if "packet_ok hp p" "\<And>x. x \<in> set (owned hp p) \<Longrightarrow> hp' x = hp x" for hp p hp' cfg
    using cbor_local [OF that] by (simp add: cbor_rec_def cbor_good_def)
qed

section \<open>Properties of the writer\<close>

definition record_items :: "text_lib \<Rightarrow> u32 \<Rightarrow> dns_packet \<Rightarrow> dns_packet option \<Rightarrow> dns_packet option \<Rightarrow> cbor_item list" where
  "record_items L flds pkt resp own = map (column_item L pkt resp own) (filter (selects flds) cbor_columns)"

lemma write_packet_reference:
  assumes "packet_ok hp p" and "hp p = Some pkt" and "DNS_PACKET_RESPONSE hp pkt = Inr resp"
    and "cbor_readable pkt resp" and "known_fields flds"
  shows "write_packet_cbor L hp flds (Some pkt) =
    (let bs = cbor_bytes (Item_array (record_items L flds pkt resp (own_response hp pkt))) in
     if length bs \<le> CBOR_BUF then Inr bs else Inl (cbor_died CborErrorOutOfMemory))"
proof -
  have "puts_item (cbor_column L pkt resp (own_response hp pkt) c) (cbor_bytes (column_item L pkt resp (own_response hp pkt) c))"
    if "c \<in> set cbor_columns" for c
    using column_puts [OF assms(4)] that by (auto simp: cbor_columns_def simp del: cbor_column.simps column_item.simps)
  then show ?thesis
    using record_array [OF assms(5)] own_response_read [OF assms(1,2)]
    by (simp add: write_packet_cbor_def assms(3) record_items_def del: cbor_bytes.simps)
qed


text \<open>A long list: the record is longer than its list.\<close>

lemma sum_list_member: "x \<in> set xs \<Longrightarrow> f x \<le> sum_list (map f xs)" for f :: "'b \<Rightarrow> nat"
  by (induction xs) auto

lemma item_in_array: "i \<in> set is \<Longrightarrow> length (cbor_bytes i) \<le> length (cbor_bytes (Item_array is))"
  using sum_list_member [of i "is" "\<lambda>i. length (cbor_bytes i)"] by (simp add: length_concat comp_def trans_le_add2)

lemma array_length_ge: "Suc (length is) \<le> length (cbor_bytes (Item_array is))"
proof -
  have "length is \<le> length (concat (map cbor_bytes is))"
  proof (induction "is")
    case (Cons i "is")
    then show ?case using cbor_bytes_nonempty [of i] by simp
  qed simp
  then show ?thesis using length_cbor_head(1) [of "0x80" "of_nat (length is)"] by simp
qed

text \<open>
  C38: A request with a DAU list of 4096 entries or more ends the program: the record does not fit
  and \<open>CERR\<close> dies. One packet from the network is enough.
\<close>

theorem cbor_long_list_dies:
  assumes "packet_ok hp p" and "hp p = Some pkt" and "DNS_PACKET_RESPONSE hp pkt = Inr resp"
    and "cbor_readable pkt resp" and "known_fields flds" and "field_set flds dns_field_edns"
    and "req_opt_rr pkt = Some rr" and "edns_option rr 5 = Some opt" and "knot_edns_opt_get_length opt = Inr len" and "4096 \<le> len"
  shows "write_packet_cbor L hp flds (Some pkt) = Inl (Died (''CBOR error: '' @ ''out of memory/need more memory''))"
proof -
  let ?is = "record_items L flds pkt resp (own_response hp pkt)"
  have "column_item L pkt resp (own_response hp pkt) col_req_edns_dau = list_item opt" using assms(7,8) by (simp add: opt_item_def)
  moreover have "col_req_edns_dau \<in> set (filter (selects flds) cbor_columns)" using assms(6) by (simp add: cbor_columns_def selects_def)
  ultimately have "list_item opt \<in> set ?is" unfolding record_items_def by force
  then have "length (cbor_bytes (list_item opt)) \<le> length (cbor_bytes (Item_array ?is))" by (rule item_in_array)
  moreover have "Suc len \<le> length (cbor_bytes (list_item opt))"
    using array_length_ge [of "map (\<lambda>i. int_item (ucast (opt ! (4 + i + i)))) [0..<len]"] assms(9) by (simp add: list_item_def)
  ultimately have "\<not> length (cbor_bytes (Item_array ?is)) \<le> CBOR_BUF" using assms(10) by (simp add: CBOR_BUF_def del: cbor_bytes.simps)
  then show ?thesis using write_packet_reference [OF assms(1-5)] by (simp add: cbor_died_def Let_def del: cbor_bytes.simps)
qed

section \<open>Records that fit\<close>

lemma int_item_length: "length (cbor_bytes (int_item w)) \<le> 9"
  by (simp add: int_item_def length_cbor_head)

lemma simple_item_length: "length (cbor_bytes null_item) \<le> 9" "length (cbor_bytes (bool_item b)) \<le> 9"
  by (simp_all add: null_item_def bool_item_def length_cbor_head)

lemma opt_item_length:
  "(\<And>y. x = Some y \<Longrightarrow> length (cbor_bytes (f y)) \<le> n) \<Longrightarrow> 9 \<le> n \<Longrightarrow> length (cbor_bytes (opt_item x f)) \<le> n"
  using simple_item_length(1) by (cases x) (auto simp: opt_item_def simp del: cbor_bytes.simps)

definition item_bound :: "dns_column \<Rightarrow> nat" where
  "item_bound c = (case c of col_client_addr \<Rightarrow> 58 | col_server_addr \<Rightarrow> 58 | col_qname \<Rightarrow> 1032
     | col_req_edns_dau \<Rightarrow> 369 | col_req_edns_dhu \<Rightarrow> 369 | col_req_edns_n3u \<Rightarrow> 369 | col_resp_edns_nsid \<Rightarrow> 265 | _ \<Rightarrow> 9)"

definition cbor_small :: "text_lib \<Rightarrow> dns_packet \<Rightarrow> dns_packet option \<Rightarrow> bool" where
  "cbor_small L pkt resp \<longleftrightarrow>
     length (inet_ntop L (DNS_PACKET_AF pkt) (DNS_PACKET_CLIENT_ADDR pkt)) \<le> 49 \<and>
     length (inet_ntop L (DNS_PACKET_AF pkt) (DNS_PACKET_SERVER_ADDR pkt)) \<le> 49 \<and>
     (\<forall>t. knot_dname_to_str L (knot_qname (knot_packet pkt)) = Some t \<longrightarrow> length t \<le> 1023) \<and>
     (\<forall>rr code opt. req_opt_rr pkt = Some rr \<longrightarrow> code \<in> {5, 6, 7} \<longrightarrow> edns_option rr code = Some opt \<longrightarrow>
        projr (knot_edns_opt_get_length opt) \<le> 40) \<and>
     (\<forall>rr opt. resp_opt_rr resp = Some rr \<longrightarrow> edns_option rr 3 = Some opt \<longrightarrow> projr (knot_edns_opt_get_length opt) \<le> 256)"

lemma list_item_length: "projr (knot_edns_opt_get_length opt) \<le> 40 \<Longrightarrow> length (cbor_bytes (list_item opt)) \<le> 369"
proof -
  let ?n = "projr (knot_edns_opt_get_length opt)"
  assume "?n \<le> 40"
  moreover have "length (concat (map (\<lambda>i. cbor_bytes (int_item (ucast (opt ! (4 + i + i))))) [0..<?n])) \<le> 9 * length [0..<?n]"
    by (rule concat_length_le) (rule int_item_length)
  ultimately show ?thesis
    using length_cbor_head(2) [of "0x80" "of_nat ?n"] by (simp add: list_item_def comp_def)
qed

lemma nsid_item_length: "projr (knot_edns_opt_get_length opt) \<le> 256 \<Longrightarrow> length (cbor_bytes (nsid_item opt)) \<le> 265"
proof -
  let ?bs = "take (projr (knot_edns_opt_get_length opt)) (drop 4 opt)"
  assume "projr (knot_edns_opt_get_length opt) \<le> 256"
  then have "length ?bs \<le> 256" by simp
  then have "length (cbor_head 0x40 (of_nat (length ?bs))) + length ?bs \<le> 9 + 256" by (rule add_mono [OF length_cbor_head(2)])
  then show ?thesis by (simp only: nsid_item_def cbor_bytes.simps length_append)
qed

lemma column_item_length:
  assumes "cbor_small L pkt resp"
  shows "length (cbor_bytes (column_item L pkt resp own c)) \<le> item_bound c"
proof -
  have lists: "length (cbor_bytes (opt_item (req_opt_rr pkt) (\<lambda>rr. opt_item (edns_option rr code) list_item))) \<le> 369"
    if "code \<in> {5, 6, 7}" for code
    by (intro opt_item_length list_item_length) (use assms that in \<open>auto simp: cbor_small_def\<close>)
  have nsid: "length (cbor_bytes (opt_item (resp_opt_rr resp) (\<lambda>rr. opt_item (edns_option rr 3) nsid_item))) \<le> 265"
    by (intro opt_item_length nsid_item_length) (use assms in \<open>auto simp: cbor_small_def\<close>)
  have addr: "length (cbor_bytes (text_item (inet_ntop L (DNS_PACKET_AF pkt) (DNS_PACKET_CLIENT_ADDR pkt)))) \<le> 58"
    "length (cbor_bytes (text_item (inet_ntop L (DNS_PACKET_AF pkt) (DNS_PACKET_SERVER_ADDR pkt)))) \<le> 58"
    using assms text_item_length [of "inet_ntop L (DNS_PACKET_AF pkt) (DNS_PACKET_CLIENT_ADDR pkt)"]
      text_item_length [of "inet_ntop L (DNS_PACKET_AF pkt) (DNS_PACKET_SERVER_ADDR pkt)"]
    by (simp_all add: cbor_small_def del: cbor_bytes.simps)
  have name: "length (cbor_bytes (opt_item (knot_dname_to_str L (knot_qname (knot_packet pkt))) text_item)) \<le> 1032"
    by (rule opt_item_length, rule le_trans [OF text_item_length]) (use assms in \<open>auto simp: cbor_small_def\<close>)
  have dbl: "length (cbor_bytes (Item_double d)) \<le> 9" for d by simp
  have be16: "length (cbor_bytes (be16_item m k)) \<le> 9" for m k unfolding be16_item_def by (rule int_item_length)
  note special = lists [of 5] lists [of 6] lists [of 7] nsid addr name dbl be16
  show ?thesis
  proof (cases c)
    case col_net_ttl
    then show ?thesis by (simp add: item_bound_def int_item_length simple_item_length del: cbor_bytes.simps)
  next
    case col_req_udp_sum
    have "length (cbor_bytes (opt_item (DNS_PACKET_REQUEST pkt) (\<lambda>q. int_item (ucast (net_udp_sum q))))) \<le> 9"
      by (intro opt_item_length int_item_length order_refl)
    then show ?thesis using col_req_udp_sum by (simp add: item_bound_def simple_item_length del: cbor_bytes.simps)
  qed (hypsubst, unfold column_item.simps item_bound_def dns_column.case,
      ((rule special; simp) | (intro special opt_item_length int_item_length simple_item_length order_refl)))+
qed

lemma record_fits:
  assumes "cbor_small L pkt resp"
  shows "length (cbor_bytes (Item_array (record_items L flds pkt resp own))) \<le> CBOR_BUF"
proof -
  have le: "length (concat (map f (filter P xs))) \<le> sum_list (map g xs)" if "\<And>c. length (f c) \<le> g c" for f :: "dns_column \<Rightarrow> u8 list" and g P xs
  proof (induction xs)
    case (Cons x xs)
    then show ?case using that [of x] by simp
  qed simp
  have "length (concat (map (\<lambda>c. cbor_bytes (column_item L pkt resp own c)) (filter (selects flds) cbor_columns)))
      \<le> sum_list (map item_bound cbor_columns)"
    by (rule le) (rule column_item_length [OF assms])
  moreover have "sum_list (map item_bound cbor_columns) \<le> 4000" by (simp add: cbor_columns_def item_bound_def)
  ultimately show ?thesis
    using length_cbor_head(2) [of "0x80" "of_nat (length (filter (selects flds) cbor_columns))"]
    by (simp add: record_items_def comp_def CBOR_BUF_def)
qed

lemma cbor_good_small:
  assumes "packet_ok hp p" and "hp p = Some pkt" and "DNS_PACKET_RESPONSE hp pkt = Inr resp"
    and "cbor_readable pkt resp" and "known_fields flds" and "cbor_small L pkt resp"
  shows "cbor_good L flds hp p"
    and "cbor_rec L flds hp p = cbor_bytes (Item_array (record_items L flds pkt resp (own_response hp pkt)))"
  using write_packet_reference [OF assms(1-5), of L] record_fits [OF assms(6), of flds "own_response hp pkt"] assms(2)
  by (simp_all add: cbor_good_def cbor_rec_def Let_def del: cbor_bytes.simps)

lemma known_all_fields: "known_fields all_fields"
proof -
  have all: "all_fields = mask dns_of_LAST" by (simp add: all_fields_def dns_of_LAST_def mask_eq_exp_minus_1)
  show ?thesis unfolding all known_fields_def by (simp add: bit_mask_iff)
qed

lemma ex_cbor_readable:
  "cbor_readable ((ex_packet 10 False)\<lparr>response := Some 2\<rparr>) (Some ((ex_packet 20 True)\<lparr>dns_data := replicate 12 0\<rparr>))"
  "cbor_small ex_text_lib ((ex_packet 10 False)\<lparr>response := Some 2\<rparr>) (Some ((ex_packet 20 True)\<lparr>dns_data := replicate 12 0\<rparr>))"
  by (simp_all add: cbor_readable_def cbor_small_def ex_text_lib_def ex_packet_def ex_knot_def ex_addr_def req_opt_rr_def resp_opt_rr_def
      DNS_PACKET_REQUEST_def DNS_SOCKADDR_AF_def split: if_splits)

lemma ex_cbor_good: "cbor_good ex_text_lib all_fields ex_out_heap 1"
  by (rule cbor_good_small(1) [OF ex_out_heap_read(1,2,3) ex_cbor_readable(1) known_all_fields ex_cbor_readable(2)])


definition ex_long_packet :: dns_packet where
  "ex_long_packet = (ex_packet 10 False)\<lparr>knot_packet := (ex_knot False)\<lparr>opt_rr := Some \<lparr>edns_version = 0, edns_payload = 4096,
     edns_do = False, edns_ext_rcode = 0, edns_option = [5 \<mapsto> [0, 5, 16, 0] @ replicate 8192 0]\<rparr>\<rparr>\<rparr>"

theorem cbor_long_list_dies_witness:
  "write_packet_cbor ex_text_lib [1 \<mapsto> ex_long_packet] all_fields (Some ex_long_packet)
     = Inl (Died (''CBOR error: '' @ ''out of memory/need more memory''))"
proof -
  let ?opt = "[0, 5, 16, 0] @ replicate 8192 0 :: u8 list"
  have len: "knot_edns_opt_get_length ?opt = Inr 4096" by (simp add: knot_edns_opt_get_length_def load_be16_def)
  have all: "field_set all_fields dns_field_edns" by (simp add: field_set_def all_fields_def dns_of_LAST_def)
  obtain rr where rr: "req_opt_rr ex_long_packet = Some rr" "edns_option rr 5 = Some ?opt" "\<And>code. code \<noteq> 5 \<Longrightarrow> edns_option rr code = None"
    by (simp add: ex_long_packet_def req_opt_rr_def DNS_PACKET_REQUEST_def DNS_PACKET_IS_RESPONSE_def DNS_PACKET_IS_REQUEST_def ex_packet_def ex_knot_def)
  have pk: "packet_ok [1 \<mapsto> ex_long_packet] 1" "DNS_PACKET_RESPONSE [1 \<mapsto> ex_long_packet] ex_long_packet = Inr None"
    by (simp_all add: packet_ok_def ex_long_packet_def ex_packet_def ex_knot_def DNS_PACKET_RESPONSE_def DNS_PACKET_IS_RESPONSE_def)
  have r: "list_readable ?opt" using len by (simp add: list_readable_def)
  have "list_readable o'" if "edns_option rr code = Some o'" for code o'
    using rr(2) rr(3) [of code] that r by (cases "code = 5") auto
  then have rd: "cbor_readable ex_long_packet None"
    using rr(1) by (simp add: cbor_readable_def resp_opt_rr_def ex_long_packet_def ex_packet_def ex_addr_def DNS_SOCKADDR_AF_def)
  show ?thesis
    by (rule cbor_long_list_dies [OF pk(1) _ pk(2) rd known_all_fields all rr(1,2) len]) simp_all
qed

lemma cbor_output_run:
  assumes "os_ok E" and "frame_type g = 1" and "fr_count g = 0" and "fr_packets g = []"
    and "flds = cbor_fields conf" and "known_fields flds" and "frames_writable (cbor_good L flds) hp fs"
  shows "\<exists>b gs. dns_output_main E (cbor_hooks L) (dns_output_cbor_create hp conf (fs @ [g])) = Some (Inr b) \<and>
    ot_out_file b = None \<and> dns_output_finalize b = Inr () \<and>
    ot_files b = map (file_of (cbor_bytes (Item_array (header_items flds))) (cbor_rec L flds hp)) gs \<and>
    concat (map snd gs) = concat (map fr_packets fs) \<and> output_counts hp (concat (map fr_packets fs)) b"
proof -
  let ?out = "dns_output_cbor_create hp conf (fs @ [g])" and ?m = "dns_output.more (dns_output_cbor_create hp conf (fs @ [g]))"
  have set: "cbor_flds (cbor_of ?m) = flds" "ot_in ?out = fs @ [g]" "ot_heap ?out = hp"
    using assms(5) by (simp_all add: cbor_of_def dns_output_cbor_create_def dns_output.defs dns_output_cbor.defs dns_output_init_def)
  have inv: "output_inv (cbor_bytes (Item_array (header_items flds))) (cbor_rec L flds hp) hp [] ?out"
    by (simp add: output_inv_def output_counts_def dns_output_cbor_create_def dns_output.defs dns_output_cbor.defs dns_output_init_def)
  show ?thesis
    by (rule cbor.main_ok [OF assms(1-4), of ?out fs L, unfolded set, OF refl assms(7) inv assms(6)])
qed



end
