(* ===== verification/Collector.thy ===== *)
theory Collector
  imports Input Output_Csv Output_Cbor
begin

text \<open>
  \<^verbatim>\<open>src/main.c\<close>: the command line and the configuration, and the workflow of input, matcher and output.
  The three run in threads of their own and talk through queues that block when they are full and
  keep the order of the frames, so what a thread sends depends only on the sequence of frames that
  it receives (theory \<open>Matcher_Pipeline\<close>); the workflow is therefore run one thread after the other,
  each on all frames of the one before it.

  The environment has what the threads get from outside: the libtrace events and the clock of the
  input, whether the files can be opened, the random numbers and the name comparison of the
  matcher, and the operating system and the text libraries of the output.
\<close>

section \<open>The program\<close>

record collector_env =
  co_input :: input_env
  co_fopen :: "nat \<Rightarrow> bool"
  co_open :: "nat \<Rightarrow> open_env"
  co_events :: "nat \<Rightarrow> trace_event list"
  co_dname_eq :: "u8 list \<Rightarrow> u8 list \<Rightarrow> bool"
  co_random1 :: u64
  co_random2 :: u64
  co_os :: os_env
  co_text :: text_lib

text \<open>The configuration with the options of the command line; \<open>Inl\<close> is the exit status of \<open>opt_failure\<close>.\<close>

definition main_configure ::
    "dns_config \<Rightarrow> u8 list option \<Rightarrow> u8 list option \<Rightarrow> u8 list list \<Rightarrow> (int + dns_config) res" where
  "main_configure conf main_interface main_output_path main_inputs =
     (let conf = (case main_interface of None \<Rightarrow> conf | Some uri \<Rightarrow> conf\<lparr>input_uri := uri\<rparr>) in
      if main_interface \<noteq> None \<and> main_inputs \<noteq> [] then Inr (Inl 2)
      else
        let conf = (case main_output_path of None \<Rightarrow> conf | Some path \<Rightarrow> conf\<lparr>output_path_fmt := path\<rparr>) in
        if output_path_fmt conf = [] then Inl (Died ''Configure the output with '-o' or config 'output_path_fmt'.'')
        else if main_inputs = [] \<and> input_uri conf = [] then Inr (Inl 2)
        else Inr (Inr conf))"

text \<open>\<open>snprintf(fn, sizeof(fn), "pcapfile:%s", *in)\<close>\<close>

definition pcapfile_uri :: "u8 list \<Rightarrow> u8 list" where
  "pcapfile_uri name = take 1023 (text_bytes ''pcapfile:'' @ name)"

text \<open>The loop over the files: file \<open>k\<close> is next. The result of processing a file is only logged.\<close>

fun main_offline :: "collector_env \<Rightarrow> nat \<Rightarrow> u8 list list \<Rightarrow> dns_input \<Rightarrow> dns_input run" where
  "main_offline E k [] input = Some (Inr input)"
| "main_offline E k (name # names) input =
     (if \<not> co_fopen E k
      then (if k = 0 then Some (Inl (Died ''No output written.'')) else Some (Inr input))
      else bindo (dns_input_process (co_input E) (co_open E k) (co_events E k) input (Some (pcapfile_uri name)))
        (\<lambda>(r, input). main_offline E (Suc k) names input))"

definition main_live :: "collector_env \<Rightarrow> dns_input \<Rightarrow> dns_input run" where
  "main_live E input =
     bindo (dns_input_process (co_input E) (co_open E 0) (co_events E 0) (input\<lparr>in_online := True\<rparr>) None)
       (\<lambda>(r, input). Some (Inr input))"

text \<open>The output that the configuration selects, until it is finalized: the files that it wrote.\<close>

definition main_output :: "collector_env \<Rightarrow> dns_config \<Rightarrow> heap \<Rightarrow> dns_packet_frame list \<Rightarrow> (u8 list \<times> u8 list) list run" where
  "main_output E conf hp frames =
     (if output_type conf = DNS_OUTPUT_TYPE_CSV then
        bindo (dns_output_main (co_os E) (csv_hooks (co_text E) (co_os E)) (dns_output_csv_create hp conf frames)) (\<lambda>out.
        bindo (Some (dns_output_finalize out)) (\<lambda>_. Some (Inr (ot_files out))))
      else if output_type conf = DNS_OUTPUT_TYPE_CBOR then
        bindo (dns_output_main (co_os E) (cbor_hooks (co_text E)) (dns_output_cbor_create hp conf frames)) (\<lambda>out.
        bindo (Some (dns_output_finalize out)) (\<lambda>_. Some (Inr (ot_files out))))
      else Some (Inl (Died ''Invalid output type'')))"

definition main_workflow :: "collector_env \<Rightarrow> dns_config \<Rightarrow> u8 list list \<Rightarrow> (u8 list \<times> u8 list) list run" where
  "main_workflow E conf main_inputs =
     bindo (Some (dns_input_create Map.empty 1 conf)) (\<lambda>input.
     bindo (if main_inputs \<noteq> [] then main_offline E 0 main_inputs input else main_live E input) (\<lambda>input.
     bindo (Some (dns_input_finish (co_input E) input)) (\<lambda>input.
     bindo (matcher_run (co_dname_eq E) (co_random1 E) (co_random2 E) (in_heap input) conf (in_output input)) (\<lambda>pm.
     bindo (main_output E conf (pm_heap pm) (case pm_out pm of None \<Rightarrow> [] | Some fs \<Rightarrow> fs)) (\<lambda>files.
     bindo (Some (dns_input_destroy input)) (\<lambda>_. Some (Inr files)))))))"

text \<open>The whole of \<open>main\<close>: the exit status and the files.\<close>

definition collector_main ::
    "collector_env \<Rightarrow> dns_config \<Rightarrow> u8 list option \<Rightarrow> u8 list option \<Rightarrow> u8 list list \<Rightarrow> (int \<times> (u8 list \<times> u8 list) list) run" where
  "collector_main E conf main_interface main_output_path main_inputs =
     bindo (Some (main_configure conf main_interface main_output_path main_inputs)) (\<lambda>c.
       case c of
         Inl status \<Rightarrow> Some (Inr (status, []))
       | Inr conf \<Rightarrow> bindo (main_workflow E conf main_inputs) (\<lambda>files. Some (Inr (0, files))))"

section \<open>Packets that fit\<close>

text \<open>A packet on its own is within the limits of both writers.\<close>

definition packet_fits :: "text_lib \<Rightarrow> dns_packet \<Rightarrow> bool" where
  "packet_fits L pkt \<longleftrightarrow> \<bar>ts pkt\<bar> < 2 ^ 63 \<and> DNS_SOCKADDR_AF (src_addr pkt) \<in> {AF_INET, AF_INET6} \<and>
     length (inet_ntop L (DNS_PACKET_AF pkt) (DNS_PACKET_CLIENT_ADDR pkt)) \<le> 49 \<and>
     length (inet_ntop L (DNS_PACKET_AF pkt) (DNS_PACKET_SERVER_ADDR pkt)) \<le> 49 \<and>
     (\<forall>t. knot_dname_to_str L (knot_qname (knot_packet pkt)) = Some t \<longrightarrow> length t \<le> 1023) \<and>
     (DNS_PACKET_IS_RESPONSE pkt \<longrightarrow> 12 \<le> length (dns_data pkt)) \<and>
     (\<forall>rr code opt. opt_rr (knot_packet pkt) = Some rr \<longrightarrow> code \<in> {5, 6, 7} \<longrightarrow> edns_option rr code = Some opt \<longrightarrow> list_small opt) \<and>
     (\<forall>rr opt. opt_rr (knot_packet pkt) = Some rr \<longrightarrow> edns_option rr 3 = Some opt \<longrightarrow> nsid_small opt)"

lemma packet_fits_forget: "packet_fits L (forget pkt) = packet_fits L pkt"
  by (simp add: packet_fits_def forget_def packet_getter_defs DNS_PACKET_CLIENT_ADDR_def DNS_PACKET_SERVER_ADDR_def)

lemma fits_csv_small:
  assumes "packet_fits L pkt" and "\<And>r. resp = Some r \<Longrightarrow> packet_fits L r \<and> DNS_PACKET_IS_RESPONSE r"
    and "\<And>r. own = Some r \<Longrightarrow> packet_fits L r"
  shows "csv_small L pkt resp own"
  using assms unfolding csv_small_def packet_fits_def req_opt_rr_def resp_opt_rr_def DNS_PACKET_REQUEST_def
  by (auto split: option.splits if_splits)

lemma list_small_readable: "list_small opt \<Longrightarrow> list_readable opt" "list_small opt \<Longrightarrow> projr (knot_edns_opt_get_length opt) \<le> 40"
  by (auto simp: list_small_def list_readable_def split: sum.splits)

lemma nsid_small_readable: "nsid_small opt \<Longrightarrow> nsid_readable opt" "nsid_small opt \<Longrightarrow> projr (knot_edns_opt_get_length opt) \<le> 256"
  by (auto simp: nsid_small_def nsid_readable_def split: sum.splits)

lemma fits_cbor_small:
  assumes "packet_fits L pkt" and "\<And>r. resp = Some r \<Longrightarrow> packet_fits L r \<and> DNS_PACKET_IS_RESPONSE r"
  shows "cbor_readable pkt resp" and "cbor_small L pkt resp"
proof -
  have req: "list_small opt" if "req_opt_rr pkt = Some rr" "code \<in> {5, 6, 7}" "edns_option rr code = Some opt" for rr code opt
    using assms(1) that unfolding packet_fits_def req_opt_rr_def DNS_PACKET_REQUEST_def by (auto split: if_splits)
  have rsp: "nsid_small opt" if "resp_opt_rr resp = Some rr" "edns_option rr 3 = Some opt" for rr opt
    using assms(2) that unfolding packet_fits_def resp_opt_rr_def by (auto split: option.splits)
  have "12 \<le> length (dns_data r)" if "resp = Some r" for r using assms(2) [OF that] by (simp add: packet_fits_def)
  moreover have "DNS_SOCKADDR_AF (src_addr pkt) \<in> {AF_INET, AF_INET6}"
    using assms(1) by (simp add: packet_fits_def)
  ultimately show "cbor_readable pkt resp"
    using req rsp list_small_readable(1) nsid_small_readable(1) unfolding cbor_readable_def by blast
  show "cbor_small L pkt resp"
    using assms(1) req rsp list_small_readable(2) nsid_small_readable(2) unfolding cbor_small_def packet_fits_def by blast
qed

section \<open>From the matcher to the output\<close>

lemma same_packets_at: "same_packets hp0 hp \<Longrightarrow> hp0 p = Some pkt0 \<Longrightarrow> \<exists>pkt. hp p = Some pkt \<and> forget pkt = forget pkt0"
proof -
  assume "same_packets hp0 hp" "hp0 p = Some pkt0"
  then have "map_option forget (hp p) = Some (forget pkt0)" unfolding same_packets_def by (metis option.simps(9))
  then show ?thesis by auto
qed

lemma packet_forget_eqD:
  "forget a = forget b \<Longrightarrow> packet_fits L a = packet_fits L b" "forget a = forget b \<Longrightarrow> ts a = ts b"
  "forget a = forget b \<Longrightarrow> DNS_PACKET_IS_RESPONSE a = DNS_PACKET_IS_RESPONSE b"
  using packet_fits_forget [of L] forget_simps by metis+

lemma matched_packet:
  assumes acc: "accounted deq mq hp0 seen hp st" and fresh: "\<forall>p \<in> set seen. fresh hp0 p"
    and fits: "\<forall>p \<in> set seen. \<forall>pkt. hp0 p = Some pkt \<longrightarrow> packet_fits L pkt" and p: "p \<in> set st"
  shows "\<exists>pkt resp. hp p = Some pkt \<and> packet_ok hp p \<and> DNS_NO_TIME < ts pkt \<and> DNS_PACKET_RESPONSE hp pkt = Inr resp \<and>
    csv_small L pkt resp (own_response hp pkt) \<and> cbor_readable pkt resp \<and> cbor_small L pkt resp"
proof -
  have sub: "set st \<subseteq> set seen" using accounted_set [OF acc] by blast
  have same: "same_packets hp0 hp" using acc by (simp add: accounted_def)
  have at: "\<exists>pkt. hp q = Some pkt \<and> packet_fits L pkt \<and> DNS_NO_TIME < ts pkt \<and> (is_response hp0 q \<longrightarrow> DNS_PACKET_IS_RESPONSE pkt)"
    if q: "q \<in> set seen" for q
  proof -
    have "fresh hp0 q" using fresh q by blast
    then obtain q0 where q0: "hp0 q = Some q0" "DNS_NO_TIME < ts q0" by (auto simp: fresh_def is_packet_def split: option.splits)
    obtain pkt where pkt: "hp q = Some pkt" "forget pkt = forget q0" using same_packets_at [OF same q0(1)] by blast
    have "is_response hp0 q \<longrightarrow> DNS_PACKET_IS_RESPONSE q0" using q0(1) by (simp add: is_response_def)
    then show ?thesis using pkt q0 fits q packet_forget_eqD [OF pkt(2)] by simp
  qed
  obtain pkt where pkt: "hp p = Some pkt" "packet_fits L pkt" "DNS_NO_TIME < ts pkt" using at p sub by blast
  have own: "\<exists>rp. hp r = Some rp \<and> response rp = None \<and> packet_fits L rp \<and> DNS_PACKET_IS_RESPONSE rp" if "response pkt = Some r" for r
  proof -
    have ro: "response_of hp p = Some r" using pkt(1) that by (simp add: response_of_def)
    then have "r \<in> answered hp st" using p by (auto simp: answered_def)
    moreover have "pair_ok deq mq hp0 p r" using acc ro p unfolding accounted_def by blast
    ultimately have "r \<in> set seen" "response_of hp r = None" "is_response hp0 r"
      using acc unfolding accounted_def pair_ok_def by blast+
    then show ?thesis using at [of r] by (auto simp: response_of_def)
  qed
  have ok: "packet_ok hp p" using pkt(1) own by (auto simp: packet_ok_def split: option.split)
  define resp where "resp = (if DNS_PACKET_IS_RESPONSE pkt then Some pkt else own_response hp pkt)"
  have o: "packet_fits L r \<and> DNS_PACKET_IS_RESPONSE r" if "own_response hp pkt = Some r" for r
    using that own by (auto simp: own_response_def split: option.splits)
  have r: "packet_fits L r \<and> DNS_PACKET_IS_RESPONSE r" if "resp = Some r" for r
    using that o pkt(2) by (auto simp: resp_def split: if_splits)
  have "DNS_PACKET_RESPONSE hp pkt = Inr resp"
    using own by (auto simp: DNS_PACKET_RESPONSE_def resp_def own_response_def deref_def split: option.splits)
  then show ?thesis
    using pkt ok fits_csv_small [OF pkt(2), of resp "own_response hp pkt"] fits_cbor_small [OF pkt(2), of resp] r o by blast
qed

lemma frames_for_output:
  assumes acc: "accounted deq mq hp0 seen hp (concat (map fr_packets fs))" and d: "distinct seen"
    and fresh: "\<forall>p \<in> set seen. fresh hp0 p" and fits: "\<forall>p \<in> set seen. \<forall>pkt. hp0 p = Some pkt \<longrightarrow> packet_fits L pkt"
    and fine: "\<forall>g \<in> set fs. frame_fine hp dur sz g"
  shows "frames_writable (csv_good L flds sep) hp fs" and "known_fields flds \<Longrightarrow> frames_writable (cbor_good L flds) hp fs"
proof -
  have dis: "distinct (owned_all hp (concat (map fr_packets fs)))"
    using accounted_owned [OF acc d] d mset_eq_imp_distinct_iff by blast
  have fr: "frame_type f \<noteq> 1 \<and> fr_count f = length (fr_packets f) \<and> DNS_NO_TIME < time_start f" if "f \<in> set fs" for f
    using fine that by (auto simp: frame_fine_def wf_frame_def)
  have pk: "packet_ok hp p \<and> DNS_NO_TIME < ts (the (hp p)) \<and> csv_good L flds sep hp p \<and> (known_fields flds \<longrightarrow> cbor_good L flds hp p)"
    if f: "f \<in> set fs" "p \<in> set (fr_packets f)" for f p
  proof -
    have "p \<in> set (concat (map fr_packets fs))" using f by auto
    from matched_packet [OF acc fresh fits this] obtain pkt resp where k: "hp p = Some pkt" "packet_ok hp p" "DNS_NO_TIME < ts pkt"
      "DNS_PACKET_RESPONSE hp pkt = Inr resp" "csv_small L pkt resp (own_response hp pkt)" "cbor_readable pkt resp" "cbor_small L pkt resp"
      by blast
    have "csv_good L flds sep hp p" using csv_packet_small [OF k(2,1,4,5), of flds sep] k(1) by (auto simp: csv_good_def)
    then show ?thesis using k cbor_good_small(1) [OF k(2,1,4,6) _ k(7)] by simp
  qed
  show "frames_writable (csv_good L flds sep) hp fs" "known_fields flds \<Longrightarrow> frames_writable (cbor_good L flds) hp fs"
    using dis fr pk by (auto simp: frames_writable_def)
qed

section \<open>The workflow\<close>

text \<open>The traces that are processed, and the packets that they give.\<close>

definition processed :: "collector_env \<Rightarrow> u8 list list \<Rightarrow> nat list" where
  "processed E main_inputs = (if main_inputs = [] then [0] else takeWhile (co_fopen E) [0..<length main_inputs])"

definition collected :: "collector_env \<Rightarrow> nat list \<Rightarrow> dns_packet list" where
  "collected E ks = concat (map (\<lambda>k. accepted (ie_knot (co_input E)) (co_events E k)) ks)"

definition trace_fine :: "int \<Rightarrow> collector_env \<Rightarrow> nat \<Rightarrow> bool" where
  "trace_fine M E k \<longleftrightarrow> open_ok (co_open E k) \<and> (\<forall>input. opens (co_open E k) input) \<and>
     (\<forall>ev \<in> set (co_events E k). event_ok (ie_knot (co_input E)) M ev) \<and> (\<exists>ev \<in> set (co_events E k). ends_reading ev)"

definition collector_ready :: "int \<Rightarrow> collector_env \<Rightarrow> dns_config \<Rightarrow> u8 list list \<Rightarrow> bool" where
  "collector_ready M E conf main_inputs \<longleftrightarrow> 0 \<le> M \<and> clock_ok (co_input E) \<and> input_conf_ok conf \<and>
     0 < dns_fsec_to_us_time (match_window_sec conf) \<and> 0x100 < co_random1 E + push_bit 32 (co_random2 E) \<and> os_ok (co_os E) \<and>
     (output_type conf = DNS_OUTPUT_TYPE_CSV \<or> output_type conf = DNS_OUTPUT_TYPE_CBOR \<and> known_fields (cbor_fields conf)) \<and>
     co_fopen E 0 \<and> (\<forall>k \<in> set (processed E main_inputs). trace_fine M E k)"

lemma offline_ok:
  assumes "clock_ok (co_input E)" and "\<forall>j \<in> set (takeWhile (co_fopen E) [k..<k + length names]). trace_fine M E j"
    and "input_ready M input" and "\<not> in_online input" and "0 < k \<or> co_fopen E 0"
  shows "\<exists>i. main_offline E k names input = Some (Inr i) \<and> input_ready M i \<and>
    in_content i = in_content input @ map Some (collected E (takeWhile (co_fopen E) [k..<k + length names]))"
  using assms(2-)
proof (induction names arbitrary: k input)
  case Nil
  then show ?case by (simp add: collected_def)
next
  case (Cons name names)
  have u: "[k..<k + length (name # names)] = k # [Suc k..<Suc k + length names]"
    using upt_conv_Cons [of k "k + length (name # names)"] by simp
  show ?case
  proof (cases "co_fopen E k")
    case True
    then have t: "trace_fine M E k" using Cons.prems(1) unfolding u by simp
    obtain r i where i: "dns_input_process (co_input E) (co_open E k) (co_events E k) input (Some (pcapfile_uri name)) = Some (Inr (r, i))"
      "input_ready M i" "in_content i = in_content input @ map Some (accepted (ie_knot (co_input E)) (co_events E k))" "in_online i = in_online input"
      using process_ok [OF assms(1) Cons.prems(2), of "co_open E k" "Some (pcapfile_uri name)" "co_events E k"] t Cons.prems(3)
      by (auto simp: trace_fine_def)
    obtain j where "main_offline E (Suc k) names i = Some (Inr j)" "input_ready M j"
      "in_content j = in_content i @ map Some (collected E (takeWhile (co_fopen E) [Suc k..<Suc k + length names]))"
      using Cons.IH [of "Suc k" i] Cons.prems(1,3) i(2,4) True unfolding u by auto
    then show ?thesis using True i(1,3) unfolding u by (simp add: collected_def)
  next
    case False
    then have "k \<noteq> 0" using Cons.prems(4) by (cases "k = 0") auto
    then show ?thesis using False Cons.prems(2) unfolding u by (simp add: collected_def)
  qed
qed

lemma live_ok:
  assumes "clock_ok (co_input E)" and "trace_fine M E 0" and "input_ready M input"
  shows "\<exists>i. main_live E input = Some (Inr i) \<and> input_ready M i \<and>
    in_content i = in_content input @ map Some (collected E [0])"
proof -
  let ?o = "input\<lparr>in_online := True\<rparr>"
  have inv: "input_inv ?o = input_inv input" "in_content ?o = in_content input"
    by (rule input_inv_cong; simp add: settings_ok_def)+
  then have "input_ready M ?o" using assms(3) by (simp add: input_ready_def dumper_ok_def)
  then obtain r i where "dns_input_process (co_input E) (co_open E 0) (co_events E 0) ?o None = Some (Inr (r, i))"
    "input_ready M i" "in_content i = in_content ?o @ map Some (accepted (ie_knot (co_input E)) (co_events E 0))"
    using process_ok [OF assms(1), of M ?o "co_open E 0" None "co_events E 0"] assms(2) by (auto simp: trace_fine_def)
  then show ?thesis using inv(2) by (simp add: main_live_def collected_def)
qed

lemma reading_ok:
  assumes "collector_ready M E conf main_inputs" and "input_ready M input" and "\<not> in_online input" and "in_content input = []"
  shows "\<exists>i. (if main_inputs \<noteq> [] then main_offline E 0 main_inputs input else main_live E input) = Some (Inr i) \<and>
    input_ready M i \<and> in_content i = map Some (collected E (processed E main_inputs))"
  using offline_ok [of E 0 main_inputs M input] live_ok [of E M input] assms
  by (cases "main_inputs = []") (auto simp: collector_ready_def processed_def)

text \<open>The header and the record that the configured writer puts into its files.\<close>

definition output_header :: "text_lib \<Rightarrow> dns_config \<Rightarrow> u8 list" where
  "output_header L conf =
     (if output_type conf = DNS_OUTPUT_TYPE_CSV
      then (if csv_inline_header conf \<noteq> 0 then csv_header_line L (csv_fields conf) (c_char (csv_separator conf ! 0)) else [])
      else cbor_bytes (Item_array (header_items (cbor_fields conf))))"

definition output_record :: "text_lib \<Rightarrow> dns_config \<Rightarrow> heap \<Rightarrow> pid \<Rightarrow> u8 list" where
  "output_record L conf hp p =
     (if output_type conf = DNS_OUTPUT_TYPE_CSV then csv_line L (csv_fields conf) (c_char (csv_separator conf ! 0)) hp p
      else cbor_rec L (cbor_fields conf) hp p)"

lemma output_ok:
  assumes "os_ok (co_os E)"
    and type: "output_type conf = DNS_OUTPUT_TYPE_CSV \<or> output_type conf = DNS_OUTPUT_TYPE_CBOR \<and> known_fields (cbor_fields conf)"
    and fr: "frames_writable (csv_good (co_text E) (csv_fields conf) (c_char (csv_separator conf ! 0))) hp fs"
    "known_fields (cbor_fields conf) \<Longrightarrow> frames_writable (cbor_good (co_text E) (cbor_fields conf)) hp fs"
  shows "\<exists>gs. main_output E conf hp (fs @ [dns_packet_frame_create_final t])
      = Some (Inr (map (file_of (output_header (co_text E) conf) (output_record (co_text E) conf hp)) gs)) \<and>
    concat (map snd gs) = concat (map fr_packets fs)"
proof -
  let ?g = "dns_packet_frame_create_final t"
  consider (csv) "output_type conf = DNS_OUTPUT_TYPE_CSV"
    | (cbor) "output_type conf \<noteq> DNS_OUTPUT_TYPE_CSV" "output_type conf = DNS_OUTPUT_TYPE_CBOR" "known_fields (cbor_fields conf)"
    using type by blast
  then show ?thesis
  proof cases
    case csv
    have r: "output_record (co_text E) conf hp = csv_line (co_text E) (csv_fields conf) (c_char (csv_separator conf ! 0)) hp"
      using csv by (simp add: output_record_def fun_eq_iff)
    show ?thesis
      using csv_output_run [OF assms(1) _ _ _ refl refl fr(1), of ?g] csv by (auto simp: main_output_def output_header_def r)
  next
    case cbor
    have r: "output_record (co_text E) conf hp = cbor_rec (co_text E) (cbor_fields conf) hp"
      using cbor(1) by (simp add: output_record_def fun_eq_iff)
    show ?thesis
      using cbor_output_run [OF assms(1) _ _ _ refl cbor(3) fr(2) [OF cbor(3)], of ?g] cbor
      by (auto simp: main_output_def output_header_def r simp del: cbor_bytes.simps)
  qed
qed

lemma input_frames_fresh: "input_ok hp fs \<Longrightarrow> \<forall>p \<in> set (concat (map fr_packets fs)). fresh hp p"
  using input_ok_pending by blast

lemma workflow_ok:
  assumes ready: "collector_ready M E conf main_inputs"
    and fits: "\<forall>pkt \<in> set (collected E (processed E main_inputs)). packet_fits (co_text E) pkt"
  shows "\<exists>hp0 hp seen gs. main_workflow E conf main_inputs
      = Some (Inr (map (file_of (output_header (co_text E) conf) (output_record (co_text E) conf hp)) gs)) \<and>
    distinct seen \<and> map hp0 seen = map Some (collected E (processed E main_inputs)) \<and>
    accounted (co_dname_eq E) (match_qname conf \<noteq> 0) hp0 seen hp (concat (map snd gs))"
proof -
  note rd = ready [unfolded collector_ready_def]
  obtain in0 where in0: "dns_input_create Map.empty 1 conf = Inr in0" "input_ready M in0" "\<not> in_online in0" "in_content in0 = []"
    using input_create_ready [of conf M Map.empty 1] rd by auto
  obtain in1 where in1: "(if main_inputs \<noteq> [] then main_offline E 0 main_inputs in0 else main_live E in0) = Some (Inr in1)"
    "input_ready M in1" "in_content in1 = map Some (collected E (processed E main_inputs))"
    using reading_ok [OF ready in0(2-4)] by blast
  obtain i fs t where i: "dns_input_finish (co_input E) in1 = Inr i" "in_output i = fs @ [dns_packet_frame_create_final t]"
    "in_heap i = in_heap in1" "input_ok (in_heap i) (in_output i)" "concat (map fr_packets (in_output i)) = in_pids in1"
    "distinct (in_pids in1)" "dns_input_destroy i = Inr ()"
    using finish_ok [OF _ in1(2), of "co_input E"] rd by blast
  have content: "map (in_heap i) (in_pids in1) = map Some (collected E (processed E main_inputs))"
    using in1(3) i(3) by (simp add: in_content_def)
  have "matcher_ready (co_random1 E) (co_random2 E) (in_heap i) conf (in_output i)"
    using rd i(4,5,6) by (simp add: matcher_ready_def input_conf_ok_def)
  then obtain pm gs t1 t2 where pm: "matcher_run (co_dname_eq E) (co_random1 E) (co_random2 E) (in_heap i) conf (in_output i) = Some (Inr pm)"
    "pm_out pm = Some (gs @ [dns_packet_frame_create_final t1])"
    "accounted (co_dname_eq E) (match_qname conf \<noteq> 0) (in_heap i) (concat (map fr_packets (in_output i))) (pm_heap pm) (concat (map fr_packets gs))"
    "contiguous gs t2"
    "\<forall>g \<in> set gs. frame_fine (pm_heap pm) (dns_fsec_to_us_time (max_frame_duration_sec conf)) (max_frame_size conf) g"
    by (rule matcher_run_ok)
  note acc = pm(3) [unfolded i(5)]
  have fresh: "\<forall>p \<in> set (in_pids in1). fresh (in_heap i) p" using input_frames_fresh [OF i(4)] i(5) by simp
  have "\<forall>p \<in> set (in_pids in1). \<forall>pkt. in_heap i p = Some pkt \<longrightarrow> packet_fits (co_text E) pkt"
  proof (intro ballI allI impI)
    fix p pkt assume "p \<in> set (in_pids in1)" "in_heap i p = Some pkt"
    then have "Some pkt \<in> set (map (in_heap i) (in_pids in1))" by force
    then show "packet_fits (co_text E) pkt" using fits unfolding content by auto
  qed
  note fr = frames_for_output [OF acc i(6) fresh this pm(5)]
  obtain files where "main_output E conf (pm_heap pm) (gs @ [dns_packet_frame_create_final t1])
      = Some (Inr (map (file_of (output_header (co_text E) conf) (output_record (co_text E) conf (pm_heap pm))) files))"
    "concat (map snd files) = concat (map fr_packets gs)"
    using output_ok [of E conf "pm_heap pm" gs t1] fr rd by blast
  then show ?thesis
    using in0(1) in1(1) i(1,7) pm(1,2) acc content i(6)
    by (intro exI [of _ "in_heap i"] exI [of _ "pm_heap pm"] exI [of _ "in_pids in1"] exI [of _ files]) (simp add: main_workflow_def)
qed


definition ex_collector_env :: collector_env where
  "ex_collector_env = \<lparr>co_input = ex_input_env, co_fopen = (\<lambda>k. True), co_open = (\<lambda>k. ex_open_env), co_events = (\<lambda>k. ex_events),
     co_dname_eq = (=), co_random1 = 1000003, co_random2 = 0, co_os = ex_os_env, co_text = ex_text_lib\<rparr>"

lemma ex_accepted_fits: "\<forall>pkt \<in> set (accepted ex_knot_lib ex_events). packet_fits ex_text_lib pkt"
  by (simp add: accepted_def ex_events_def ex_trace_def ex_knot_lib_def dns_packet_create_from_libtrace_def
      transport_payload_def parse_dns_def fill_net_def dns_packet_create_def ex_knot_def ex_addr_def
      TRACE_IPPROTO_UDP_def TRACE_IPPROTO_TCP_def TRACE_IPPROTO_ICMP_def TRACE_IPPROTO_ICMPV6_def Let_def
      DNS_PACKET_IS_REQUEST_def packet_fits_def ex_text_lib_def DNS_SOCKADDR_AF_def DNS_PACKET_IS_RESPONSE_def
      dns_us_time_from_timeval_def)

lemma ex_collector_ready:
  "collector_ready 1500 ex_collector_env (dns_collector_conf_init\<lparr>output_path_fmt := [111]\<rparr>) [[102], [103]]"
proof -
  have "input_conf_ok (dns_collector_conf_init\<lparr>output_path_fmt := [111]\<rparr>)"
    by (simp add: input_conf_ok_def dns_collector_conf_commit_def dns_collector_conf_init_def DNS_OUTPUT_TYPE_CSV_def
        c_char_def isalnum_def bad_separators_def all_fields_def dns_of_LAST_def dns_fsec_to_us_time_def c_trunc_def)
  moreover have "trace_fine 1500 ex_collector_env k" for k
    using ex_events_ok by (simp add: trace_fine_def ex_collector_env_def open_ok_def opens_def ex_open_env_def open_config_def ex_input_env_def)
      (simp add: ex_events_def)
  moreover have "0 < dns_fsec_to_us_time (match_window_sec dns_collector_conf_init)"
    by (simp add: dns_collector_conf_init_def dns_fsec_to_us_time_def c_trunc_def)
  ultimately show ?thesis
    using ex_clock_ok ex_os_ok by (simp add: collector_ready_def ex_collector_env_def dns_collector_conf_init_def)
qed


end
