(* ===== verification/Frame_Logger.thy ===== *)
theory Frame_Logger
  imports Packet_Frame Dns_Common
begin

text \<open>
  \<^verbatim>\<open>src/worker_frame_logger.c\<close>: a thread that passes frames from one queue to another and reports
  each of them. As for the other threads, the input queue is the list of the frames still to come
  and the output queue, if there is one, the list of the frames sent; the texts of the log are
  the values that they report.
\<close>

section \<open>The logger\<close>

record frame_report =
  rp_type :: int
  rp_count :: nat
  rp_size :: u64
  rp_times :: "(rat \<times> rat) option"
  rp_requests :: nat
  rp_requests_matched :: nat
  rp_responses_unmatched :: nat

record dns_worker_frame_logger =
  fl_in :: "dns_packet_frame list"
  fl_out :: "dns_packet_frame list option"
  fl_name :: "u8 list"
  fl_log :: "frame_report list"
  fl_heap :: heap

definition dns_worker_frame_logger_create ::
    "heap \<Rightarrow> u8 list option \<Rightarrow> dns_packet_frame list option \<Rightarrow> bool \<Rightarrow> dns_worker_frame_logger res" where
  "dns_worker_frame_logger_create hp name inq out =
     (case inq of
        None \<Rightarrow> Inl (Assert_failed ''in'')
      | Some frames \<Rightarrow>
          (case name of
             None \<Rightarrow> Inl (Assert_failed ''name'')
           | Some nm \<Rightarrow> Inr \<lparr>fl_in = frames, fl_out = (if out then Some [] else None), fl_name = nm, fl_log = [], fl_heap = hp\<rparr>))"

text \<open>The counters of a frame: requests, requests with a response, other packets.\<close>

fun logger_count :: "heap \<Rightarrow> pid list \<Rightarrow> nat \<times> nat \<times> nat \<Rightarrow> (nat \<times> nat \<times> nat) res" where
  "logger_count hp [] cs = Inr cs"
| "logger_count hp (p # ps) (requests, matched, unmatched) =
     bindr (deref hp p) (\<lambda>pkt.
       if DNS_PACKET_IS_REQUEST pkt
       then logger_count hp ps (requests + 1, if response pkt \<noteq> None then matched + 1 else matched, unmatched)
       else logger_count hp ps (requests, matched, unmatched + 1))"

definition logger_times :: "dns_packet_frame \<Rightarrow> (rat \<times> rat) option res" where
  "logger_times f =
     (if time_start f = DNS_NO_TIME then Inr None
      else bindr (dns_us_time_to_fsec (time_start f)) (\<lambda>s.
           bindr (dns_us_time_to_fsec (time_end f)) (\<lambda>e. Inr (Some (s, e)))))"

text \<open>Sending the frame: without an output queue, \<open>dns_frame_queue_enqueue\<close> destroys it.\<close>

definition logger_send :: "dns_worker_frame_logger \<Rightarrow> dns_packet_frame \<Rightarrow> dns_worker_frame_logger run" where
  "logger_send l f =
     (case fl_out l of
        None \<Rightarrow> bindo (dns_packet_frame_destroy (fl_heap l) f) (\<lambda>hp. Some (Inr (l\<lparr>fl_heap := hp\<rparr>)))
      | Some fs \<Rightarrow> Some (Inr (l\<lparr>fl_out := Some (fs @ [f])\<rparr>)))"

definition logger_round :: "dns_worker_frame_logger \<Rightarrow> dns_packet_frame \<Rightarrow> (bool \<times> dns_worker_frame_logger) run" where
  "logger_round l f =
     bindo (Some (logger_times f)) (\<lambda>times.
     bindo (Some (logger_count (fl_heap l) (fr_packets f) (0, 0, 0))) (\<lambda>(requests, matched, unmatched).
     bindo (logger_send (l\<lparr>fl_log := fl_log l @ [\<lparr>rp_type = frame_type f, rp_count = fr_count f, rp_size = fr_size f,
         rp_times = times, rp_requests = requests, rp_requests_matched = matched, rp_responses_unmatched = unmatched\<rparr>]\<rparr>) f) (\<lambda>l.
       Some (Inr (frame_type f \<noteq> 1, l)))))"

fun logger_loop :: "dns_packet_frame list \<Rightarrow> dns_worker_frame_logger \<Rightarrow> dns_worker_frame_logger run" where
  "logger_loop [] l = Some (Inl Blocked)"
| "logger_loop (f # fs) l =
     bindo (logger_round (l\<lparr>fl_in := fs\<rparr>) f) (\<lambda>(go, l). if go then logger_loop fs l else Some (Inr l))"

definition dns_worker_frame_logger_main :: "dns_worker_frame_logger \<Rightarrow> dns_worker_frame_logger run" where
  "dns_worker_frame_logger_main l = logger_loop (fl_in l) l"

section \<open>What it reports\<close>

definition is_req :: "heap \<Rightarrow> pid \<Rightarrow> bool" where
  "is_req hp p \<longleftrightarrow> (case hp p of None \<Rightarrow> False | Some pkt \<Rightarrow> DNS_PACKET_IS_REQUEST pkt)"

definition is_answered :: "heap \<Rightarrow> pid \<Rightarrow> bool" where
  "is_answered hp p \<longleftrightarrow> is_req hp p \<and> (case hp p of None \<Rightarrow> False | Some pkt \<Rightarrow> response pkt \<noteq> None)"

definition report_of :: "heap \<Rightarrow> dns_packet_frame \<Rightarrow> frame_report" where
  "report_of hp f = \<lparr>rp_type = frame_type f, rp_count = fr_count f, rp_size = fr_size f,
     rp_times = (if time_start f = DNS_NO_TIME then None
       else Some (of_int (time_start f) / 1000000, of_int (time_end f) / 1000000)),
     rp_requests = length (filter (is_req hp) (fr_packets f)),
     rp_requests_matched = length (filter (is_answered hp) (fr_packets f)),
     rp_responses_unmatched = length (filter (\<lambda>p. \<not> is_req hp p) (fr_packets f))\<rparr>"

definition loggable :: "heap \<Rightarrow> dns_packet_frame \<Rightarrow> bool" where
  "loggable hp f \<longleftrightarrow> (time_start f = DNS_NO_TIME \<or> time_end f \<noteq> DNS_NO_TIME) \<and> (\<forall>p \<in> set (fr_packets f). hp p \<noteq> None)"

lemma logger_count_ok:
  assumes "\<forall>p \<in> set ps. hp p \<noteq> None"
  shows "logger_count hp ps (a, b, c) = Inr (a + length (filter (is_req hp) ps), b + length (filter (is_answered hp) ps),
    c + length (filter (\<lambda>p. \<not> is_req hp p) ps))"
  using assms
proof (induction ps arbitrary: a b c)
  case (Cons p ps)
  then obtain pkt where "hp p = Some pkt" by auto
  then show ?case using Cons by (simp add: is_req_def is_answered_def deref_def)
qed simp

lemma logger_round_ok:
  assumes "loggable (fl_heap l) f" and "fl_out l = Some fs"
  shows "logger_round l f = Some (Inr (frame_type f \<noteq> 1,
    l\<lparr>fl_log := fl_log l @ [report_of (fl_heap l) f], fl_out := Some (fs @ [f])\<rparr>))"
proof -
  have "logger_times f = Inr (rp_times (report_of (fl_heap l) f))"
    using assms(1) by (auto simp: loggable_def logger_times_def report_of_def dns_us_time_to_fsec_def)
  moreover have "logger_count (fl_heap l) (fr_packets f) (0, 0, 0)
      = Inr (rp_requests (report_of (fl_heap l) f), rp_requests_matched (report_of (fl_heap l) f), rp_responses_unmatched (report_of (fl_heap l) f))"
    using logger_count_ok [of "fr_packets f" "fl_heap l" 0 0 0] assms(1) by (simp add: loggable_def report_of_def)
  ultimately show ?thesis using assms(2) by (simp add: logger_round_def logger_send_def report_of_def)
qed

lemma logger_loop_ok:
  assumes "\<forall>f \<in> set (fs @ [g]). loggable (fl_heap l) f" and "\<forall>f \<in> set fs. frame_type f \<noteq> 1" and "frame_type g = 1" and "fl_out l = Some os"
  shows "logger_loop (fs @ g # rest) l = Some (Inr (l\<lparr>fl_in := rest,
    fl_log := fl_log l @ map (report_of (fl_heap l)) (fs @ [g]), fl_out := Some (os @ fs @ [g])\<rparr>))"
  using assms
proof (induction fs arbitrary: l os)
  case Nil
  have "logger_round (l\<lparr>fl_in := rest\<rparr>) g = Some (Inr (frame_type g \<noteq> 1,
      l\<lparr>fl_in := rest, fl_log := fl_log l @ [report_of (fl_heap l) g], fl_out := Some (os @ [g])\<rparr>))"
    using logger_round_ok [of "l\<lparr>fl_in := rest\<rparr>" g os] Nil.prems by simp
  then show ?case using Nil.prems by simp
next
  case (Cons f fs)
  let ?l = "l\<lparr>fl_in := fs @ g # rest, fl_log := fl_log l @ [report_of (fl_heap l) f], fl_out := Some (os @ [f])\<rparr>"
  have "logger_round (l\<lparr>fl_in := fs @ g # rest\<rparr>) f = Some (Inr (True, ?l))"
    using logger_round_ok [of "l\<lparr>fl_in := fs @ g # rest\<rparr>" f os] Cons.prems by simp
  moreover have "logger_loop (fs @ g # rest) ?l = Some (Inr (?l\<lparr>fl_in := rest,
      fl_log := fl_log ?l @ map (report_of (fl_heap ?l)) (fs @ [g]), fl_out := Some ((os @ [f]) @ fs @ [g])\<rparr>))"
    by (rule Cons.IH) (use Cons.prems in simp_all)
  ultimately show ?case by simp
qed

text \<open>
  C22: The logger passes every frame on unchanged and in order, touches no packet, stops after the final
  frame and leaves what follows it; each report counts the requests, the answered requests and the
  other packets of its frame, and requests and other packets together are all packets.
\<close>

theorem logger_passes:
  assumes "\<forall>f \<in> set (fs @ [g]). loggable hp f" and "\<forall>f \<in> set fs. frame_type f \<noteq> 1" and "frame_type g = 1"
    and "dns_worker_frame_logger_create hp (Some nm) (Some (fs @ g # rest)) True = Inr l"
  shows "\<exists>l'. dns_worker_frame_logger_main l = Some (Inr l') \<and> fl_out l' = Some (fs @ [g]) \<and> fl_in l' = rest \<and> fl_heap l' = hp \<and>
    fl_log l' = map (report_of hp) (fs @ [g]) \<and>
    (\<forall>f \<in> set (fs @ [g]). rp_requests (report_of hp f) + rp_responses_unmatched (report_of hp f) = length (fr_packets f))"
proof -
  have l: "l = \<lparr>fl_in = fs @ g # rest, fl_out = Some [], fl_name = nm, fl_log = [], fl_heap = hp\<rparr>"
    using assms(4) by (simp add: dns_worker_frame_logger_create_def)
  have "rp_requests (report_of hp f) + rp_responses_unmatched (report_of hp f) = length (fr_packets f)" for f
    by (simp add: report_of_def sum_length_filter_compl)
  then show ?thesis
    using logger_loop_ok [of fs g l "[]" rest] assms(1-3) by (simp add: dns_worker_frame_logger_main_def l)
qed

theorem logger_passes_witness:
  "\<exists>l l'. dns_worker_frame_logger_create ex_heap2 (Some [97]) (Some [(dns_packet_frame_create 1 2)\<lparr>fr_packets := [1, 3]\<rparr>,
       dns_packet_frame_create_final 2]) True = Inr l \<and> dns_worker_frame_logger_main l = Some (Inr l') \<and>
     map rp_requests (fl_log l') = [1, 0] \<and> map rp_requests_matched (fl_log l') = [1, 0]"
proof -
  let ?f = "(dns_packet_frame_create 1 2)\<lparr>fr_packets := [1, 3]\<rparr>" and ?g = "dns_packet_frame_create_final 2"
  obtain l where l: "dns_worker_frame_logger_create ex_heap2 (Some [97]) (Some ([?f] @ ?g # [])) True = Inr l"
    by (simp add: dns_worker_frame_logger_create_def)
  have "\<forall>f \<in> set ([?f] @ [?g]). loggable ex_heap2 f" by (simp add: loggable_def DNS_NO_TIME_def ex_heap2_def)
  moreover have "map rp_requests (map (report_of ex_heap2) ([?f] @ [?g])) = [1, 0]" "map rp_requests_matched (map (report_of ex_heap2) ([?f] @ [?g])) = [1, 0]"
    by (simp_all add: report_of_def is_req_def is_answered_def ex_heap2_def ex_packet_def ex_knot_def DNS_PACKET_IS_REQUEST_def DNS_PACKET_IS_RESPONSE_def)
  ultimately show ?thesis using logger_passes [OF _ _ _ l] l by (fastforce simp del: map_map)
qed

end
