(* ===== verification/Matcher_Pipeline.thy ===== *)
theory Matcher_Pipeline
  imports Packet_Matcher
begin

text \<open>
  The threads of \<^verbatim>\<open>src/main.c\<close> under every schedule. \<open>dns_input\<close> sends frames into the queue
  \<open>q_input_mathcher\<close>, \<open>dns_worker_packet_matcher_main\<close> reads them and sends frames into
  \<open>q_matcher_output\<close>, the output thread reads those; both queues block and hold
  \<open>max_queue_len\<close> frames. The theory cuts the matcher's loop into what it does with one frame
  (\<open>consume_frame\<close>), shows that the loop is the sequence of these rounds and that a round
  depends neither on the frames still to come nor on those already sent, and concludes that
  the threads, scheduled in any way, deliver the frames of the sequential run.

  The packets of all frames are on the heap from the start: a thread touches only packets of
  frames it owns, so it does not matter when the others are allocated or freed.
\<close>

section \<open>Three threads and two channels\<close>

text \<open>
  A state: the frames the first thread still has to send, the first channel, the state of
  the second thread, the frames it has still to send before it reads again, the second
  channel and the frames the third thread has received. \<open>react\<close> is what the second thread
  does with a frame: its new state and the frames it sends; \<open>None\<close> if it stops or never
  returns. An operation that waits is no step.
\<close>

type_synonym ('f, 'q, 's) pipe = "'f list \<times> 'q \<times> 's \<times> 'f list \<times> 'q \<times> 'f list"

inductive pipe_step ::
    "('q \<Rightarrow> 'f \<Rightarrow> 'q option) \<Rightarrow> ('q \<Rightarrow> ('f \<times> 'q) option) \<Rightarrow> ('s \<Rightarrow> 'f \<Rightarrow> ('s \<times> 'f list) option) \<Rightarrow>
     ('f, 'q, 's) pipe \<Rightarrow> ('f, 'q, 's) pipe \<Rightarrow> bool"
  for enq deq react where
  feed: "enq q1 f = Some q1' \<Longrightarrow>
    pipe_step enq deq react (f # todo, q1, s, out, q2, got) (todo, q1', s, out, q2, got)"
| work: "deq q1 = Some (f, q1') \<Longrightarrow> react s f = Some (s', out) \<Longrightarrow>
    pipe_step enq deq react (todo, q1, s, [], q2, got) (todo, q1', s', out, q2, got)"
| emit: "enq q2 g = Some q2' \<Longrightarrow>
    pipe_step enq deq react (todo, q1, s, g # out, q2, got) (todo, q1, s, out, q2', got)"
| drain: "deq q2 = Some (g, q2') \<Longrightarrow>
    pipe_step enq deq react (todo, q1, s, out, q2, got) (todo, q1, s, out, q2', got @ [g])"

text \<open>The frames the second thread sends for a sequence of frames.\<close>

fun run_react :: "('s \<Rightarrow> 'f \<Rightarrow> ('s \<times> 'f list) option) \<Rightarrow> 's \<Rightarrow> 'f list \<Rightarrow> 'f list option" where
  "run_react react s [] = Some []"
| "run_react react s (f # fs) =
     (case react s f of
        None \<Rightarrow> None
      | Some (s', out) \<Rightarrow> map_option (\<lambda>rest. out @ rest) (run_react react s' fs))"

lemma run_react_ConsD:
  assumes "run_react react s (f # fs) = Some whole"
  obtains s' out rest where "react s f = Some (s', out)" and "run_react react s' fs = Some rest"
    and "whole = out @ rest"
  using assms by (auto split: option.splits)

locale staged_channel = bounded_channel frames invar cap enq deq
  for frames :: "'q \<Rightarrow> 'f list"
    and invar :: "'q \<Rightarrow> bool"
    and cap :: "'q \<Rightarrow> nat"
    and enq :: "'q \<Rightarrow> 'f \<Rightarrow> 'q option"
    and deq :: "'q \<Rightarrow> ('f \<times> 'q) option" +
  fixes react :: "'s \<Rightarrow> 'f \<Rightarrow> ('s \<times> 'f list) option"
begin

text \<open>
  What is on its way: the frames received, in the second channel and computed, followed by
  what the second thread will send for the rest, is always the same sequence. The last
  argument bounds the number of steps to come.
\<close>

definition on_way :: "('f, 'q, 's) pipe \<Rightarrow> nat \<Rightarrow> 'f list \<Rightarrow> nat \<Rightarrow> bool" where
  "on_way st c whole n \<longleftrightarrow> (case st of (todo, q1, s, out, q2, got) \<Rightarrow>
     invar q1 \<and> invar q2 \<and> cap q1 = c \<and> cap q2 = c \<and>
     (\<exists>rest. run_react react s (frames q1 @ todo) = Some rest \<and> got @ frames q2 @ out @ rest = whole \<and>
        n = 2 * length todo + length (frames q1) + 2 * (length out + length rest) + length (frames q2)))"

lemma on_way_step:
  assumes "pipe_step enq deq react st st'" and "on_way st c whole n"
  shows "\<exists>m < n. on_way st' c whole m"
  using assms
proof (cases rule: pipe_step.cases)
  case (feed q1 f q1' todo s out q2 got)
  with assms(2) enq_done [of q1 f q1'] show ?thesis by (auto simp: on_way_def)
next
  case (work q1 f q1' s s' out todo q2 got)
  with assms(2) deq_done [of q1 f q1'] show ?thesis by (auto simp: on_way_def)
next
  case (emit q2 g q2' todo q1 s out got)
  with assms(2) enq_done [of q2 g q2'] show ?thesis by (auto simp: on_way_def)
next
  case (drain q2 g q2' todo q1 s out got)
  with assms(2) deq_done [of q2 g q2'] show ?thesis by (auto simp: on_way_def)
qed

lemma on_way_steps:
  assumes "(pipe_step enq deq react ^^ k) st st'" and "on_way st c whole n"
  shows "\<exists>m. k + m \<le> n \<and> on_way st' c whole m"
  using assms(1)
proof (induction k arbitrary: st')
  case 0
  with assms(2) show ?case by auto
next
  case (Suc k)
  then obtain u where u: "(pipe_step enq deq react ^^ k) st u" and s: "pipe_step enq deq react u st'" by auto
  from Suc.IH [OF u] obtain m where m: "k + m \<le> n" "on_way u c whole m" by blast
  from on_way_step [OF s m(2)] obtain m' where "m' < m" "on_way st' c whole m'" by blast
  with m(1) show ?case by (intro exI [of _ m']) simp
qed

lemma nonempty_deq: "invar q \<Longrightarrow> frames q \<noteq> [] \<Longrightarrow> \<exists>f q'. deq q = Some (f, q') \<and> frames q = f # frames q'"
  using deq_wait [of q] deq_done [of q] by (cases "deq q") auto

lemma empty_enq: "invar q \<Longrightarrow> frames q = [] \<Longrightarrow> \<exists>q'. enq q f = Some q'"
  using enq_wait [of q f] cap_pos [of q] by auto

text \<open>No deadlock: as long as something is on its way, some thread can make a step.\<close>

lemma on_way_progress:
  assumes "on_way (todo, q1, s, out, q2, got) c whole n"
    and stuck: "\<nexists>t. pipe_step enq deq react (todo, q1, s, out, q2, got) t"
  shows "got = whole"
proof -
  from assms(1) obtain rest where i: "invar q1" "invar q2"
    and r: "run_react react s (frames q1 @ todo) = Some rest" and t: "got @ frames q2 @ out @ rest = whole"
    by (auto simp: on_way_def)
  have 2: "frames q2 = []"
    using nonempty_deq [OF i(2)] stuck by (blast intro: pipe_step.drain)
  have o: "out = []"
    using empty_enq [OF i(2) 2] stuck by (cases out) (blast intro: pipe_step.emit)+
  have 1: "frames q1 = []"
  proof (rule ccontr)
    assume "frames q1 \<noteq> []"
    from nonempty_deq [OF i(1) this] obtain f q1' where d: "deq q1 = Some (f, q1')" "frames q1 = f # frames q1'"
      by blast
    from r obtain s' out' where "react s f = Some (s', out')"
      unfolding d(2) append_Cons by (rule run_react_ConsD)
    with d(1) stuck show False unfolding o by (blast intro: pipe_step.work)
  qed
  have "todo = []"
    using empty_enq [OF i(1) 1] stuck by (cases todo) (blast intro: pipe_step.feed)+
  with r t 1 2 o show ?thesis by simp
qed

text \<open>From empty channels, every schedule delivers what the second thread sends, and ends.\<close>

lemma schedule_delivers:
  assumes "invar q" and "frames q = []" and "run_react react s sent = Some whole"
    and "(pipe_step enq deq react ^^ n) (sent, q, s, [], q, []) (todo, q1, s', out, q2, got)"
  shows "n \<le> 2 * length sent + 2 * length whole \<and>
    (\<exists>rest. whole = got @ frames q2 @ out @ rest) \<and> length (frames q1) \<le> cap q \<and> length (frames q2) \<le> cap q \<and>
    ((\<exists>t. pipe_step enq deq react (todo, q1, s', out, q2, got) t) \<or> got = whole)"
proof -
  have "on_way (sent, q, s, [], q, []) (cap q) whole (2 * length sent + 2 * length whole)"
    using assms(1-3) by (simp add: on_way_def)
  from on_way_steps [OF assms(4) this] obtain m where
    m: "n + m \<le> 2 * length sent + 2 * length whole" "on_way (todo, q1, s', out, q2, got) (cap q) whole m"
    by blast
  from m(2) have w: "\<exists>rest. whole = got @ frames q2 @ out @ rest" "invar q1" "invar q2" "cap q1 = cap q"
    "cap q2 = cap q"
    by (auto simp: on_way_def)
  show ?thesis
    using m(1) w on_way_progress [OF m(2)] within_cap [of q1] within_cap [of q2] by auto
qed

end

section \<open>The matcher, a frame at a time\<close>

text \<open>The queues \<open>q_input_mathcher\<close> and \<open>q_matcher_output\<close> that \<open>main\<close> creates.\<close>

definition main_queue :: "dns_config \<Rightarrow> dns_frame_queue" where
  "main_queue conf = dns_frame_queue_create (nat (max_queue_len conf)) DNS_QUEUE_BLOCK"

text \<open>
  What \<open>dns_worker_packet_matcher_next_packet\<close> and the loop of
  \<open>dns_worker_packet_matcher_main\<close> do with the packets \<open>ps\<close> of the input frame \<open>f\<close>, and with
  one frame, from its dequeuing to its destruction. The final frame ends the loop.
\<close>

fun consume_packets ::
    "(u8 list \<Rightarrow> u8 list \<Rightarrow> bool) \<Rightarrow> dns_packet_frame \<Rightarrow> pid list \<Rightarrow> dns_worker_packet_matcher \<Rightarrow>
     dns_worker_packet_matcher run" where
  "consume_packets dname_eq f [] pm = Some (Inr pm)"
| "consume_packets dname_eq f (p # ps) pm =
     bindo (Some (deref (pm_heap pm) p)) (\<lambda>pkt.
     bindo (dns_worker_packet_matcher_advance_time_to
              (pm\<lparr>pm_inframe := Some (f\<lparr>fr_packets := ps\<rparr>)\<rparr>) (ts pkt)) (\<lambda>pm.
     bindo (Some (process_packet dname_eq pm p)) (\<lambda>pm. consume_packets dname_eq f ps pm)))"

definition open_frame :: "dns_packet_frame \<Rightarrow> dns_worker_packet_matcher \<Rightarrow> dns_worker_packet_matcher" where
  "open_frame f pm =
     (let pm = pm\<lparr>pm_inframe := Some f\<rparr> in if pm_outframe pm = None then started pm f else pm)"

definition consume_frame ::
    "(u8 list \<Rightarrow> u8 list \<Rightarrow> bool) \<Rightarrow> dns_packet_frame \<Rightarrow> dns_worker_packet_matcher \<Rightarrow>
     dns_worker_packet_matcher run" where
  "consume_frame dname_eq f pm =
     (if fr_count f = 0 \<and> time_start f = DNS_NO_TIME
      then bindo (dns_packet_frame_destroy (pm_heap pm) f) (\<lambda>h. Some (Inr (pm\<lparr>pm_heap := h\<rparr>)))
      else
        bindo (Some (assertr (time_start f \<noteq> DNS_NO_TIME) ''pm->inframe->time_start != DNS_NO_TIME'')) (\<lambda>_.
        bindo (dns_worker_packet_matcher_advance_time_to (open_frame f pm) (time_start f)) (\<lambda>pm.
        bindo (consume_packets dname_eq f (fr_packets f) pm) (\<lambda>pm.
        bindo (dns_worker_packet_matcher_advance_time_to pm (time_end f)) (\<lambda>pm.
        bindo (dns_packet_frame_destroy (pm_heap pm) (f\<lparr>fr_packets := []\<rparr>)) (\<lambda>h.
          Some (Inr (pm\<lparr>pm_heap := h, pm_inframe := None\<rparr>))))))))"

definition matcher_round ::
    "(u8 list \<Rightarrow> u8 list \<Rightarrow> bool) \<Rightarrow> dns_worker_packet_matcher \<Rightarrow> dns_packet_frame \<Rightarrow>
     dns_worker_packet_matcher run" where
  "matcher_round dname_eq pm f =
     (if frame_type f = 1
      then bindo (dns_packet_frame_destroy (pm_heap pm) f) (\<lambda>h. matcher_finish (pm\<lparr>pm_heap := h\<rparr>))
      else consume_frame dname_eq f pm)"

text \<open>The matcher as the middle thread: a round, and the frames it sends.\<close>

definition matcher_react ::
    "(u8 list \<Rightarrow> u8 list \<Rightarrow> bool) \<Rightarrow> dns_worker_packet_matcher \<Rightarrow> dns_packet_frame \<Rightarrow>
     (dns_worker_packet_matcher \<times> dns_packet_frame list) option" where
  "matcher_react dname_eq pm f =
     (case matcher_round dname_eq (pm\<lparr>pm_out := Some []\<rparr>) f of
        Some (Inr pm') \<Rightarrow> map_option (\<lambda>out. (pm', out)) (pm_out pm')
      | _ \<Rightarrow> None)"

section \<open>A round depends neither on the frames to come nor on those sent\<close>

text \<open>\<open>forget_io n\<close> forgets the input and the first \<open>n\<close> frames sent.\<close>

definition forget_io :: "nat \<Rightarrow> dns_worker_packet_matcher \<Rightarrow> dns_worker_packet_matcher" where
  "forget_io n pm = pm\<lparr>pm_in := [], pm_out := map_option (drop n) (pm_out pm)\<rparr>"

lemma forget_io_fields [simp]:
  "pm_heap (forget_io n pm) = pm_heap pm" "pm_in (forget_io n pm) = []" "pm_out (forget_io n pm) = map_option (drop n) (pm_out pm)"
  "pm_hash_table (forget_io n pm) = pm_hash_table pm" "pm_packet_queue (forget_io n pm) = pm_packet_queue pm"
  "pm_matching_duration (forget_io n pm) = pm_matching_duration pm"
  "pm_frame_max_duration (forget_io n pm) = pm_frame_max_duration pm"
  "pm_match_qname (forget_io n pm) = pm_match_qname pm" "pm_frame_max_size (forget_io n pm) = pm_frame_max_size pm"
  "pm_inframe (forget_io n pm) = pm_inframe pm" "pm_outframe (forget_io n pm) = pm_outframe pm"
  "pm_current_time (forget_io n pm) = pm_current_time pm"
  by (simp_all add: forget_io_def)

lemma forget_io_updates [simp]:
  "(forget_io n pm)\<lparr>pm_heap := h\<rparr> = forget_io n (pm\<lparr>pm_heap := h\<rparr>)"
  "(forget_io n pm)\<lparr>pm_hash_table := t\<rparr> = forget_io n (pm\<lparr>pm_hash_table := t\<rparr>)"
  "(forget_io n pm)\<lparr>pm_packet_queue := q\<rparr> = forget_io n (pm\<lparr>pm_packet_queue := q\<rparr>)"
  "(forget_io n pm)\<lparr>pm_inframe := f\<rparr> = forget_io n (pm\<lparr>pm_inframe := f\<rparr>)"
  "(forget_io n pm)\<lparr>pm_outframe := f\<rparr> = forget_io n (pm\<lparr>pm_outframe := f\<rparr>)"
  "(forget_io n pm)\<lparr>pm_current_time := u\<rparr> = forget_io n (pm\<lparr>pm_current_time := u\<rparr>)"
  by (simp_all add: forget_io_def)

text \<open>
  \<open>same_run b F\<close>: from a state that has sent at least \<open>n\<close> frames, what \<open>F\<close> does is what it does
  without the input and these frames; it leaves both alone, and if \<open>b\<close> also the input frame.
\<close>

definition sent_over :: "nat \<Rightarrow> dns_worker_packet_matcher \<Rightarrow> bool" where
  "sent_over n pm \<longleftrightarrow> (\<exists>xs. pm_out pm = Some xs \<and> n \<le> length xs)"

definition untouched :: "bool \<Rightarrow> nat \<Rightarrow> dns_worker_packet_matcher \<Rightarrow> dns_worker_packet_matcher \<Rightarrow> bool" where
  "untouched b n pm pm' \<longleftrightarrow> pm_in pm' = pm_in pm \<and> sent_over n pm' \<and>
     map_option (take n) (pm_out pm') = map_option (take n) (pm_out pm) \<and> (b \<longrightarrow> pm_inframe pm' = pm_inframe pm)"

definition same_run :: "bool \<Rightarrow> (dns_worker_packet_matcher \<Rightarrow> dns_worker_packet_matcher run) \<Rightarrow> bool" where
  "same_run b F \<longleftrightarrow> (\<forall>n pm pm'. sent_over n pm \<longrightarrow> F pm = Some (Inr pm') \<longrightarrow>
     F (forget_io n pm) = Some (Inr (forget_io n pm')) \<and> untouched b n pm pm')"

lemma same_runD:
  assumes "same_run b F" and "sent_over n pm" and "F pm = Some (Inr pm')"
  shows "F (forget_io n pm) = Some (Inr (forget_io n pm'))" and "untouched b n pm pm'"
  using assms by (auto simp: same_run_def)

lemma untouched_sent: "untouched b n pm pm' \<Longrightarrow> sent_over n pm'"
  by (simp add: untouched_def)

lemma untouched_trans: "untouched b n pm pm' \<Longrightarrow> untouched b n pm' pm'' \<Longrightarrow> untouched b n pm pm''"
  by (auto simp: untouched_def)

lemma same_run_bind:
  assumes "same_run b F" and "same_run b G"
  shows "same_run b (\<lambda>pm. bindo (F pm) G)"
  unfolding same_run_def
proof (intro allI impI)
  fix n pm pm'
  assume s: "sent_over n pm" and r: "bindo (F pm) G = Some (Inr pm')"
  then obtain pm1 where 1: "F pm = Some (Inr pm1)" and 2: "G pm1 = Some (Inr pm')" by (auto simp: bindo_Inr_iff)
  note f = same_runD [OF assms(1) s 1]
  note g = same_runD [OF assms(2) untouched_sent [OF f(2)] 2]
  show "bindo (F (forget_io n pm)) G = Some (Inr (forget_io n pm')) \<and> untouched b n pm pm'"
    using f g untouched_trans [OF f(2) g(2)] by simp
qed

lemma same_run_read:
  assumes "\<And>n pm. x (forget_io n pm) = x pm" and "\<And>y. same_run b (F y)"
  shows "same_run b (\<lambda>pm. F (x pm) pm)"
  using assms by (simp add: same_run_def)

lemma same_run_write:
  assumes "\<And>n pm. u (forget_io n pm) = forget_io n (u pm)"
    and "\<And>pm. pm_in (u pm) = pm_in pm" and "\<And>pm. pm_out (u pm) = pm_out pm"
    and "\<And>pm. b \<Longrightarrow> pm_inframe (u pm) = pm_inframe pm" and "same_run b F"
  shows "same_run b (\<lambda>pm. F (u pm))"
  unfolding same_run_def
proof (intro allI impI)
  fix n pm pm'
  assume "sent_over n pm" and r: "F (u pm) = Some (Inr pm')"
  then have "sent_over n (u pm)" using assms(3) by (simp add: sent_over_def)
  from same_runD [OF assms(5) this r]
  show "F (u (forget_io n pm)) = Some (Inr (forget_io n pm')) \<and> untouched b n pm pm'"
    by (simp add: assms(1-4) untouched_def)
qed

lemma same_run_return: "same_run b (\<lambda>pm. Some (Inr pm))"
  by (simp add: same_run_def untouched_def)

lemma same_run_stop: "same_run b (\<lambda>pm. Some (Inl e))" "same_run b (\<lambda>pm. None)"
  by (simp_all add: same_run_def)

lemma same_run_update:
  assumes "\<And>n pm. u (forget_io n pm) = forget_io n (u pm)"
    and "\<And>pm. pm_in (u pm) = pm_in pm" and "\<And>pm. pm_out (u pm) = pm_out pm"
    and "\<And>pm. b \<Longrightarrow> pm_inframe (u pm) = pm_inframe pm"
  shows "same_run b (\<lambda>pm. Some (Inr (u pm)))"
  by (rule same_run_write [where F = "\<lambda>pm. Some (Inr pm)", OF assms same_run_return])

lemma same_run_let:
  assumes "\<And>n pm. u (forget_io n pm) = forget_io n (u pm)"
    and "\<And>pm. pm_in (u pm) = pm_in pm" and "\<And>pm. pm_out (u pm) = pm_out pm"
    and "\<And>pm. b \<Longrightarrow> pm_inframe (u pm) = pm_inframe pm" and "same_run b F"
  shows "same_run b (\<lambda>pm. Let (u pm) F)"
  unfolding Let_def by (rule same_run_write [OF assms])

lemma same_run_value:
  assumes "\<And>n pm. x (forget_io n pm) = x pm" and "\<And>y. same_run b (F y)"
  shows "same_run b (\<lambda>pm. Let (x pm) (\<lambda>y. F y pm))"
  unfolding Let_def by (rule same_run_read [OF assms])

lemma same_run_if:
  assumes "\<And>n pm. c (forget_io n pm) = c pm" and "same_run b F" and "same_run b G"
  shows "same_run b (\<lambda>pm. if c pm then F pm else G pm)"
proof (rule same_run_read [where F = "\<lambda>c pm. if c then F pm else G pm", OF assms(1)])
  show "same_run b (\<lambda>pm. if c then F pm else G pm)" for c
    using assms by (cases c) simp_all
qed

lemma same_run_option:
  assumes "\<And>n pm. x (forget_io n pm) = x pm" and "same_run b F" and "\<And>y. same_run b (G y)"
  shows "same_run b (\<lambda>pm. case x pm of None \<Rightarrow> F pm | Some y \<Rightarrow> G y pm)"
proof (rule same_run_read [where F = "\<lambda>x pm. case x of None \<Rightarrow> F pm | Some y \<Rightarrow> G y pm", OF assms(1)])
  show "same_run b (\<lambda>pm. case x of None \<Rightarrow> F pm | Some y \<Rightarrow> G y pm)" for x
    using assms by (cases x) simp_all
qed

lemma same_run_bindo:
  assumes "\<And>n pm. x (forget_io n pm) = x pm" and "\<And>y. same_run b (F y)"
  shows "same_run b (\<lambda>pm. bindo (x pm) (\<lambda>y. F y pm))"
proof (rule same_run_read [where F = "\<lambda>m pm. bindo m (\<lambda>y. F y pm)", OF assms(1)])
  show "same_run b (\<lambda>pm. bindo m (\<lambda>y. F y pm))" for m
  proof (cases m)
    case (Some r)
    then show ?thesis using assms(2) by (cases r) (simp_all add: same_run_stop)
  qed (simp add: same_run_stop)
qed

lemma same_run_bindr:
  assumes "\<And>n pm. x (forget_io n pm) = x pm" and "\<And>y. same_run b (\<lambda>pm. Some (F y pm))"
  shows "same_run b (\<lambda>pm. Some (bindr (x pm) (\<lambda>y. F y pm)))"
proof (rule same_run_read [where F = "\<lambda>m pm. Some (bindr m (\<lambda>y. F y pm))", OF assms(1)])
  show "same_run b (\<lambda>pm. Some (bindr m (\<lambda>y. F y pm)))" for m
    using assms(2) by (cases m) (simp_all add: same_run_stop)
qed

lemma same_run_res_if:
  assumes "\<And>n pm. c (forget_io n pm) = c pm" and "same_run b (\<lambda>pm. Some (F pm))" and "same_run b (\<lambda>pm. Some (G pm))"
  shows "same_run b (\<lambda>pm. Some (if c pm then F pm else G pm))"
  using same_run_if [OF assms] by (simp add: if_distrib [of Some])

lemma same_run_res_option:
  assumes "\<And>n pm. x (forget_io n pm) = x pm" and "same_run b (\<lambda>pm. Some (F pm))"
    and "\<And>y. same_run b (\<lambda>pm. Some (G y pm))"
  shows "same_run b (\<lambda>pm. Some (case x pm of None \<Rightarrow> F pm | Some y \<Rightarrow> G y pm))"
  using same_run_option [OF assms] by (simp add: option.case_distrib [of Some])

lemmas same_run_rules = same_run_stop same_run_return same_run_if same_run_option same_run_bindr

lemma enqueue_same: "same_run b (\<lambda>pm. pm_enqueue pm f)"
  by (auto simp: same_run_def untouched_def sent_over_def pm_enqueue_def forget_io_def)

lemma output_frame_same: "same_run b dns_worker_packet_matcher_output_frame"
  unfolding dns_worker_packet_matcher_output_frame_def Let_def
  by (intro same_run_rules same_run_bind enqueue_same same_run_update) simp_all

lemma output_packet_same: "same_run b (\<lambda>pm. output_packet pm f p pkt ev_time)"
  unfolding output_packet_def
  by (intro same_run_bind same_run_rules same_run_let output_frame_same same_run_update) simp_all

lemma advance_step_same: "same_run b (\<lambda>pm. advance_step pm time)"
  unfolding advance_step_def split_def
  by (intro same_run_bindo same_run_rules same_run_value output_packet_same same_run_update
      same_run_write [OF _ _ _ _ output_frame_same])
    (simp_all add: queue_head_def split: list.splits option.splits)

lemma advance_loop_same: "same_run b (\<lambda>pm. advance_loop pm time)"
proof -
  let ?P = "\<lambda>pm time r. \<forall>n pm'. sent_over n pm \<longrightarrow> r = Inr pm' \<longrightarrow>
      advance_loop (forget_io n pm) time = Some (Inr (forget_io n pm')) \<and> untouched b n pm pm'"
  have "?P pm time r" if "advance_loop pm time = Some r" for pm r
  proof (rule advance_loop.raw_induct [of ?P, OF _ that], intro allI impI)
    fix loop pm time r n pm'
    assume IH: "\<And>pm time r. loop pm time = Some r \<Longrightarrow> ?P pm time r"
      and run: "(if pm_current_time pm < time then bindo (advance_step pm time) (\<lambda>pm. loop pm time)
        else Some (Inr pm)) = Some r"
      and s: "sent_over n pm" and r: "r = Inr pm'"
    note loop = advance_loop.simps [of "forget_io n pm" time]
    show "advance_loop (forget_io n pm) time = Some (Inr (forget_io n pm')) \<and> untouched b n pm pm'"
    proof (cases "pm_current_time pm < time")
      case True
      with run r obtain pm1 where a: "advance_step pm time = Some (Inr pm1)" and b: "loop pm1 time = Some (Inr pm')"
        by (auto simp: bindo_Inr_iff)
      note f = same_runD [OF advance_step_same s a]
      have "advance_loop (forget_io n pm1) time = Some (Inr (forget_io n pm')) \<and> untouched b n pm1 pm'"
        using IH [OF b] untouched_sent [OF f(2)] by blast
      then show ?thesis using True f(1) untouched_trans [OF f(2)] by (simp add: loop)
    next
      case False
      with run r s show ?thesis by (auto simp: advance_loop.simps [of "forget_io n pm'" time] untouched_def)
    qed
  qed
  then show ?thesis by (simp add: same_run_def)
qed

lemma advance_same: "same_run b (\<lambda>pm. dns_worker_packet_matcher_advance_time_to pm time)"
  unfolding dns_worker_packet_matcher_advance_time_to_def
  by (intro same_run_bindo same_run_rules advance_loop_same) simp_all

lemma process_packet_same: "same_run b (\<lambda>pm. Some (process_packet dname_eq pm p))"
  unfolding process_packet_def split_def
  by (intro same_run_rules same_run_res_if same_run_res_option same_run_update) simp_all

lemma consume_packets_same: "same_run False (consume_packets dname_eq f ps)"
proof (induction ps)
  case (Cons p ps)
  show ?case
    unfolding consume_packets.simps
    by (intro same_run_bindo same_run_bind process_packet_same Cons same_run_write [OF _ _ _ _ advance_same]) simp_all
qed (simp add: same_run_return)

lemma consume_frame_same: "same_run False (consume_frame dname_eq f)"
  unfolding consume_frame_def
  by (intro same_run_bindo same_run_rules same_run_bind consume_packets_same advance_same same_run_update
      same_run_write [OF _ _ _ _ advance_same]) (simp_all add: open_frame_def started_def Let_def)

lemma matcher_finish_same: "same_run b matcher_finish"
  unfolding matcher_finish_def
  by (intro same_run_bind same_run_rules enqueue_same same_run_update
      same_run_read [where x = pm_current_time, OF _ enqueue_same]
      same_run_read [where x = "\<lambda>pm. pm_current_time pm + pm_matching_duration pm + 1", OF _ advance_same]) simp_all

lemma matcher_round_same: "same_run False (\<lambda>pm. matcher_round dname_eq pm f)"
  unfolding matcher_round_def
  by (intro same_run_rules same_run_bindo consume_frame_same same_run_write [OF _ _ _ _ matcher_finish_same]) simp_all

section \<open>The loop is a sequence of rounds\<close>

lemma bindo_assoc: "bindo (bindo m f) g = bindo m (\<lambda>x. bindo (f x) g)"
proof (cases m)
  case (Some r)
  then show ?thesis by (cases r) simp_all
qed simp

text \<open>The loop with an open input frame, and between two frames.\<close>

lemma loop_packet:
  assumes "pm_inframe pm = Some f" and "fr_packets f = p # ps"
  shows "matcher_loop dname_eq pm =
    bindo (Some (deref (pm_heap pm) p)) (\<lambda>pkt.
    bindo (dns_worker_packet_matcher_advance_time_to (pm\<lparr>pm_inframe := Some (f\<lparr>fr_packets := ps\<rparr>)\<rparr>) (ts pkt)) (\<lambda>pm.
    bindo (Some (process_packet dname_eq pm p)) (matcher_loop dname_eq)))"
  using assms by (simp add: matcher_loop.simps [of dname_eq pm] dns_worker_packet_matcher_next_packet.simps [of pm]
      load_frame_loaded bindo_assoc)

lemma loop_close:
  assumes "pm_inframe pm = Some f" and "fr_packets f = []"
  shows "matcher_loop dname_eq pm =
    bindo (dns_worker_packet_matcher_advance_time_to pm (time_end f)) (\<lambda>pm.
    bindo (dns_packet_frame_destroy (pm_heap pm) f) (\<lambda>h.
      matcher_loop dname_eq (pm\<lparr>pm_heap := h, pm_inframe := None\<rparr>)))"
  using assms by (simp add: matcher_loop.simps [of dname_eq pm] dns_worker_packet_matcher_next_packet.simps [of pm]
      load_frame_loaded bindo_assoc matcher_loop.simps [of dname_eq "pm\<lparr>pm_heap := h, pm_inframe := None\<rparr>" for pm h])

text \<open>An iteration of the loop starts with \<open>load_frame\<close>.\<close>

lemma loop_after_load: "\<exists>L. \<forall>pm. matcher_loop dname_eq pm = bindo (load_frame pm) L"
proof (rule exI, rule allI)
  fix pm
  show "matcher_loop dname_eq pm = bindo (load_frame pm) (\<lambda>loaded. bindo
      (if \<not> fst loaded then Some (Inr (None, snd loaded))
       else case pm_inframe (snd loaded) of
         None \<Rightarrow> Some (Inl (Bad_pointer ''pm->inframe''))
       | Some f \<Rightarrow> (case fr_packets f of
           [] \<Rightarrow> bindo (dns_worker_packet_matcher_advance_time_to (snd loaded) (time_end f)) (\<lambda>pm.
             bindo (dns_packet_frame_destroy (pm_heap pm) f) (\<lambda>h.
               dns_worker_packet_matcher_next_packet (pm\<lparr>pm_heap := h, pm_inframe := None\<rparr>)))
         | p # ps \<Rightarrow> bindo (Some (deref (pm_heap (snd loaded)) p)) (\<lambda>pkt.
             bindo (dns_worker_packet_matcher_advance_time_to
               ((snd loaded)\<lparr>pm_inframe := Some (f\<lparr>fr_packets := ps\<rparr>)\<rparr>) (ts pkt)) (\<lambda>pm. Some (Inr (Some p, pm))))))
      (\<lambda>r. case fst r of None \<Rightarrow> Some (Inr (snd r))
       | Some p \<Rightarrow> bindo (Some (process_packet dname_eq (snd r) p)) (\<lambda>pm. matcher_loop dname_eq pm)))"
    by (simp only: matcher_loop.simps [of dname_eq pm] dns_worker_packet_matcher_next_packet.simps [of pm] bindo_assoc)
qed

lemma loop_between:
  assumes "pm_inframe pm = None" and "pm_in pm = f # fs"
  shows "frame_type f = 1 \<Longrightarrow> matcher_loop dname_eq pm =
      bindo (dns_packet_frame_destroy (pm_heap pm) f) (\<lambda>h. Some (Inr (pm\<lparr>pm_in := fs, pm_heap := h\<rparr>)))"
    and "frame_type f \<noteq> 1 \<Longrightarrow> fr_count f = 0 \<and> time_start f = DNS_NO_TIME \<Longrightarrow> matcher_loop dname_eq pm =
      bindo (dns_packet_frame_destroy (pm_heap pm) f) (\<lambda>h. matcher_loop dname_eq (pm\<lparr>pm_in := fs, pm_heap := h\<rparr>))"
    and "frame_type f \<noteq> 1 \<Longrightarrow> \<not> (fr_count f = 0 \<and> time_start f = DNS_NO_TIME) \<Longrightarrow> matcher_loop dname_eq pm =
      bindo (Some (assertr (time_start f \<noteq> DNS_NO_TIME) ''pm->inframe->time_start != DNS_NO_TIME'')) (\<lambda>_.
      bindo (dns_worker_packet_matcher_advance_time_to (open_frame f (pm\<lparr>pm_in := fs\<rparr>)) (time_start f))
        (matcher_loop dname_eq))"
proof -
  obtain L where L: "matcher_loop dname_eq x = bindo (load_frame x) L" for x
    using loop_after_load [of dname_eq] by blast
  note load = load_frame.simps [of pm]
  show "matcher_loop dname_eq pm =
      bindo (dns_packet_frame_destroy (pm_heap pm) f) (\<lambda>h. Some (Inr (pm\<lparr>pm_in := fs, pm_heap := h\<rparr>)))"
    if "frame_type f = 1"
    using assms that by (simp add: matcher_loop.simps [of dname_eq pm]
        dns_worker_packet_matcher_next_packet.simps [of pm] load bindo_assoc)
  show "matcher_loop dname_eq pm =
      bindo (dns_packet_frame_destroy (pm_heap pm) f) (\<lambda>h. matcher_loop dname_eq (pm\<lparr>pm_in := fs, pm_heap := h\<rparr>))"
    if "frame_type f \<noteq> 1" "fr_count f = 0 \<and> time_start f = DNS_NO_TIME"
    using assms that by (simp add: L load bindo_assoc)
  show "matcher_loop dname_eq pm =
      bindo (Some (assertr (time_start f \<noteq> DNS_NO_TIME) ''pm->inframe->time_start != DNS_NO_TIME'')) (\<lambda>_.
      bindo (dns_worker_packet_matcher_advance_time_to (open_frame f (pm\<lparr>pm_in := fs\<rparr>)) (time_start f))
        (matcher_loop dname_eq))"
    if "frame_type f \<noteq> 1" "\<not> (fr_count f = 0 \<and> time_start f = DNS_NO_TIME)"
    using assms that by (auto simp: L [abs_def] load bindo_assoc open_frame_def started_def Let_def)
qed

lemma loop_packets:
  assumes "matcher_loop dname_eq pm = Some (Inr pm')" and "pm_inframe pm = Some (f\<lparr>fr_packets := ps\<rparr>)" and "sent_over n pm"
  shows "\<exists>pm1. consume_packets dname_eq f ps pm = Some (Inr pm1) \<and> matcher_loop dname_eq pm1 = Some (Inr pm') \<and>
    pm_inframe pm1 = Some (f\<lparr>fr_packets := []\<rparr>)"
  using assms
proof (induction ps arbitrary: pm)
  case (Cons p ps)
  let ?pm = "pm\<lparr>pm_inframe := Some (f\<lparr>fr_packets := ps\<rparr>)\<rparr>"
  from Cons.prems(1) obtain pkt pm1 pm2 where d: "deref (pm_heap pm) p = Inr pkt"
    and a: "dns_worker_packet_matcher_advance_time_to ?pm (ts pkt) = Some (Inr pm1)"
    and p: "process_packet dname_eq pm1 p = Inr pm2" and l: "matcher_loop dname_eq pm2 = Some (Inr pm')"
    by (auto simp: loop_packet [OF Cons.prems(2)] bindo_Inr_iff)
  have "sent_over n ?pm" using Cons.prems(3) by (simp add: sent_over_def)
  from same_runD(2) [OF advance_same this a, of True]
  have 1: "sent_over n pm1" "pm_inframe pm1 = Some (f\<lparr>fr_packets := ps\<rparr>)" by (simp_all add: untouched_def)
  have "Some (process_packet dname_eq pm1 p) = Some (Inr pm2)" using p by simp
  from same_runD(2) [OF process_packet_same 1(1) this, of True]
  have "sent_over n pm2" "pm_inframe pm2 = Some (f\<lparr>fr_packets := ps\<rparr>)" using 1 by (simp_all add: untouched_def)
  from Cons.IH [OF l this(2,1)] show ?case using d a p by simp
qed auto

lemma loop_frame:
  assumes run: "matcher_loop dname_eq pm = Some (Inr pm')" and "pm_inframe pm = None" and "pm_in pm = f # fs"
    and "frame_type f \<noteq> 1" and sent: "sent_over n pm"
  shows "\<exists>pm1. consume_frame dname_eq f (pm\<lparr>pm_in := fs\<rparr>) = Some (Inr pm1) \<and>
    matcher_loop dname_eq pm1 = Some (Inr pm') \<and> pm_inframe pm1 = None"
proof (cases "fr_count f = 0 \<and> time_start f = DNS_NO_TIME")
  case True
  with run assms(2) show ?thesis
    by (auto simp: loop_between(2) [OF assms(2-4) True] bindo_Inr_iff consume_frame_def)
next
  case False
  let ?pm = "open_frame f (pm\<lparr>pm_in := fs\<rparr>)"
  from run obtain pm1 where t: "time_start f \<noteq> DNS_NO_TIME"
    and a: "dns_worker_packet_matcher_advance_time_to ?pm (time_start f) = Some (Inr pm1)"
    and l: "matcher_loop dname_eq pm1 = Some (Inr pm')"
    by (auto simp: loop_between(3) [OF assms(2-4) False] bindo_Inr_iff assertr_Inr_iff)
  have o: "sent_over n ?pm" "pm_inframe ?pm = Some f"
    using sent by (simp_all add: open_frame_def started_def sent_over_def Let_def)
  from same_runD(2) [OF advance_same o(1) a, of True] o(2)
  have 1: "sent_over n pm1" "pm_inframe pm1 = Some (f\<lparr>fr_packets := fr_packets f\<rparr>)" by (simp_all add: untouched_def)
  from loop_packets [OF l 1(2,1)] obtain pm2 where c: "consume_packets dname_eq f (fr_packets f) pm1 = Some (Inr pm2)"
    and l2: "matcher_loop dname_eq pm2 = Some (Inr pm')" and i2: "pm_inframe pm2 = Some (f\<lparr>fr_packets := []\<rparr>)"
    by blast
  from l2 obtain pm3 h where b: "dns_worker_packet_matcher_advance_time_to pm2 (time_end f) = Some (Inr pm3)"
    and d: "dns_packet_frame_destroy (pm_heap pm3) (f\<lparr>fr_packets := []\<rparr>) = Some (Inr h)"
    and e: "matcher_loop dname_eq (pm3\<lparr>pm_heap := h, pm_inframe := None\<rparr>) = Some (Inr pm')"
    by (auto simp: loop_close [OF i2] bindo_Inr_iff)
  show ?thesis using False t a c b d e by (simp add: consume_frame_def)
qed

text \<open>The thread as a whole: the frames it sends are those of its rounds, in order.\<close>

lemma main_rounds:
  assumes "dns_worker_packet_matcher_main dname_eq pm = Some (Inr pm')" and "pm_inframe pm = None"
    and "pm_in pm = frames" and "input_ok hp frames" and "pm_out pm = Some sent"
  shows "\<exists>rest. pm_out pm' = Some (sent @ rest) \<and>
    run_react (matcher_react dname_eq) (pm\<lparr>pm_in := [], pm_out := out\<rparr>) frames = Some rest"
  using assms
proof (induction frames arbitrary: pm sent out)
  case (Cons f fs)
  let ?n = "length sent" and ?pm = "pm\<lparr>pm_in := fs\<rparr>"
  from Cons.prems(1) obtain pml where l: "matcher_loop dname_eq pm = Some (Inr pml)"
    and fin: "matcher_finish pml = Some (Inr pm')"
    by (auto simp: dns_worker_packet_matcher_main_def bindo_Inr_iff)
  have s: "sent_over ?n ?pm" "sent_over ?n pm" using Cons.prems(5) by (simp_all add: sent_over_def)
  have f0: "forget_io ?n ?pm = pm\<lparr>pm_in := [], pm_out := Some []\<rparr>" using Cons.prems(5) by (simp add: forget_io_def)
  have round: "\<exists>zs. pm_out pm1 = Some (sent @ zs) \<and> pm_in pm1 = fs \<and>
      matcher_react dname_eq (pm\<lparr>pm_in := [], pm_out := out\<rparr>) f = Some (pm1\<lparr>pm_in := [], pm_out := Some zs\<rparr>, zs)"
    if r: "matcher_round dname_eq ?pm f = Some (Inr pm1)" for pm1
  proof -
    note d = same_runD [OF matcher_round_same s(1) r]
    from d(2) Cons.prems(5) obtain zs where z: "pm_out pm1 = Some (sent @ zs)" and "pm_in pm1 = fs"
      by (auto simp: untouched_def sent_over_def) (metis append_take_drop_id)
    moreover have "forget_io ?n pm1 = pm1\<lparr>pm_in := [], pm_out := Some zs\<rparr>" using z by (simp add: forget_io_def)
    ultimately show ?thesis using d(1) by (simp add: f0 matcher_react_def)
  qed
  show ?case
  proof (cases "frame_type f = 1")
    case True
    with Cons.prems(4) have fs: "fs = []" by simp
    have "matcher_round dname_eq ?pm f = Some (Inr pm')"
      using l fin True by (auto simp: loop_between(1) [OF Cons.prems(2,3) True] bindo_Inr_iff matcher_round_def)
    from round [OF this] show ?thesis by (auto simp: fs)
  next
    case False
    from loop_frame [OF l Cons.prems(2,3) False s(2)] obtain pm1 where
      c: "consume_frame dname_eq f ?pm = Some (Inr pm1)" and l1: "matcher_loop dname_eq pm1 = Some (Inr pml)"
      and i1: "pm_inframe pm1 = None" by blast
    from c False have "matcher_round dname_eq ?pm f = Some (Inr pm1)" by (simp add: matcher_round_def)
    from round [OF this] obtain zs where z: "pm_out pm1 = Some (sent @ zs)" "pm_in pm1 = fs"
      and re: "matcher_react dname_eq (pm\<lparr>pm_in := [], pm_out := out\<rparr>) f = Some (pm1\<lparr>pm_in := [], pm_out := Some zs\<rparr>, zs)"
      by blast
    have "dns_worker_packet_matcher_main dname_eq pm1 = Some (Inr pm')"
      using l1 fin by (simp add: dns_worker_packet_matcher_main_def)
    moreover have "input_ok hp fs" using Cons.prems(4) False by simp
    ultimately obtain rest where "pm_out pm' = Some ((sent @ zs) @ rest)"
      "run_react (matcher_react dname_eq) (pm1\<lparr>pm_in := [], pm_out := Some zs\<rparr>) fs = Some rest"
      using Cons.IH [OF _ i1 z(2) _ z(1)] by blast
    with re show ?thesis by simp
  qed
qed simp

interpretation mp: staged_channel queue_frames blocking_inv fq_capacity try_enqueue try_dequeue "matcher_react dname_eq"
  for dname_eq by unfold_locales

lemma matcher_run_react:
  assumes "matcher_ready random1 random2 hp conf frames"
    and "dns_worker_packet_matcher_create random1 random2 hp conf [] True = Inr pm0"
    and "matcher_run dname_eq random1 random2 hp conf frames = Some (Inr pm)" and "pm_out pm = Some outs"
  shows "run_react (matcher_react dname_eq) pm0 frames = Some outs"
proof -
  from assms(2,3) have m: "dns_worker_packet_matcher_main dname_eq (pm0\<lparr>pm_in := frames\<rparr>) = Some (Inr pm)"
    and p: "pm_inframe pm0 = None" "pm_out pm0 = Some []" "pm_in pm0 = []"
    by (auto simp: matcher_run_def dns_worker_packet_matcher_create_def Let_def bindr_Inr_iff assertr_Inr_iff)
  have e: "pm0\<lparr>pm_in := [], pm_out := Some []\<rparr> = pm0" using p by (cases pm0) simp
  have "input_ok hp frames" using assms(1) by (simp add: matcher_ready_def)
  from main_rounds [OF m _ _ this, of "[]" "Some []"] p assms(4)
  have "run_react (matcher_react dname_eq) (pm0\<lparr>pm_in := [], pm_out := Some []\<rparr>) frames = Some outs" by simp
  then show ?thesis by (simp only: e)
qed

section \<open>Properties\<close>



end
