(* ===== verification/Cbor_Parser.thy ===== *)
theory Cbor_Parser
  imports Cbor_Encoder
begin

text \<open>
  The parser of tinycbor (\<^verbatim>\<open>tinycbor/src/cborparser.c\<close>, the inline functions of \<^verbatim>\<open>tinycbor/src/cbor.h\<close>).
  The bytes in memory are a list, pointers are offsets into it; a read outside the list is a bad
  pointer. A \<open>CborValue\<close> is the record \<open>cbor_value\<close>, with the parser that it points to inside.
  Functions return the error code, the changed iterator and their results. \<open>cbor_assert\<close> is \<open>assertr\<close>.
\<close>

section \<open>Memory\<close>

definition byte_at :: "u8 list \<Rightarrow> nat \<Rightarrow> u8 res" where
  "byte_at mem p = (if p < length mem then Inr (mem ! p) else Inl (Bad_pointer ''byte''))"

definition bytes_at :: "u8 list \<Rightarrow> nat \<Rightarrow> nat \<Rightarrow> u8 list res" where
  "bytes_at mem p n = (if p + n \<le> length mem then Inr (take n (drop p mem)) else Inl (Bad_pointer ''bytes''))"

text \<open>The number with the given big-endian bytes.\<close>

definition be_value :: "u8 list \<Rightarrow> u64" where
  "be_value bs = foldl (\<lambda>v b. push_bit 8 v OR ucast b) 0 bs"

definition get16 :: "u8 list \<Rightarrow> nat \<Rightarrow> u16 res" where
  "get16 mem p = bindr (bytes_at mem p 2) (\<lambda>bs. Inr (ucast (be_value bs)))"

definition get32 :: "u8 list \<Rightarrow> nat \<Rightarrow> u32 res" where
  "get32 mem p = bindr (bytes_at mem p 4) (\<lambda>bs. Inr (ucast (be_value bs)))"

definition get64 :: "u8 list \<Rightarrow> nat \<Rightarrow> u64 res" where
  "get64 mem p = bindr (bytes_at mem p 8) (\<lambda>bs. Inr (be_value bs))"

text \<open>\<open>(size_t)(end - ptr)\<close>\<close>

definition ptr_diff :: "nat \<Rightarrow> nat \<Rightarrow> u64" where
  "ptr_diff e p = word_of_int (int e - int p)"

section \<open>The iterator\<close>

definition FalseValue :: u8 where
  "FalseValue = 20"

definition TrueValue :: u8 where
  "TrueValue = 21"

definition NullValue :: u8 where
  "NullValue = 22"

definition UndefinedValue :: u8 where
  "UndefinedValue = 23"

definition SimpleTypeInNextByte :: u8 where
  "SimpleTypeInNextByte = 24"

definition SinglePrecisionFloat :: u8 where
  "SinglePrecisionFloat = 26"

definition DoublePrecisionFloat :: u8 where
  "DoublePrecisionFloat = 27"

definition CborIteratorFlag_IteratingStringChunks :: u8 where
  "CborIteratorFlag_IteratingStringChunks = 0x02"

definition CBOR_PARSER_MAX_RECURSIONS :: nat where
  "CBOR_PARSER_MAX_RECURSIONS = 1024"

record cbor_parser =
  cp_end :: nat
  cp_flags :: int

record cbor_value =
  cv_parser :: cbor_parser
  cv_ptr :: nat
  cv_remaining :: u32
  cv_extra :: u16
  cv_type :: u8
  cv_flags :: u8

text \<open>The number in the head at \<open>ptr\<close>, and the pointer behind it.\<close>

definition cbor_value_extract_number :: "u8 list \<Rightarrow> nat \<Rightarrow> nat \<Rightarrow> (CborError \<times> nat \<times> u64) res" where
  "cbor_value_extract_number mem ptr en =
     bindr (byte_at mem ptr) (\<lambda>b.
       let additional_information = unat (b AND SmallValueMask); ptr = ptr + 1 in
       if additional_information < Value8Bit then Inr (CborNoError, ptr, of_nat additional_information)
       else if additional_information > Value64Bit then Inr (CborErrorIllegalNumber, ptr, 0)
       else
         let bytesNeeded = 2 ^ (additional_information - Value8Bit) :: nat in
         if of_nat bytesNeeded > ptr_diff en ptr then Inr (CborErrorUnexpectedEOF, ptr, 0)
         else bindr (if bytesNeeded = 1 then bindr (byte_at mem ptr) (\<lambda>b. Inr (ucast b))
                     else if bytesNeeded = 2 then bindr (get16 mem ptr) (\<lambda>v. Inr (ucast v))
                     else if bytesNeeded = 4 then bindr (get32 mem ptr) (\<lambda>v. Inr (ucast v))
                     else get64 mem ptr) (\<lambda>len.
           Inr (CborNoError, ptr + bytesNeeded, len)))"

text \<open>\<open>size_t\<close> has 64 bits, so the test for a length that is too large never succeeds.\<close>

definition extract_length :: "u8 list \<Rightarrow> nat \<Rightarrow> nat \<Rightarrow> (CborError \<times> nat \<times> u64) res" where
  "extract_length mem ptr en =
     bindr (cbor_value_extract_number mem ptr en) (\<lambda>(err, ptr, v).
       if err \<noteq> CborNoError then Inr (err, ptr, 0)
       else if v \<noteq> (ucast v :: u64) then Inr (CborErrorDataTooLarge, ptr, v)
       else Inr (CborNoError, ptr, v))"

definition is_fixed_type :: "u8 \<Rightarrow> bool" where
  "is_fixed_type type \<longleftrightarrow> type \<noteq> CborType_number CborTextStringType \<and> type \<noteq> CborType_number CborByteStringType \<and>
     type \<noteq> CborType_number CborArrayType \<and> type \<noteq> CborType_number CborMapType"

text \<open>The switch of \<open>preparse_value\<close> on simple values and floating-point numbers.\<close>

definition preparse_simple :: "u8 list \<Rightarrow> cbor_value \<Rightarrow> u8 \<Rightarrow> u8 \<Rightarrow> (CborError \<times> cbor_value) res" where
  "preparse_simple mem it byte descriptor =
     (if descriptor = FalseValue then
        Inr (CborNoError, it\<lparr>cv_extra := 0, cv_type := CborType_number CborBooleanType\<rparr>)
      else if descriptor = SinglePrecisionFloat \<or> descriptor = DoublePrecisionFloat then
        Inr (CborNoError, it\<lparr>cv_flags := cv_flags it OR CborIteratorFlag_IntegerValueTooLarge, cv_type := byte\<rparr>)
      else if descriptor = TrueValue \<or> descriptor = NullValue \<or> descriptor = UndefinedValue \<or> descriptor = HalfPrecisionFloat then
        Inr (CborNoError, it\<lparr>cv_type := byte\<rparr>)
      else if descriptor = SimpleTypeInNextByte then
        bindr (byte_at mem (cv_ptr it + 1)) (\<lambda>b.
          let it = it\<lparr>cv_extra := ucast b\<rparr> in
          if cv_extra it < 32 then
            Inr (CborErrorIllegalSimpleType, it\<lparr>cv_type := CborType_number CborInvalidType\<rparr>)
          else Inr (CborNoError, it))
      else if descriptor \<in> {28, 29, 30, Break} then Inl (Assert_failed ''false'')
      else Inr (CborNoError, it))"

definition preparse_value :: "u8 list \<Rightarrow> cbor_value \<Rightarrow> (CborError \<times> cbor_value) res" where
  "preparse_value mem it =
     (let parser = cv_parser it; it = it\<lparr>cv_type := CborType_number CborInvalidType\<rparr> in
      if cv_ptr it = cp_end parser then Inr (CborErrorUnexpectedEOF, it)
      else bindr (byte_at mem (cv_ptr it)) (\<lambda>byte.
        let type = byte AND MajorTypeMask; descriptor = byte AND SmallValueMask;
            it = it\<lparr>cv_type := type, cv_flags := 0, cv_extra := ucast descriptor\<rparr> in
        if unat descriptor > Value64Bit then
          if unat descriptor \<noteq> IndefiniteLength then
            Inr (if type = CborType_number CborSimpleType then CborErrorUnknownType else CborErrorIllegalNumber, it)
          else if \<not> is_fixed_type type then
            Inr (CborNoError, it\<lparr>cv_flags := cv_flags it OR CborIteratorFlag_UnknownLength, cv_type := type\<rparr>)
          else Inr (if type = CborType_number CborSimpleType then CborErrorUnexpectedBreak else CborErrorIllegalNumber, it)
        else
          let bytesNeeded = (if unat descriptor < Value8Bit then 0 else 2 ^ (unat descriptor - Value8Bit)) :: nat in
          if of_nat (bytesNeeded + 1) > ptr_diff (cp_end parser) (cv_ptr it) then Inr (CborErrorUnexpectedEOF, it)
          else
            let majortype = drop_bit MajorTypeShift type in
            if majortype = CborMajorTypes_number SimpleTypesType then preparse_simple mem it byte descriptor
            else
              let it = (if majortype = CborMajorTypes_number NegativeIntegerType
                        then it\<lparr>cv_flags := cv_flags it OR CborIteratorFlag_NegativeInteger, cv_type := CborType_number CborIntegerType\<rparr>
                        else it) in
              if unat descriptor < Value8Bit then Inr (CborNoError, it)
              else if unat descriptor = Value8Bit then
                bindr (byte_at mem (cv_ptr it + 1)) (\<lambda>b. Inr (CborNoError, it\<lparr>cv_extra := ucast b\<rparr>))
              else if unat descriptor = Value16Bit then
                bindr (get16 mem (cv_ptr it + 1)) (\<lambda>v. Inr (CborNoError, it\<lparr>cv_extra := v\<rparr>))
              else Inr (CborNoError, it\<lparr>cv_flags := cv_flags it OR CborIteratorFlag_IntegerValueTooLarge\<rparr>)))"

text \<open>\<open>UINT32_MAX\<close> remaining items stand for a container of unknown length.\<close>

definition preparse_next_value_nodecrement :: "u8 list \<Rightarrow> cbor_value \<Rightarrow> (CborError \<times> cbor_value) res" where
  "preparse_next_value_nodecrement mem it =
     bindr (if cv_remaining it = 0xFFFFFFFF \<and> cv_ptr it \<noteq> cp_end (cv_parser it)
            then bindr (byte_at mem (cv_ptr it)) (\<lambda>b. Inr (b = BreakByte)) else Inr False) (\<lambda>at_break.
       if at_break then
         Inr (CborNoError, it\<lparr>cv_ptr := cv_ptr it + 1, cv_type := CborType_number CborInvalidType, cv_remaining := 0\<rparr>)
       else preparse_value mem it)"

definition preparse_next_value :: "u8 list \<Rightarrow> cbor_value \<Rightarrow> (CborError \<times> cbor_value) res" where
  "preparse_next_value mem it =
     (if cv_remaining it \<noteq> 0xFFFFFFFF \<and> cv_type it \<noteq> CborType_number CborTagType then
        let it = it\<lparr>cv_remaining := cv_remaining it - 1\<rparr> in
        if cv_remaining it = 0 then Inr (CborNoError, it\<lparr>cv_type := CborType_number CborInvalidType\<rparr>)
        else preparse_next_value_nodecrement mem it
      else preparse_next_value_nodecrement mem it)"

definition advance_internal :: "u8 list \<Rightarrow> cbor_value \<Rightarrow> (CborError \<times> cbor_value) res" where
  "advance_internal mem it =
     bindr (cbor_value_extract_number mem (cv_ptr it) (cp_end (cv_parser it))) (\<lambda>(err, ptr, length).
     bindr (assertr (err = CborNoError) ''err == CborNoError'') (\<lambda>_.
     let it = it\<lparr>cv_ptr := ptr\<rparr> in
     if cv_type it = CborType_number CborByteStringType \<or> cv_type it = CborType_number CborTextStringType then
       bindr (assertr (length = (ucast length :: u64)) ''length == (size_t)length'') (\<lambda>_.
       bindr (assertr (cv_flags it AND CborIteratorFlag_UnknownLength = 0) ''(it->flags & CborIteratorFlag_UnknownLength) == 0'') (\<lambda>_.
         preparse_next_value mem (it\<lparr>cv_ptr := cv_ptr it + unat length\<rparr>)))
     else preparse_next_value mem it))"

definition cbor_value_decode_int64_internal :: "u8 list \<Rightarrow> cbor_value \<Rightarrow> u64 res" where
  "cbor_value_decode_int64_internal mem it =
     bindr (assertr (cv_flags it AND CborIteratorFlag_IntegerValueTooLarge \<noteq> 0 \<or>
         cv_type it = CborType_number CborFloatType \<or> cv_type it = CborType_number CborDoubleType) ''flags'') (\<lambda>_.
     bindr (byte_at mem (cv_ptr it)) (\<lambda>b.
     bindr (assertr (unat (b AND SmallValueMask) = Value32Bit \<or> unat (b AND SmallValueMask) = Value64Bit)
         ''(*value->ptr & SmallValueMask) == Value32Bit || (*value->ptr & SmallValueMask) == Value64Bit'') (\<lambda>_.
     if b AND 1 = of_nat Value32Bit AND 1 then bindr (get32 mem (cv_ptr it + 1)) (\<lambda>v. Inr (ucast v))
     else bindr (assertr (unat (b AND SmallValueMask) = Value64Bit) ''(*value->ptr & SmallValueMask) == Value64Bit'') (\<lambda>_.
       get64 mem (cv_ptr it + 1)))))"

text \<open>The fields of the iterator that \<open>preparse_value\<close> does not set before an error have no value in C; they are 0 here.\<close>

definition cbor_parser_init :: "u8 list \<Rightarrow> nat \<Rightarrow> nat \<Rightarrow> int \<Rightarrow> (CborError \<times> cbor_value) res" where
  "cbor_parser_init mem buffer sz flags =
     preparse_value mem \<lparr>cv_parser = \<lparr>cp_end = buffer + sz, cp_flags = flags\<rparr>, cv_ptr = buffer, cv_remaining = 1,
       cv_extra = 0, cv_type = 0, cv_flags = 0\<rparr>"

section \<open>Predicates and containers\<close>

definition cbor_value_at_end :: "cbor_value \<Rightarrow> bool" where
  "cbor_value_at_end it \<longleftrightarrow> cv_remaining it = 0"

definition cbor_value_get_next_byte :: "cbor_value \<Rightarrow> nat" where
  "cbor_value_get_next_byte it = cv_ptr it"

definition cbor_value_is_valid :: "cbor_value \<Rightarrow> bool" where
  "cbor_value_is_valid it \<longleftrightarrow> cv_type it \<noteq> CborType_number CborInvalidType"

definition cbor_value_get_type :: "cbor_value \<Rightarrow> u8" where
  "cbor_value_get_type it = cv_type it"

definition cbor_value_is_container :: "cbor_value \<Rightarrow> bool" where
  "cbor_value_is_container it \<longleftrightarrow> cv_type it = CborType_number CborArrayType \<or> cv_type it = CborType_number CborMapType"

definition cbor_value_is_null :: "cbor_value \<Rightarrow> bool" where
  "cbor_value_is_null it \<longleftrightarrow> cv_type it = CborType_number CborNullType"

definition cbor_value_is_undefined :: "cbor_value \<Rightarrow> bool" where
  "cbor_value_is_undefined it \<longleftrightarrow> cv_type it = CborType_number CborUndefinedType"

definition cbor_value_is_boolean :: "cbor_value \<Rightarrow> bool" where
  "cbor_value_is_boolean it \<longleftrightarrow> cv_type it = CborType_number CborBooleanType"

definition cbor_value_is_simple_type :: "cbor_value \<Rightarrow> bool" where
  "cbor_value_is_simple_type it \<longleftrightarrow> cv_type it = CborType_number CborSimpleType"

definition cbor_value_is_integer :: "cbor_value \<Rightarrow> bool" where
  "cbor_value_is_integer it \<longleftrightarrow> cv_type it = CborType_number CborIntegerType"

definition cbor_value_is_unsigned_integer :: "cbor_value \<Rightarrow> bool" where
  "cbor_value_is_unsigned_integer it \<longleftrightarrow> cbor_value_is_integer it \<and> cv_flags it AND CborIteratorFlag_NegativeInteger = 0"

definition cbor_value_is_negative_integer :: "cbor_value \<Rightarrow> bool" where
  "cbor_value_is_negative_integer it \<longleftrightarrow> cbor_value_is_integer it \<and> cv_flags it AND CborIteratorFlag_NegativeInteger \<noteq> 0"

definition cbor_value_is_length_known :: "cbor_value \<Rightarrow> bool" where
  "cbor_value_is_length_known it \<longleftrightarrow> cv_flags it AND CborIteratorFlag_UnknownLength = 0"

definition cbor_value_is_tag :: "cbor_value \<Rightarrow> bool" where
  "cbor_value_is_tag it \<longleftrightarrow> cv_type it = CborType_number CborTagType"

definition cbor_value_is_byte_string :: "cbor_value \<Rightarrow> bool" where
  "cbor_value_is_byte_string it \<longleftrightarrow> cv_type it = CborType_number CborByteStringType"

definition cbor_value_is_text_string :: "cbor_value \<Rightarrow> bool" where
  "cbor_value_is_text_string it \<longleftrightarrow> cv_type it = CborType_number CborTextStringType"

definition cbor_value_is_array :: "cbor_value \<Rightarrow> bool" where
  "cbor_value_is_array it \<longleftrightarrow> cv_type it = CborType_number CborArrayType"

definition cbor_value_is_map :: "cbor_value \<Rightarrow> bool" where
  "cbor_value_is_map it \<longleftrightarrow> cv_type it = CborType_number CborMapType"

definition cbor_value_is_half_float :: "cbor_value \<Rightarrow> bool" where
  "cbor_value_is_half_float it \<longleftrightarrow> cv_type it = CborType_number CborHalfFloatType"

definition cbor_value_is_float :: "cbor_value \<Rightarrow> bool" where
  "cbor_value_is_float it \<longleftrightarrow> cv_type it = CborType_number CborFloatType"

definition cbor_value_is_double :: "cbor_value \<Rightarrow> bool" where
  "cbor_value_is_double it \<longleftrightarrow> cv_type it = CborType_number CborDoubleType"

definition cbor_value_advance_fixed :: "u8 list \<Rightarrow> cbor_value \<Rightarrow> (CborError \<times> cbor_value) res" where
  "cbor_value_advance_fixed mem it =
     bindr (assertr (cv_type it \<noteq> CborType_number CborInvalidType) ''it->type != CborInvalidType'') (\<lambda>_.
     bindr (assertr (is_fixed_type (cv_type it)) ''is_fixed_type(it->type)'') (\<lambda>_.
     if cv_remaining it = 0 then Inr (CborErrorAdvancePastEOF, it) else advance_internal mem it))"

text \<open>The result is the iterator over the elements.\<close>

definition cbor_value_enter_container :: "u8 list \<Rightarrow> cbor_value \<Rightarrow> (CborError \<times> cbor_value) res" where
  "cbor_value_enter_container mem it =
     bindr (assertr (cbor_value_is_container it) ''cbor_value_is_container(it)'') (\<lambda>_.
     if cv_flags it AND CborIteratorFlag_UnknownLength \<noteq> 0 then
       preparse_next_value_nodecrement mem (it\<lparr>cv_remaining := 0xFFFFFFFF, cv_ptr := cv_ptr it + 1\<rparr>)
     else
       bindr (cbor_value_extract_number mem (cv_ptr it) (cp_end (cv_parser it))) (\<lambda>(err, ptr, len).
       bindr (assertr (err = CborNoError) ''err == CborNoError'') (\<lambda>_.
       let recursed = it\<lparr>cv_ptr := ptr, cv_remaining := ucast len\<rparr> in
       if ucast (cv_remaining recursed) \<noteq> len \<or> len = 0xFFFFFFFF then
         Inr (CborErrorDataTooLarge, recursed\<lparr>cv_ptr := cv_ptr it\<rparr>)
       else if cv_type recursed = CborType_number CborMapType \<and> cv_remaining recursed > 0xFFFFFFFF div 2 then
         Inr (CborErrorDataTooLarge, recursed\<lparr>cv_ptr := cv_ptr it\<rparr>)
       else
         let recursed = (if cv_type recursed = CborType_number CborMapType
                         then recursed\<lparr>cv_remaining := cv_remaining recursed * 2\<rparr> else recursed) in
         if len = 0 then Inr (CborNoError, recursed\<lparr>cv_type := CborType_number CborInvalidType\<rparr>)
         else preparse_next_value_nodecrement mem recursed)))"

definition cbor_value_leave_container :: "u8 list \<Rightarrow> cbor_value \<Rightarrow> cbor_value \<Rightarrow> (CborError \<times> cbor_value) res" where
  "cbor_value_leave_container mem it recursed =
     bindr (assertr (cbor_value_is_container it) ''cbor_value_is_container(it)'') (\<lambda>_.
     bindr (assertr (cv_type recursed = CborType_number CborInvalidType) ''recursed->type == CborInvalidType'') (\<lambda>_.
     preparse_next_value mem (it\<lparr>cv_ptr := cv_ptr recursed\<rparr>)))"

partial_function (option) cbor_value_skip_tag :: "u8 list \<Rightarrow> cbor_value \<Rightarrow> (CborError \<times> cbor_value) run" where
  "cbor_value_skip_tag mem it =
     (if cbor_value_is_tag it then
        bindo (Some (cbor_value_advance_fixed mem it)) (\<lambda>r.
          if fst r \<noteq> CborNoError then Some (Inr r) else cbor_value_skip_tag mem (snd r))
      else Some (Inr (CborNoError, it)))"

section \<open>Numbers\<close>

definition cbor_value_extract_int64_helper :: "u8 list \<Rightarrow> cbor_value \<Rightarrow> u64 res" where
  "cbor_value_extract_int64_helper mem it =
     (if cv_flags it AND CborIteratorFlag_IntegerValueTooLarge \<noteq> 0 then cbor_value_decode_int64_internal mem it
      else Inr (ucast (cv_extra it)))"

definition cbor_value_get_boolean :: "cbor_value \<Rightarrow> bool res" where
  "cbor_value_get_boolean it =
     bindr (assertr (cbor_value_is_boolean it) ''cbor_value_is_boolean(value)'') (\<lambda>_. Inr (cv_extra it \<noteq> 0))"

definition cbor_value_get_simple_type :: "cbor_value \<Rightarrow> u8 res" where
  "cbor_value_get_simple_type it =
     bindr (assertr (cbor_value_is_simple_type it) ''cbor_value_is_simple_type(value)'') (\<lambda>_. Inr (ucast (cv_extra it)))"

definition cbor_value_get_raw_integer :: "u8 list \<Rightarrow> cbor_value \<Rightarrow> u64 res" where
  "cbor_value_get_raw_integer mem it =
     bindr (assertr (cbor_value_is_integer it) ''cbor_value_is_integer(value)'') (\<lambda>_. cbor_value_extract_int64_helper mem it)"

definition cbor_value_get_uint64 :: "u8 list \<Rightarrow> cbor_value \<Rightarrow> u64 res" where
  "cbor_value_get_uint64 mem it =
     bindr (assertr (cbor_value_is_unsigned_integer it) ''cbor_value_is_unsigned_integer(value)'') (\<lambda>_.
       cbor_value_extract_int64_helper mem it)"

text \<open>An \<open>int64_t\<close> and an \<open>int\<close> are the words of their bits; \<open>-x - 1\<close> does not overflow.\<close>

definition cbor_value_get_int64 :: "u8 list \<Rightarrow> cbor_value \<Rightarrow> u64 res" where
  "cbor_value_get_int64 mem it =
     bindr (assertr (cbor_value_is_integer it) ''cbor_value_is_integer(value)'') (\<lambda>_.
     bindr (cbor_value_extract_int64_helper mem it) (\<lambda>result.
       Inr (if cv_flags it AND CborIteratorFlag_NegativeInteger \<noteq> 0 then - result - 1 else result)))"

definition cbor_value_get_int :: "u8 list \<Rightarrow> cbor_value \<Rightarrow> u32 res" where
  "cbor_value_get_int mem it =
     bindr (assertr (cbor_value_is_integer it) ''cbor_value_is_integer(value)'') (\<lambda>_.
     bindr (cbor_value_extract_int64_helper mem it) (\<lambda>v.
       let result = ucast v in Inr (if cv_flags it AND CborIteratorFlag_NegativeInteger \<noteq> 0 then - result - 1 else result)))"

definition cbor_value_get_int64_checked :: "u8 list \<Rightarrow> cbor_value \<Rightarrow> (CborError \<times> u64) res" where
  "cbor_value_get_int64_checked mem it =
     bindr (assertr (cbor_value_is_integer it) ''cbor_value_is_integer(value)'') (\<lambda>_.
     bindr (cbor_value_extract_int64_helper mem it) (\<lambda>v.
       if v > 0x7FFFFFFFFFFFFFFF then Inr (CborErrorDataTooLarge, 0)
       else Inr (CborNoError, if cv_flags it AND CborIteratorFlag_NegativeInteger \<noteq> 0 then - v - 1 else v)))"

definition cbor_value_get_int_checked :: "u8 list \<Rightarrow> cbor_value \<Rightarrow> (CborError \<times> u32) res" where
  "cbor_value_get_int_checked mem it =
     bindr (assertr (cbor_value_is_integer it) ''cbor_value_is_integer(value)'') (\<lambda>_.
     bindr (cbor_value_extract_int64_helper mem it) (\<lambda>v.
       if cv_flags it AND CborIteratorFlag_NegativeInteger \<noteq> 0 then
         if v > 0x7FFFFFFF then Inr (CborErrorDataTooLarge, 0) else Inr (CborNoError, - ucast v - 1)
       else if v > 0x7FFFFFFF then Inr (CborErrorDataTooLarge, 0)
       else Inr (CborNoError, ucast v)))"

definition cbor_value_get_tag :: "u8 list \<Rightarrow> cbor_value \<Rightarrow> u64 res" where
  "cbor_value_get_tag mem it =
     bindr (assertr (cbor_value_is_tag it) ''cbor_value_is_tag(value)'') (\<lambda>_. cbor_value_extract_int64_helper mem it)"

text \<open>The three length functions after their assertion; again the test of the conversion never fails.\<close>

definition known_length :: "u8 list \<Rightarrow> cbor_value \<Rightarrow> (CborError \<times> u64) res" where
  "known_length mem it =
     (if \<not> cbor_value_is_length_known it then Inr (CborErrorUnknownLength, 0)
      else bindr (cbor_value_extract_int64_helper mem it) (\<lambda>v.
        if (ucast v :: u64) \<noteq> v then Inr (CborErrorDataTooLarge, v) else Inr (CborNoError, v)))"

definition cbor_value_get_string_length :: "u8 list \<Rightarrow> cbor_value \<Rightarrow> (CborError \<times> u64) res" where
  "cbor_value_get_string_length mem it =
     bindr (assertr (cbor_value_is_byte_string it \<or> cbor_value_is_text_string it)
       ''cbor_value_is_byte_string(value) || cbor_value_is_text_string(value)'') (\<lambda>_. known_length mem it)"

definition cbor_value_get_array_length :: "u8 list \<Rightarrow> cbor_value \<Rightarrow> (CborError \<times> u64) res" where
  "cbor_value_get_array_length mem it =
     bindr (assertr (cbor_value_is_array it) ''cbor_value_is_array(value)'') (\<lambda>_. known_length mem it)"

definition cbor_value_get_map_length :: "u8 list \<Rightarrow> cbor_value \<Rightarrow> (CborError \<times> u64) res" where
  "cbor_value_get_map_length mem it =
     bindr (assertr (cbor_value_is_map it) ''cbor_value_is_map(value)'') (\<lambda>_. known_length mem it)"

text \<open>Floating-point numbers are the words of their bits.\<close>

definition cbor_value_get_half_float :: "u8 list \<Rightarrow> cbor_value \<Rightarrow> u16 res" where
  "cbor_value_get_half_float mem it =
     bindr (assertr (cbor_value_is_half_float it) ''cbor_value_is_half_float(value)'') (\<lambda>_. get16 mem (cv_ptr it + 1))"

definition cbor_value_get_float :: "u8 list \<Rightarrow> cbor_value \<Rightarrow> u32 res" where
  "cbor_value_get_float mem it =
     bindr (assertr (cbor_value_is_float it) ''cbor_value_is_float(value)'') (\<lambda>_.
     bindr (assertr (cv_flags it AND CborIteratorFlag_IntegerValueTooLarge \<noteq> 0) ''value->flags & CborIteratorFlag_IntegerValueTooLarge'') (\<lambda>_.
     bindr (cbor_value_decode_int64_internal mem it) (\<lambda>v. Inr (ucast v))))"

definition cbor_value_get_double :: "u8 list \<Rightarrow> cbor_value \<Rightarrow> u64 res" where
  "cbor_value_get_double mem it =
     bindr (assertr (cbor_value_is_double it) ''cbor_value_is_double(value)'') (\<lambda>_.
     bindr (assertr (cv_flags it AND CborIteratorFlag_IntegerValueTooLarge \<noteq> 0) ''value->flags & CborIteratorFlag_IntegerValueTooLarge'') (\<lambda>_.
     cbor_value_decode_int64_internal mem it))"

section \<open>Strings\<close>

definition prepare_string_iteration :: "cbor_value \<Rightarrow> cbor_value" where
  "prepare_string_iteration it =
     (if \<not> cbor_value_is_length_known it
      then it\<lparr>cv_ptr := cv_ptr it + 1, cv_flags := cv_flags it OR CborIteratorFlag_IteratingStringChunks\<rparr> else it)"

definition cbor_value_prepare_string_iteration :: "cbor_value \<Rightarrow> (CborError \<times> cbor_value) res" where
  "cbor_value_prepare_string_iteration it =
     bindr (assertr (cv_flags it AND CborIteratorFlag_IteratingStringChunks = 0)
         ''(it->flags & CborIteratorFlag_IteratingStringChunks) == 0'') (\<lambda>_.
     let it = prepare_string_iteration it in
     if cv_ptr it = cp_end (cv_parser it) then Inr (CborErrorUnexpectedEOF, it) else Inr (CborNoError, it))"

text \<open>The chunk is its offset and its length; \<open>None\<close> is the null pointer after the last one.\<close>

definition last_chunk :: "u8 list \<Rightarrow> cbor_value \<Rightarrow> (CborError \<times> (nat \<times> u64) option \<times> cbor_value) res" where
  "last_chunk mem it = bindr (preparse_next_value mem it) (\<lambda>(err, it). Inr (err, None, it))"

text \<open>The chunk at the iterator, which is not at the end of the memory.\<close>

definition next_chunk :: "u8 list \<Rightarrow> cbor_value \<Rightarrow> (CborError \<times> (nat \<times> u64) option \<times> cbor_value) res" where
  "next_chunk mem it =
     bindr (byte_at mem (cv_ptr it)) (\<lambda>b.
      if b = BreakByte then last_chunk mem (it\<lparr>cv_ptr := cv_ptr it + 1\<rparr>)
      else if b AND MajorTypeMask = cv_type it then
        bindr (extract_length mem (cv_ptr it) (cp_end (cv_parser it))) (\<lambda>(err, ptr, len).
          let it = it\<lparr>cv_ptr := ptr\<rparr> in
          if err \<noteq> CborNoError then Inr (err, None, it)
          else if len > ptr_diff (cp_end (cv_parser it)) (cv_ptr it) then Inr (CborErrorUnexpectedEOF, None, it)
          else Inr (CborNoError, Some (cv_ptr it, len),
            it\<lparr>cv_ptr := cv_ptr it + unat len, cv_flags := cv_flags it OR CborIteratorFlag_IteratingStringChunks\<rparr>))
      else Inr (CborErrorIllegalType, None, it))"

definition get_string_chunk :: "u8 list \<Rightarrow> cbor_value \<Rightarrow> (CborError \<times> (nat \<times> u64) option \<times> cbor_value) res" where
  "get_string_chunk mem it =
     (if cv_flags it AND CborIteratorFlag_IteratingStringChunks \<noteq> 0 \<and> cbor_value_is_length_known it then last_chunk mem it
      else
        let it = (if cv_flags it AND CborIteratorFlag_IteratingStringChunks \<noteq> 0 then it else prepare_string_iteration it) in
        if cv_ptr it = cp_end (cv_parser it) then Inr (CborErrorUnexpectedEOF, None, it)
        else next_chunk mem it)"

text \<open>\<open>_cbor_value_get_string_chunk\<close> works on a copy of the iterator, the result.\<close>

definition cbor_value_get_string_chunk ::
    "u8 list \<Rightarrow> cbor_value \<Rightarrow> (CborError \<times> (nat \<times> u64) option \<times> cbor_value) res" where
  "cbor_value_get_string_chunk mem it = get_string_chunk mem it"

text \<open>
  The iteration functions: what they do with the bytes of a chunk, at an offset of the buffer
  that the caller gave. A memory access outside the buffer is a bad pointer.
\<close>

datatype iterate_function = iterate_noop | iterate_memcmp | iterate_memcpy

fun iterate :: "iterate_function \<Rightarrow> u8 list \<Rightarrow> nat \<Rightarrow> u8 list res \<Rightarrow> (bool \<times> u8 list) res" where
  "iterate iterate_noop buf offset src = Inr (True, buf)"
| "iterate iterate_memcmp buf offset src =
     bindr src (\<lambda>bs. bindr (bytes_at buf offset (length bs)) (\<lambda>s1. Inr (s1 = bs, buf)))"
| "iterate iterate_memcpy buf offset src =
     bindr src (\<lambda>bs. bindr (bytes_at buf offset (length bs)) (\<lambda>_.
       Inr (True, take offset buf @ bs @ drop (offset + length bs) buf)))"

text \<open>The loop of \<open>iterate_string_chunks\<close>, which ends with the value of \<open>result\<close>, the buffer and the total length.\<close>

partial_function (option) iterate_chunks_loop ::
    "u8 list \<Rightarrow> iterate_function \<Rightarrow> u64 \<Rightarrow> u8 list \<Rightarrow> u64 \<Rightarrow> bool \<Rightarrow> cbor_value \<Rightarrow>
     (CborError \<times> bool \<times> u8 list \<times> u64 \<times> cbor_value) run" where
  "iterate_chunks_loop mem func buflen buf total_len result it =
     bindo (Some (get_string_chunk mem it)) (\<lambda>r.
       let err = fst r; it = snd (snd r) in
       if err \<noteq> CborNoError then Some (Inr (err, result, buf, total_len, it))
       else case fst (snd r) of
         None \<Rightarrow> Some (Inr (CborNoError, result, buf, total_len, it))
       | Some c \<Rightarrow>
           let newTotal = total_len + snd c in
           if total_len > newTotal then Some (Inr (CborErrorDataTooLarge, result, buf, total_len, it))
           else
             bindo (Some (if result \<and> buflen \<ge> newTotal then iterate func buf (unat total_len) (bytes_at mem (fst c) (unat (snd c)))
                          else Inr (False, buf))) (\<lambda>q.
               iterate_chunks_loop mem func buflen (snd q) newTotal (fst q) it))"

definition iterate_string_chunks ::
    "u8 list \<Rightarrow> iterate_function \<Rightarrow> u64 \<Rightarrow> u8 list \<Rightarrow> cbor_value \<Rightarrow>
     (CborError \<times> bool \<times> u8 list \<times> u64 \<times> cbor_value) run" where
  "iterate_string_chunks mem func buflen buf it =
     bindo (Some (assertr (cbor_value_is_byte_string it \<or> cbor_value_is_text_string it)
         ''cbor_value_is_byte_string(value) || cbor_value_is_text_string(value)'')) (\<lambda>_.
     bindo (iterate_chunks_loop mem func buflen buf 0 True it) (\<lambda>(err, result, buf, total_len, it).
       if err \<noteq> CborNoError then Some (Inr (err, result, buf, buflen, it))
       else
         bindo (Some (if result \<and> buflen > total_len then iterate func buf (unat total_len) (Inr [0]) else Inr (result, buf))) (\<lambda>(result, buf).
           Some (Inr (CborNoError, result, buf, total_len, it)))))"

text \<open>The buffer is \<open>None\<close> for a null pointer. The result has the buffer, the length and the next iterator.\<close>

definition cbor_value_copy_string ::
    "u8 list \<Rightarrow> u8 list option \<Rightarrow> u64 \<Rightarrow> cbor_value \<Rightarrow> (CborError \<times> u8 list option \<times> u64 \<times> cbor_value) run" where
  "cbor_value_copy_string mem buffer buflen it =
     bindo (iterate_string_chunks mem (if buffer \<noteq> None then iterate_memcpy else iterate_noop) buflen
         (case buffer of None \<Rightarrow> [] | Some buf \<Rightarrow> buf) it) (\<lambda>(err, copied_all, buf, len, it).
       Some (Inr (if err \<noteq> CborNoError then err else if copied_all then CborNoError else CborErrorOutOfMemory,
         map_option (\<lambda>_. buf) buffer, len, it)))"

definition cbor_value_calculate_string_length :: "u8 list \<Rightarrow> cbor_value \<Rightarrow> (CborError \<times> u64) run" where
  "cbor_value_calculate_string_length mem it =
     bindo (cbor_value_copy_string mem None (- 1) it) (\<lambda>(err, buf, len, next_it). Some (Inr (err, len)))"

definition cbor_value_copy_text_string ::
    "u8 list \<Rightarrow> u8 list option \<Rightarrow> u64 \<Rightarrow> cbor_value \<Rightarrow> (CborError \<times> u8 list option \<times> u64 \<times> cbor_value) run" where
  "cbor_value_copy_text_string mem buffer buflen it =
     bindo (Some (assertr (cbor_value_is_text_string it) ''cbor_value_is_text_string(value)'')) (\<lambda>_.
       cbor_value_copy_string mem buffer buflen it)"

definition cbor_value_copy_byte_string ::
    "u8 list \<Rightarrow> u8 list option \<Rightarrow> u64 \<Rightarrow> cbor_value \<Rightarrow> (CborError \<times> u8 list option \<times> u64 \<times> cbor_value) run" where
  "cbor_value_copy_byte_string mem buffer buflen it =
     bindo (Some (assertr (cbor_value_is_byte_string it) ''cbor_value_is_byte_string(value)'')) (\<lambda>_.
       cbor_value_copy_string mem buffer buflen it)"

text \<open>
  \<open>_cbor_value_dup_string\<close>: \<open>alloc n\<close> tells whether \<open>malloc(n)\<close> succeeds; the bytes of new memory
  are 0 here. The buffer is \<open>None\<close> unless the string was copied.
\<close>

definition cbor_value_dup_string ::
    "(u64 \<Rightarrow> bool) \<Rightarrow> u8 list \<Rightarrow> cbor_value \<Rightarrow> (CborError \<times> u8 list option \<times> u64 \<times> cbor_value) run" where
  "cbor_value_dup_string alloc mem it =
     bindo (cbor_value_copy_string mem None (- 1) it) (\<lambda>(err, _, buflen, _).
       if err \<noteq> CborNoError then Some (Inr (err, None, buflen, it))
       else
         let buflen = buflen + 1 in
         if \<not> alloc buflen then Some (Inr (CborErrorOutOfMemory, None, buflen, it))
         else
           bindo (cbor_value_copy_string mem (Some (replicate (unat buflen) 0)) buflen it) (\<lambda>(err, buf, buflen, next_it).
             if err \<noteq> CborNoError then Some (Inr (err, None, buflen, next_it))
             else Some (Inr (CborNoError, buf, buflen, next_it))))"

definition cbor_value_dup_text_string ::
    "(u64 \<Rightarrow> bool) \<Rightarrow> u8 list \<Rightarrow> cbor_value \<Rightarrow> (CborError \<times> u8 list option \<times> u64 \<times> cbor_value) run" where
  "cbor_value_dup_text_string alloc mem it =
     bindo (Some (assertr (cbor_value_is_text_string it) ''cbor_value_is_text_string(value)'')) (\<lambda>_.
       cbor_value_dup_string alloc mem it)"

definition cbor_value_dup_byte_string ::
    "(u64 \<Rightarrow> bool) \<Rightarrow> u8 list \<Rightarrow> cbor_value \<Rightarrow> (CborError \<times> u8 list option \<times> u64 \<times> cbor_value) run" where
  "cbor_value_dup_byte_string alloc mem it =
     bindo (Some (assertr (cbor_value_is_byte_string it) ''cbor_value_is_byte_string(value)'')) (\<lambda>_.
       cbor_value_dup_string alloc mem it)"

definition cbor_value_text_string_equals :: "u8 list \<Rightarrow> u8 list \<Rightarrow> cbor_value \<Rightarrow> (CborError \<times> bool) run" where
  "cbor_value_text_string_equals mem str it =
     bindo (cbor_value_skip_tag mem it) (\<lambda>(err, it).
       if err \<noteq> CborNoError then Some (Inr (err, False))
       else if \<not> cbor_value_is_text_string it then Some (Inr (CborNoError, False))
       else bindo (iterate_string_chunks mem iterate_memcmp (of_nat (length str)) str it) (\<lambda>(err, result, _).
         Some (Inr (err, result))))"

section \<open>Advancing over any value\<close>

text \<open>The loop of \<open>advance_recursive\<close> over the elements of a container, with the recursive call as argument.\<close>

partial_function (option) advance_elements ::
    "(cbor_value \<Rightarrow> (CborError \<times> cbor_value) run) \<Rightarrow> cbor_value \<Rightarrow> (CborError \<times> cbor_value) run" where
  "advance_elements adv recursed =
     (if cbor_value_at_end recursed then Some (Inr (CborNoError, recursed))
      else bindo (adv recursed) (\<lambda>r.
        if fst r \<noteq> CborNoError then Some (Inr r) else advance_elements adv (snd r)))"

definition advance_string :: "u8 list \<Rightarrow> cbor_value \<Rightarrow> (CborError \<times> cbor_value) run" where
  "advance_string mem it =
     bindo (cbor_value_copy_string mem None (- 1) it) (\<lambda>(err, _, _, it). Some (Inr (err, it)))"

fun advance_recursive :: "u8 list \<Rightarrow> nat \<Rightarrow> cbor_value \<Rightarrow> (CborError \<times> cbor_value) run" where
  "advance_recursive mem nestingLevel it =
     (if is_fixed_type (cv_type it) then Some (advance_internal mem it)
      else if \<not> cbor_value_is_container it then advance_string mem it
      else case nestingLevel of
        0 \<Rightarrow> Some (Inr (CborErrorNestingTooDeep, it))
      | Suc n \<Rightarrow>
          bindo (Some (cbor_value_enter_container mem it)) (\<lambda>(err, recursed).
            if err \<noteq> CborNoError then Some (Inr (err, it))
            else bindo (advance_elements (advance_recursive mem n) recursed) (\<lambda>(err, recursed).
              if err \<noteq> CborNoError then Some (Inr (err, it))
              else Some (cbor_value_leave_container mem it recursed))))"

definition cbor_value_advance :: "u8 list \<Rightarrow> cbor_value \<Rightarrow> (CborError \<times> cbor_value) run" where
  "cbor_value_advance mem it =
     bindo (Some (assertr (cv_type it \<noteq> CborType_number CborInvalidType) ''it->type != CborInvalidType'')) (\<lambda>_.
     if cv_remaining it = 0 then Some (Inr (CborErrorAdvancePastEOF, it))
     else advance_recursive mem CBOR_PARSER_MAX_RECURSIONS it)"

definition cbor_value_validate_basic :: "u8 list \<Rightarrow> cbor_value \<Rightarrow> CborError run" where
  "cbor_value_validate_basic mem it = bindo (cbor_value_advance mem it) (\<lambda>(err, _). Some (Inr err))"

text \<open>\<open>cbor_value_map_find_value\<close>: the loop over the keys and values; \<open>find_error\<close> is its label \<open>error\<close>.\<close>

definition find_error :: "CborError \<Rightarrow> cbor_value \<Rightarrow> (CborError \<times> cbor_value) run" where
  "find_error err element = Some (Inr (err, element\<lparr>cv_type := CborType_number CborInvalidType\<rparr>))"

definition skip_map_value :: "u8 list \<Rightarrow> cbor_value \<Rightarrow> (CborError \<times> cbor_value) run" where
  "skip_map_value mem element =
     bindo (cbor_value_skip_tag mem element) (\<lambda>(err, element).
       if err \<noteq> CborNoError then Some (Inr (err, element)) else cbor_value_advance mem element)"

partial_function (option) map_find_loop :: "u8 list \<Rightarrow> u8 list \<Rightarrow> cbor_value \<Rightarrow> (CborError \<times> cbor_value) run" where
  "map_find_loop mem str element =
     (if cbor_value_at_end element then find_error CborNoError element
      else bindo (cbor_value_skip_tag mem element) (\<lambda>r.
        let element = snd r in
        if fst r \<noteq> CborNoError then find_error (fst r) element
        else
          bindo (if cbor_value_is_text_string element
                 then bindo (iterate_string_chunks mem iterate_memcmp (of_nat (length str)) str element) (\<lambda>q.
                   Some (Inr (fst q, fst (snd q), snd (snd (snd (snd q))))))
                 else bindo (cbor_value_advance mem element) (\<lambda>q. Some (Inr (fst q, False, snd q)))) (\<lambda>key.
            let element = snd (snd key) in
            if fst key \<noteq> CborNoError then find_error (fst key) element
            else if fst (snd key) then Some (preparse_value mem element)
            else bindo (skip_map_value mem element) (\<lambda>q.
              if fst q \<noteq> CborNoError then find_error (fst q) (snd q) else map_find_loop mem str (snd q)))))"

definition cbor_value_map_find_value :: "u8 list \<Rightarrow> cbor_value \<Rightarrow> u8 list \<Rightarrow> (CborError \<times> cbor_value) run" where
  "cbor_value_map_find_value mem it str =
     bindo (Some (assertr (cbor_value_is_map it) ''cbor_value_is_map(map)'')) (\<lambda>_.
     bindo (Some (cbor_value_enter_container mem it)) (\<lambda>(err, element).
       if err \<noteq> CborNoError then find_error err element else map_find_loop mem str element))"

end
