(* ===== verification/Cbor_Safe.thy ===== *)
theory Cbor_Safe
  imports Cbor_Parser
begin

text \<open>
  The parser of tinycbor is safe on every input: an invariant of iterators (\<open>iter_ok\<close>), which every
  operation keeps, and which is enough for every operation to return without a read outside the
  buffer and without a failed assertion. The exception is the search in maps, which relies on maps with
  a value for every key.
\<close>

section \<open>Initial bytes\<close>

lemmas parser_consts = Value8Bit_def Value16Bit_def Value32Bit_def Value64Bit_def IndefiniteLength_def MajorTypeShift_def
  SmallValueMask_def MajorTypeMask_def

lemmas simple_consts = FalseValue_def TrueValue_def NullValue_def UndefinedValue_def SimpleTypeInNextByte_def
  HalfPrecisionFloat_def SinglePrecisionFloat_def DoublePrecisionFloat_def Break_def

lemmas flag_consts = CborIteratorFlag_IntegerValueTooLarge_def CborIteratorFlag_NegativeInteger_def
  CborIteratorFlag_UnknownLength_def CborIteratorFlag_IteratingStringChunks_def

lemma small_lt: "unat (b AND 31 :: u8) < 32"
proof -
  have "b AND 31 \<le> (31 :: u8)" by (rule word_and_le1)
  then show ?thesis by (simp add: word_le_nat_alt)
qed

lemma major_form: "(b AND 0xE0 :: u8) = push_bit 5 (drop_bit 5 b)"
proof -
  have e: "(0xE0 :: u8) = push_bit 5 (mask 3)" by (simp add: mask_eq_exp_minus_1)
  show ?thesis unfolding e by (rule bit_word_eqI) (auto simp: bit_simps)
qed

lemma major_cases: "(b AND 0xE0 :: u8) \<in> {0, 0x20, 0x40, 0x60, 0x80, 0xA0, 0xC0, 0xE0}"
proof -
  define n where "n = unat (drop_bit 5 b)"
  have "unat b < 256" using unsigned_less [of b, where 'a = nat] by simp
  then have "n < 8" by (simp add: n_def drop_bit_eq_div unat_div)
  then have "n \<in> {0, 1, 2, 3, 4, 5, 6, 7}" by auto
  moreover have "b AND 0xE0 = push_bit 5 (of_nat n)" by (simp add: n_def major_form)
  ultimately show ?thesis by auto
qed

lemma byte_split: "(b :: u8) = (b AND 0xE0) + (b AND 31)"
proof -
  have "(b AND 0xE0) + (b AND 31) = (b AND 0xE0) OR (b AND 31)"
    by (rule disjunctive_add_eq_or) (simp add: ac_simps)
  also have "\<dots> = b AND (0xE0 OR 31)" by (simp only: bit.conj_disj_distrib)
  also have "(0xE0 OR 31 :: u8) = - 1" by simp
  also have "b AND - 1 = b" by simp
  finally show ?thesis by simp
qed

section \<open>Numbers\<close>

text \<open>The pointers of an iterator are inside the memory, which is smaller than half of the address space.\<close>

definition in_memory :: "u8 list \<Rightarrow> nat \<Rightarrow> nat \<Rightarrow> bool" where
  "in_memory mem p e \<longleftrightarrow> p \<le> e \<and> e \<le> length mem \<and> length mem < 2 ^ 63"

definition number_bytes :: "nat \<Rightarrow> nat" where
  "number_bytes d = (if d < 24 then 0 else 2 ^ (d - 24))"

lemma number_bytes_le: "d \<le> 27 \<Longrightarrow> number_bytes d \<le> 8"
  using power_increasing [of "d - 24" 3 "2 :: nat"] by (simp add: number_bytes_def)

lemma number_bytes_ge: "24 \<le> d \<Longrightarrow> 1 \<le> number_bytes d" "25 \<le> d \<Longrightarrow> 2 \<le> number_bytes d"
  using power_increasing [of 1 "d - 24" "2 :: nat"] by (auto simp: number_bytes_def)

lemma ptr_diff_unat: "p \<le> e \<Longrightarrow> e < 2 ^ 63 \<Longrightarrow> unat (ptr_diff e p) = e - p"
  by (simp add: ptr_diff_def unsigned_of_nat take_bit_nat_eq_self flip: of_nat_diff)

lemma ptr_diff_less: "p \<le> e \<Longrightarrow> e < 2 ^ 63 \<Longrightarrow> n < 2 ^ 63 \<Longrightarrow> (ptr_diff e p < of_nat n) = (e < p + n)"
  by (auto simp: word_less_nat_alt ptr_diff_unat unat_of_nat)

lemma need_cases:
  "24 \<le> d \<Longrightarrow> d \<le> 27 \<Longrightarrow> d = 24 \<or> d = 25 \<or> d = 26 \<or> (d :: nat) = 27"
  by linarith

lemma bytes_at_ok [simp]: "p + n \<le> length mem \<Longrightarrow> bytes_at mem p n = Inr (take n (drop p mem))"
  by (simp add: bytes_at_def)

lemma byte_at_ok [simp]: "p < length mem \<Longrightarrow> byte_at mem p = Inr (mem ! p)"
  by (simp add: byte_at_def)

lemma extract_number_ok:
  assumes "in_memory mem p e" and "p < e" and "unat (mem ! p AND 31) = d" and "d \<le> 27" and "p + 1 + number_bytes d \<le> e"
  shows "\<exists>n. cbor_value_extract_number mem p e = Inr (CborNoError, p + 1 + number_bytes d, n)"
proof (cases "d < 24")
  case True
  then show ?thesis using assms by (simp add: cbor_value_extract_number_def in_memory_def parser_consts number_bytes_def)
next
  case False
  then have "d = 24 \<or> d = 25 \<or> d = 26 \<or> d = 27" using assms(4) by (intro need_cases) auto
  moreover have "\<not> ptr_diff e (p + 1) < of_nat (2 ^ (d - 24))"
    using assms False by (subst ptr_diff_less) (auto simp: in_memory_def number_bytes_def)
  ultimately show ?thesis using assms
    by (auto simp: cbor_value_extract_number_def in_memory_def parser_consts number_bytes_def get16_def get32_def get64_def Let_def)
qed

lemma extract_number_any:
  assumes "in_memory mem p e" and "p < e"
  shows "\<exists>err p' n. cbor_value_extract_number mem p e = Inr (err, p', n) \<and> p < p' \<and> p' \<le> e"
proof -
  define d where "d = unat (mem ! p AND 31)"
  have d: "unat (mem ! p AND 31) = d" by (simp add: d_def)
  consider "d \<le> 27" "p + 1 + number_bytes d \<le> e" | "27 < d" | "24 \<le> d" "d \<le> 27" "e < p + 1 + number_bytes d"
    using assms(2) by (fastforce simp: number_bytes_def)
  then show ?thesis
  proof cases
    case 1
    then show ?thesis using extract_number_ok [OF assms d] by auto
  next
    case 2
    then show ?thesis using assms d by (simp add: cbor_value_extract_number_def in_memory_def parser_consts Let_def)
  next
    case 3
    have "ptr_diff e (p + 1) < of_nat (2 ^ (d - 24))"
      using assms 3 by (subst ptr_diff_less) (auto simp: in_memory_def number_bytes_def dest!: need_cases)
    then show ?thesis using 3 assms d by (simp add: cbor_value_extract_number_def in_memory_def parser_consts Let_def)
  qed
qed

section \<open>What is known of a value from its first bytes\<close>

definition head_good :: "u8 list \<Rightarrow> nat \<Rightarrow> nat \<Rightarrow> bool" where
  "head_good mem p e \<longleftrightarrow> p < e \<and>
     (let t = mem ! p AND 0xE0; d = unat (mem ! p AND 31) in
      if d = 31 then t \<in> {0x40, 0x60, 0x80, 0xA0}
      else d \<le> 27 \<and> p + 1 + number_bytes d \<le> e \<and> (t = 0xE0 \<and> d = 24 \<longrightarrow> 32 \<le> mem ! (p + 1)))"

definition head_type :: "u8 \<Rightarrow> u8" where
  "head_type b = (let t = b AND 0xE0; d = unat (b AND 31) in
     if t = 0xE0 then (if d = 20 then 0xF5 else if d \<in> {21, 22, 23, 25, 26, 27} then b else t)
     else if t = 0x20 then 0 else t)"

definition head_flags :: "u8 \<Rightarrow> u8" where
  "head_flags b = (let t = b AND 0xE0; d = unat (b AND 31) in
     if d = 31 then 4 else (if t = 0x20 then 2 else 0) OR (if d = 26 \<or> d = 27 then 1 else 0))"

definition head_extra :: "u8 list \<Rightarrow> nat \<Rightarrow> u16" where
  "head_extra mem p = (let t = mem ! p AND 0xE0; d = unat (mem ! p AND 31) in
     if t = 0xE0 \<and> d = 20 then 0
     else if d = 24 then ucast (mem ! (p + 1))
     else if t \<noteq> 0xE0 \<and> d = 25 then ucast (be_value (take 2 (drop (p + 1) mem)))
     else ucast (mem ! p AND 31))"

definition at_head :: "u8 list \<Rightarrow> cbor_value \<Rightarrow> cbor_value" where
  "at_head mem it = it\<lparr>cv_type := head_type (mem ! cv_ptr it), cv_flags := head_flags (mem ! cv_ptr it),
     cv_extra := head_extra mem (cv_ptr it)\<rparr>"

lemma is_fixed_major:
  "t \<in> {0, 0x20, 0x40, 0x60, 0x80, 0xA0, 0xC0, 0xE0} \<Longrightarrow> is_fixed_type t \<longleftrightarrow> t \<notin> {0x40, 0x60, 0x80, 0xA0}"
  by (auto simp: is_fixed_type_def)

lemma unat_ucast_byte [simp]: "unat (ucast (b :: u8) :: u16) = unat b"
  using unsigned_less [of b, where 'a = nat] by (simp add: unsigned_ucast_eq take_bit_nat_eq_self)

lemma ucast_byte_less: "(ucast (b :: u8) :: u16) < 32 \<longleftrightarrow> \<not> 32 \<le> b"
  by (simp add: word_less_nat_alt word_le_nat_alt not_le)

lemma preparse_spec:
  assumes "in_memory mem (cv_ptr it) (cp_end (cv_parser it))"
  shows "if head_good mem (cv_ptr it) (cp_end (cv_parser it)) then preparse_value mem it = Inr (CborNoError, at_head mem it)
    else \<exists>err it'. preparse_value mem it = Inr (err, it') \<and> err \<noteq> CborNoError \<and> cv_parser it' = cv_parser it \<and>
      cv_ptr it' = cv_ptr it \<and> cv_remaining it' = cv_remaining it"
proof -
  let ?p = "cv_ptr it" and ?e = "cp_end (cv_parser it)"
  define t where "t = mem ! ?p AND 0xE0"
  define d where "d = unat (mem ! ?p AND 31)"
  have t: "t \<in> {0, 0x20, 0x40, 0x60, 0x80, 0xA0, 0xC0, 0xE0}" unfolding t_def by (rule major_cases)
  have q: "(mem ! ?p AND 31 = n) = (d = unat n)" for n by (simp add: d_def word_unat_eq_iff)
  have d32: "d < 32" unfolding d_def by (rule small_lt)
  note views = t_def [symmetric] d_def [symmetric]
  show ?thesis
  proof (cases "?p = ?e")
    case True
    then show ?thesis by (simp add: preparse_value_def head_good_def)
  next
    case False
    then have p: "?p < ?e" "?p < length mem" using assms by (auto simp: in_memory_def)
    consider (ind) "d = 31" | (bad) "27 < d" "d \<noteq> 31" | (eof) "d \<le> 27" "?e < ?p + 1 + number_bytes d" | (fits) "d \<le> 27" "?p + 1 + number_bytes d \<le> ?e"
      by linarith
    then show ?thesis
    proof cases
      case ind
      then show ?thesis using p t False
        by (auto simp: preparse_value_def Let_def parser_consts views is_fixed_major [OF t] head_good_def at_head_def head_type_def
            head_flags_def head_extra_def flag_consts)
    next
      case bad
      then show ?thesis using p False
        by (simp add: preparse_value_def Let_def parser_consts views head_good_def)
    next
      case eof
      have "ptr_diff ?e ?p < of_nat (number_bytes d + 1)"
        using assms eof p number_bytes_le [of d] by (subst ptr_diff_less) (auto simp: in_memory_def)
      moreover have "d = 24 \<or> d = 25 \<or> d = 26 \<or> d = 27" using eof p by (intro need_cases) (auto simp: number_bytes_def split: if_splits)
      ultimately show ?thesis using p False eof
        by (elim disjE) (simp_all add: preparse_value_def Let_def parser_consts views head_good_def number_bytes_def)
    next
      case fits
      have n: "\<not> ptr_diff ?e ?p < of_nat (number_bytes d + 1)"
        using assms fits p number_bytes_le [of d] by (subst ptr_diff_less) (auto simp: in_memory_def)
      have "24 \<le> d \<Longrightarrow> ?p + 1 < length mem" "25 \<le> d \<Longrightarrow> ?p + 3 \<le> length mem"
        using fits assms number_bytes_ge [of d] by (auto simp: in_memory_def)
      note m = this
      show ?thesis
      proof (cases "t = 0xE0")
        case True
        show ?thesis using True p False fits n m
          by (auto simp: preparse_value_def preparse_simple_def Let_def parser_consts views head_good_def at_head_def
              head_type_def head_flags_def head_extra_def flag_consts simple_consts q number_bytes_def ucast_byte_less)
      next
        case F: False
        have k: "drop_bit 5 t \<noteq> 7" "(drop_bit 5 t = 1) = (t = 0x20)" using F t by auto
        consider "d < 24" | "d = 24" | "d = 25" | "d = 26" | "d = 27" using fits(1) by linarith
        then show ?thesis using F p False fits n m
          by cases (simp_all add: preparse_value_def Let_def parser_consts views k head_good_def at_head_def get16_def
              head_type_def head_flags_def head_extra_def flag_consts number_bytes_def)
      qed
    qed
  qed
qed

section \<open>The invariant of iterators\<close>

text \<open>
  An iterator is in memory; at its end its type is invalid, before its end its type, flags and
  partial number are those of the bytes that it points to.
\<close>

definition iter_ok :: "u8 list \<Rightarrow> cbor_value \<Rightarrow> bool" where
  "iter_ok mem it \<longleftrightarrow> in_memory mem (cv_ptr it) (cp_end (cv_parser it)) \<and>
     (if cv_remaining it = 0 then cv_type it = CborType_number CborInvalidType
      else head_good mem (cv_ptr it) (cp_end (cv_parser it)) \<and> at_head mem it = it)"

text \<open>A call returns, and if it succeeds the new iterator is well formed and not before \<open>p\<close>.\<close>

definition moves :: "u8 list \<Rightarrow> cbor_parser \<Rightarrow> nat \<Rightarrow> (CborError \<times> cbor_value) res \<Rightarrow> bool" where
  "moves mem parser p r \<longleftrightarrow> (\<exists>err it. r = Inr (err, it) \<and> cv_parser it = parser \<and>
     (err = CborNoError \<longrightarrow> iter_ok mem it \<and> p \<le> cv_ptr it))"

lemma moves_Inr [simp]:
  "moves mem parser p (Inr (err, it)) \<longleftrightarrow> cv_parser it = parser \<and> (err = CborNoError \<longrightarrow> iter_ok mem it \<and> p \<le> cv_ptr it)"
  by (simp add: moves_def)

lemma moves_mono: "moves mem parser q r \<Longrightarrow> p \<le> q \<Longrightarrow> moves mem parser p r"
  by (fastforce simp: moves_def)

lemma at_head_simps [simp]:
  "cv_parser (at_head mem it) = cv_parser it" "cv_ptr (at_head mem it) = cv_ptr it" "cv_remaining (at_head mem it) = cv_remaining it"
  "at_head mem (at_head mem it) = at_head mem it"
  by (simp_all add: at_head_def)

lemma at_head_fields:
  "cv_type (at_head mem it) = head_type (mem ! cv_ptr it)" "cv_flags (at_head mem it) = head_flags (mem ! cv_ptr it)"
  "cv_extra (at_head mem it) = head_extra mem (cv_ptr it)"
  by (simp_all add: at_head_def)

lemma head_type_valid: "head_good mem p e \<Longrightarrow> head_type (mem ! p) \<noteq> 0xFF"
proof -
  assume g: "head_good mem p e"
  let ?b = "mem ! p"
  have "?b AND 31 = 31" if "?b = 0xFF" using that by simp
  then have "?b \<noteq> 0xFF" if "?b AND 0xE0 = 0xE0" using g that by (auto simp: head_good_def)
  then show ?thesis using major_cases [of ?b] by (auto simp: head_type_def Let_def)
qed

lemma head_indefinite:
  assumes "head_good mem p e"
  shows "head_flags (mem ! p) AND 4 = 0 \<longleftrightarrow> unat (mem ! p AND 31) \<noteq> 31"
    and "unat (mem ! p AND 31) = 31 \<Longrightarrow> \<not> is_fixed_type (head_type (mem ! p))"
    and "\<not> is_fixed_type (head_type (mem ! p)) \<Longrightarrow> head_flags (mem ! p) AND 2 = 0 \<and> head_type (mem ! p) = mem ! p AND 0xE0"
proof -
  show "head_flags (mem ! p) AND 4 = 0 \<longleftrightarrow> unat (mem ! p AND 31) \<noteq> 31" by (simp add: head_flags_def Let_def)
  show "unat (mem ! p AND 31) = 31 \<Longrightarrow> \<not> is_fixed_type (head_type (mem ! p))"
    using assms by (auto simp: head_good_def head_type_def is_fixed_type_def Let_def)
  assume n: "\<not> is_fixed_type (head_type (mem ! p))"
  have "mem ! p AND 0xE0 \<noteq> 0xE0"
  proof
    assume t: "mem ! p AND 0xE0 = 0xE0"
    then have "mem ! p \<notin> {0x40, 0x60, 0x80, 0xA0}" by auto
    then show False using n t by (auto simp: head_type_def is_fixed_type_def Let_def split: if_splits)
  qed
  moreover have "mem ! p AND 0xE0 \<noteq> 0x20" using n by (auto simp: head_type_def is_fixed_type_def Let_def split: if_splits)
  ultimately show "head_flags (mem ! p) AND 2 = 0 \<and> head_type (mem ! p) = mem ! p AND 0xE0"
    by (simp add: head_flags_def head_type_def Let_def)
qed

lemma head_number:
  assumes "head_good mem p e" and "in_memory mem p e" and "head_flags (mem ! p) AND 4 = 0"
  shows "\<exists>p' n. cbor_value_extract_number mem p e = Inr (CborNoError, p', n) \<and> p < p' \<and> p' \<le> e"
proof -
  have d: "unat (mem ! p AND 31) \<le> 27" "p + 1 + number_bytes (unat (mem ! p AND 31)) \<le> e" "p < e"
    using assms(1,3) head_indefinite(1) [OF assms(1)] by (auto simp: head_good_def Let_def)
  show ?thesis using extract_number_ok [OF assms(2) d(3) refl d(1,2)] d(2) by auto
qed

lemma preparse_moves:
  assumes "in_memory mem (cv_ptr it) (cp_end (cv_parser it))" and "cv_remaining it \<noteq> 0"
  shows "moves mem (cv_parser it) (cv_ptr it) (preparse_value mem it)"
proof (cases "head_good mem (cv_ptr it) (cp_end (cv_parser it))")
  case True
  then show ?thesis using preparse_spec [OF assms(1)] assms by (simp add: iter_ok_def)
next
  case False
  then show ?thesis using preparse_spec [OF assms(1)] by auto
qed

lemma nodecrement_moves:
  assumes "in_memory mem (cv_ptr it) (cp_end (cv_parser it))" and "cv_remaining it \<noteq> 0"
  shows "moves mem (cv_parser it) (cv_ptr it) (preparse_next_value_nodecrement mem it)"
proof (cases "cv_remaining it = 0xFFFFFFFF \<and> cv_ptr it \<noteq> cp_end (cv_parser it)")
  case True
  then have "cv_ptr it < length mem" "cv_ptr it < cp_end (cv_parser it)" using assms by (auto simp: in_memory_def)
  then show ?thesis using True assms preparse_moves [OF assms]
    by (auto simp: preparse_next_value_nodecrement_def iter_ok_def in_memory_def)
next
  case False
  then show ?thesis using preparse_moves [OF assms] by (auto simp: preparse_next_value_nodecrement_def)
qed

lemma next_moves:
  assumes "in_memory mem (cv_ptr it) (cp_end (cv_parser it))" and "cv_remaining it \<noteq> 0"
  shows "moves mem (cv_parser it) (cv_ptr it) (preparse_next_value mem it)"
proof -
  let ?dec = "it\<lparr>cv_remaining := cv_remaining it - 1\<rparr>"
  have "cv_remaining it - 1 \<noteq> 0 \<Longrightarrow> moves mem (cv_parser it) (cv_ptr it) (preparse_next_value_nodecrement mem ?dec)"
    using nodecrement_moves [of mem ?dec] assms(1) by simp
  then show ?thesis using nodecrement_moves [OF assms] assms(1)
    by (auto simp: preparse_next_value_def Let_def iter_ok_def)
qed

text \<open>What an iterator before its end knows.\<close>

lemma iter_okD:
  assumes "iter_ok mem it" and "cv_remaining it \<noteq> 0"
  shows "in_memory mem (cv_ptr it) (cp_end (cv_parser it))" and "cv_ptr it < cp_end (cv_parser it)"
    and "head_good mem (cv_ptr it) (cp_end (cv_parser it))" and "cv_type it = head_type (mem ! cv_ptr it)"
    and "cv_flags it = head_flags (mem ! cv_ptr it)" and "cv_extra it = head_extra mem (cv_ptr it)"
    and "cv_type it \<noteq> CborType_number CborInvalidType"
proof -
  have h: "head_good mem (cv_ptr it) (cp_end (cv_parser it))" "at_head mem it = it" using assms by (simp_all add: iter_ok_def)
  then show t: "cv_type it = head_type (mem ! cv_ptr it)" "cv_flags it = head_flags (mem ! cv_ptr it)" "cv_extra it = head_extra mem (cv_ptr it)"
    using at_head_fields [of mem it] by simp_all
  show "cv_type it \<noteq> CborType_number CborInvalidType" using head_type_valid [OF h(1)] t(1) by simp
qed (use assms in \<open>simp_all add: iter_ok_def head_good_def\<close>)

lemma advance_internal_moves:
  assumes "iter_ok mem it" and "cv_remaining it \<noteq> 0" and "is_fixed_type (cv_type it)"
  shows "moves mem (cv_parser it) (cv_ptr it + 1) (advance_internal mem it)"
proof -
  note k = iter_okD [OF assms(1,2)]
  have "head_flags (mem ! cv_ptr it) AND 4 = 0" using head_indefinite(1,2) [OF k(3)] assms(3) k(4) by metis
  then obtain p n where x: "cbor_value_extract_number mem (cv_ptr it) (cp_end (cv_parser it)) = Inr (CborNoError, p, n)"
    "cv_ptr it < p" "p \<le> cp_end (cv_parser it)"
    using head_number [OF k(3,1)] by blast
  have "cv_type it \<noteq> 0x40" "cv_type it \<noteq> 0x60" using assms(3) by (auto simp: is_fixed_type_def)
  moreover have "moves mem (cv_parser it) p (preparse_next_value mem (it\<lparr>cv_ptr := p\<rparr>))"
    using next_moves [of mem "it\<lparr>cv_ptr := p\<rparr>"] k(1) x assms(2) by (simp add: in_memory_def)
  ultimately show ?thesis using x moves_mono by (auto simp: advance_internal_def)
qed

section \<open>Containers and tags\<close>

lemma enter_moves:
  assumes "iter_ok mem it" and "cv_remaining it \<noteq> 0" and "cbor_value_is_container it"
  shows "moves mem (cv_parser it) (cv_ptr it + 1) (cbor_value_enter_container mem it)"
proof -
  note k = iter_okD [OF assms(1,2)]
  let ?p = "cv_ptr it" and ?e = "cp_end (cv_parser it)"
  show ?thesis
  proof (cases "cv_flags it AND 4 = 0")
    case True
    then obtain p n where x: "cbor_value_extract_number mem ?p ?e = Inr (CborNoError, p, n)" "?p < p" "p \<le> ?e"
      using head_number [OF k(3,1)] k(5) by auto
    have mem: "in_memory mem p ?e" using x k(1) by (simp add: in_memory_def)
    define r where "r = (ucast n :: u32)"
    define r2 where "r2 = (if cv_type it = 0xA0 then r * 2 else r)"
    have nz: "r2 \<noteq> 0" if "ucast r = n" "n \<noteq> 0" "\<not> (cv_type it = 0xA0 \<and> r > 0x7FFFFFFF)"
    proof -
      have "r \<noteq> 0" using that by auto
      moreover have "r * 2 \<noteq> 0" if "\<not> r > 0x7FFFFFFF"
      proof -
        have "unat (r * 2) = unat r * 2" using that by (subst unat_mult_lem [THEN iffD1]) (auto simp: word_less_nat_alt)
        then show ?thesis using \<open>r \<noteq> 0\<close> by (metis mult_eq_0_iff unat_0 unat_eq_zero zero_neq_numeral)
      qed
      ultimately show ?thesis using that by (auto simp: r2_def)
    qed
    have "moves mem (cv_parser it) p (preparse_next_value_nodecrement mem (it\<lparr>cv_ptr := p, cv_remaining := r2\<rparr>))" if "r2 \<noteq> 0"
      using nodecrement_moves [of mem "it\<lparr>cv_ptr := p, cv_remaining := r2\<rparr>"] mem that by simp
    then have go: "moves mem (cv_parser it) (?p + 1) (preparse_next_value_nodecrement mem (it\<lparr>cv_ptr := p, cv_remaining := r2\<rparr>))"
      if "r2 \<noteq> 0" using x(2) that moves_mono by fastforce
    show ?thesis
      using assms(3) True x mem go nz
      by (auto simp: cbor_value_enter_container_def flag_consts r_def r2_def Let_def iter_ok_def)
  next
    case False
    have "moves mem (cv_parser it) (?p + 1) (preparse_next_value_nodecrement mem (it\<lparr>cv_remaining := 0xFFFFFFFF, cv_ptr := ?p + 1\<rparr>))"
      using nodecrement_moves [of mem "it\<lparr>cv_remaining := 0xFFFFFFFF, cv_ptr := ?p + 1\<rparr>"] k(1,2) by (simp add: in_memory_def)
    then show ?thesis using assms(3) False by (simp add: cbor_value_enter_container_def flag_consts)
  qed
qed

lemma leave_moves:
  assumes "cv_remaining it \<noteq> 0" and "cbor_value_is_container it" and "iter_ok mem recursed" and "cv_remaining recursed = 0"
    and "cv_parser recursed = cv_parser it"
  shows "moves mem (cv_parser it) (cv_ptr recursed) (cbor_value_leave_container mem it recursed)"
  using next_moves [of mem "it\<lparr>cv_ptr := cv_ptr recursed\<rparr>"] assms by (simp add: cbor_value_leave_container_def iter_ok_def)

lemma advance_fixed_moves:
  assumes "iter_ok mem it" and "cv_remaining it \<noteq> 0" and "is_fixed_type (cv_type it)"
  shows "moves mem (cv_parser it) (cv_ptr it + 1) (cbor_value_advance_fixed mem it)"
  using advance_internal_moves [OF assms] iter_okD(7) [OF assms(1,2)] assms(2,3) by (simp add: cbor_value_advance_fixed_def)

lemma skip_tag_moves:
  "iter_ok mem it \<Longrightarrow> \<exists>r. cbor_value_skip_tag mem it = Some r \<and> moves mem (cv_parser it) (cv_ptr it) r"
proof (induction "cp_end (cv_parser it) - cv_ptr it" arbitrary: it rule: less_induct)
  case less
  show ?case
  proof (cases "cbor_value_is_tag it")
    case True
    then have r: "cv_remaining it \<noteq> 0" "is_fixed_type (cv_type it)"
      using less.prems by (auto simp: iter_ok_def cbor_value_is_tag_def is_fixed_type_def)
    obtain err it' where a: "cbor_value_advance_fixed mem it = Inr (err, it')" "cv_parser it' = cv_parser it"
      "err = CborNoError \<Longrightarrow> iter_ok mem it' \<and> cv_ptr it + 1 \<le> cv_ptr it'"
      using advance_fixed_moves [OF less.prems r] unfolding moves_def by blast
    show ?thesis
    proof (cases "err = CborNoError")
      case E: True
      have "cp_end (cv_parser it') - cv_ptr it' < cp_end (cv_parser it) - cv_ptr it"
        using a(2) a(3) [OF E] iter_okD(2) [OF less.prems r(1)] by auto
      from less.hyps [OF this] a E obtain q where "cbor_value_skip_tag mem it' = Some q" "moves mem (cv_parser it') (cv_ptr it') q" by blast
      then show ?thesis using True a E moves_mono by (subst cbor_value_skip_tag.simps) fastforce
    next
      case False
      then show ?thesis using True a by (subst cbor_value_skip_tag.simps) simp
    qed
  next
    case False
    then show ?thesis using less.prems by (subst cbor_value_skip_tag.simps) simp
  qed
qed

section \<open>Strings\<close>

text \<open>An iterator inside a string: at its head, or after a chunk.\<close>

definition chunk_ok :: "u8 list \<Rightarrow> cbor_value \<Rightarrow> bool" where
  "chunk_ok mem it \<longleftrightarrow> in_memory mem (cv_ptr it) (cp_end (cv_parser it)) \<and> cv_remaining it \<noteq> 0 \<and>
     (cv_flags it AND 2 = 0 \<longrightarrow> cv_ptr it < cp_end (cv_parser it))"

text \<open>Reading the string moves past its head.\<close>

definition chunk_bound :: "cbor_value \<Rightarrow> nat" where
  "chunk_bound it = (if cv_flags it AND 2 = 0 then cv_ptr it + 1 else cv_ptr it)"

lemma iterating_flag [simp]: "(f OR 2) AND 2 = (2 :: u8)"
  by (simp add: bit.conj_disj_distrib2)

lemma last_chunk_moves:
  assumes "in_memory mem (cv_ptr it) (cp_end (cv_parser it))" and "cv_remaining it \<noteq> 0"
  obtains err it' where "last_chunk mem it = Inr (err, None, it')" and "moves mem (cv_parser it) (cv_ptr it) (Inr (err, it'))"
proof -
  obtain r where "preparse_next_value mem it = r" "moves mem (cv_parser it) (cv_ptr it) r" using next_moves [OF assms] by blast
  then show ?thesis using that by (auto simp: moves_def last_chunk_def)
qed

lemma next_chunk_any:
  assumes "in_memory mem (cv_ptr it) (cp_end (cv_parser it))" and "cv_remaining it \<noteq> 0" and "cv_ptr it < cp_end (cv_parser it)"
  shows "\<exists>err c it'. next_chunk mem it = Inr (err, c, it') \<and> cv_parser it' = cv_parser it \<and>
    (err = CborNoError \<longrightarrow> cv_ptr it < cv_ptr it' \<and>
      (case c of None \<Rightarrow> iter_ok mem it'
       | Some (q, len) \<Rightarrow> chunk_ok mem it' \<and> cv_flags it' AND 2 \<noteq> 0 \<and> q + unat len = cv_ptr it'))"
proof -
  let ?p = "cv_ptr it" and ?e = "cp_end (cv_parser it)"
  have p: "?p < length mem" using assms by (simp add: in_memory_def)
  obtain err p' n where x: "cbor_value_extract_number mem ?p ?e = Inr (err, p', n)" "?p < p'" "p' \<le> ?e"
    using extract_number_any [OF assms(1,3)] by blast
  have d: "unat (ptr_diff ?e p') = ?e - p'" using x(3) assms(1) by (simp add: ptr_diff_unat in_memory_def)
  obtain err1 it1 where l: "last_chunk mem (it\<lparr>cv_ptr := ?p + 1\<rparr>) = Inr (err1, None, it1)"
    "moves mem (cv_parser it) (?p + 1) (Inr (err1, it1))"
    using last_chunk_moves [of mem "it\<lparr>cv_ptr := ?p + 1\<rparr>"] assms by (auto simp: in_memory_def)
  have "chunk_ok mem (it\<lparr>cv_ptr := p' + unat n, cv_flags := cv_flags it OR 2\<rparr>)" if "\<not> n > ptr_diff ?e p'"
    using that x(3) assms(1,2) by (auto simp: chunk_ok_def in_memory_def word_less_nat_alt d)
  then show ?thesis using p x l by (auto simp: next_chunk_def extract_length_def flag_consts Let_def)
qed

lemma chunk_any:
  assumes "chunk_ok mem it"
  shows "\<exists>err c it'. get_string_chunk mem it = Inr (err, c, it') \<and> cv_parser it' = cv_parser it \<and>
    (err = CborNoError \<longrightarrow> chunk_bound it \<le> cv_ptr it' \<and>
      (case c of None \<Rightarrow> iter_ok mem it'
       | Some (q, len) \<Rightarrow> chunk_ok mem it' \<and> cv_flags it' AND 2 \<noteq> 0 \<and> cv_ptr it < cv_ptr it' \<and> q + unat len = cv_ptr it'))"
proof (cases "cv_flags it AND 2 \<noteq> 0 \<and> cbor_value_is_length_known it")
  case True
  obtain err it' where "last_chunk mem it = Inr (err, None, it')" "moves mem (cv_parser it) (cv_ptr it) (Inr (err, it'))"
    using last_chunk_moves [of mem it] assms by (auto simp: chunk_ok_def)
  then show ?thesis using True by (auto simp: get_string_chunk_def flag_consts chunk_bound_def)
next
  case False
  define it1 where "it1 = (if cv_flags it AND 2 \<noteq> 0 then it else prepare_string_iteration it)"
  have it1: "cv_parser it1 = cv_parser it" "cv_remaining it1 = cv_remaining it" "cv_ptr it \<le> cv_ptr it1"
    "in_memory mem (cv_ptr it1) (cp_end (cv_parser it1))"
    using assms by (auto simp: it1_def prepare_string_iteration_def chunk_ok_def in_memory_def)
  show ?thesis
  proof (cases "cv_ptr it1 = cp_end (cv_parser it1)")
    case E: True
    then show ?thesis using False it1 by (auto simp: get_string_chunk_def it1_def flag_consts Let_def)
  next
    case N: False
    then have g: "get_string_chunk mem it = next_chunk mem it1"
      using False by (auto simp: get_string_chunk_def it1_def flag_consts Let_def)
    have p: "cv_ptr it1 < cp_end (cv_parser it1)" "cv_remaining it1 \<noteq> 0" using N it1 assms by (auto simp: in_memory_def chunk_ok_def)
    show ?thesis
      using next_chunk_any [OF it1(4) p(2,1)] g it1(1,3) by (fastforce simp: chunk_bound_def split: option.splits)
  qed
qed

lemma iterate_any:
  assumes "func = iterate_noop \<or> off + n \<le> length buf" and "n = length bs"
  shows "\<exists>b buf'. iterate func buf off (Inr bs) = Inr (b, buf') \<and> length buf' = length buf"
  using assms by (cases func) auto

text \<open>What the calls on strings give: they return, and if they succeed the iterator is behind the string.\<close>

lemma chunks_loop_any:
  assumes "chunk_ok mem it" and "func = iterate_noop \<or> unat buflen \<le> length buf"
  shows "\<exists>err result' buf' total' it'. iterate_chunks_loop mem func buflen buf total_len result it = Some (Inr (err, result', buf', total', it')) \<and>
    length buf' = length buf \<and> moves mem (cv_parser it) (chunk_bound it) (Inr (err, it'))"
  using assms
proof (induction "cp_end (cv_parser it) - cv_ptr it" arbitrary: it buf total_len result rule: less_induct)
  case less
  obtain err c it' where g: "get_string_chunk mem it = Inr (err, c, it')" "cv_parser it' = cv_parser it"
    "err = CborNoError \<longrightarrow> chunk_bound it \<le> cv_ptr it' \<and> (case c of None \<Rightarrow> iter_ok mem it'
       | Some (q, len) \<Rightarrow> chunk_ok mem it' \<and> cv_flags it' AND 2 \<noteq> 0 \<and> cv_ptr it < cv_ptr it' \<and> q + unat len = cv_ptr it')"
    using chunk_any [OF less.prems(1)] by blast
  consider (stop) "err \<noteq> CborNoError \<or> c = None" | (chunk) q len where "err = CborNoError" "c = Some (q, len)" by (cases c) auto
  then show ?case
  proof cases
    case stop
    then show ?thesis using g by (subst iterate_chunks_loop.simps) (auto simp: Let_def)
  next
    case chunk
    then have k: "chunk_ok mem it'" "cv_flags it' AND 2 \<noteq> 0" "cv_ptr it < cv_ptr it'" "q + unat len = cv_ptr it'" "chunk_bound it \<le> cv_ptr it'"
      using g by auto
    have e: "cv_ptr it' \<le> length mem" "cv_ptr it' \<le> cp_end (cv_parser it)" using k(1) g(2) by (auto simp: chunk_ok_def in_memory_def)
    show ?thesis
    proof (cases "total_len > total_len + len")
      case True
      then show ?thesis using g chunk by (subst iterate_chunks_loop.simps) (simp add: Let_def)
    next
      case False
      then have sum: "unat (total_len + len) = unat total_len + unat len" by (simp add: unat_plus_simple [symmetric] not_less)
      have l: "length (take (unat len) (drop q mem)) = unat len" using e k(4) by simp
      obtain b buf1 where r: "(if result \<and> buflen \<ge> total_len + len then iterate func buf (unat total_len) (bytes_at mem q (unat len))
            else Inr (False, buf)) = Inr (b, buf1)" "length buf1 = length buf"
        using iterate_any [of func "unat total_len" "unat len" buf "take (unat len) (drop q mem)"] less.prems(2) e k(4) l sum
        by (cases "result \<and> buflen \<ge> total_len + len") (auto simp: word_le_nat_alt)
      have "cp_end (cv_parser it') - cv_ptr it' < cp_end (cv_parser it) - cv_ptr it" using g(2) k(3) e by simp
      from less.hyps [OF this k(1), of buf1 "total_len + len" b] less.prems(2) r(2) obtain err2 r2 b2 t2 i2 where
        "iterate_chunks_loop mem func buflen buf1 (total_len + len) b it' = Some (Inr (err2, r2, b2, t2, i2))" "length b2 = length buf1"
        "moves mem (cv_parser it') (chunk_bound it') (Inr (err2, i2))" by auto
      then show ?thesis using g chunk False r k(2,5)
        by (subst iterate_chunks_loop.simps) (auto simp: Let_def chunk_bound_def [of it'])
    qed
  qed
qed

lemma iter_ok_chunk:
  assumes "iter_ok mem it" and "cv_remaining it \<noteq> 0" and "cbor_value_is_byte_string it \<or> cbor_value_is_text_string it"
  shows "chunk_ok mem it" and "chunk_bound it = cv_ptr it + 1"
proof -
  note k = iter_okD [OF assms(1,2)]
  have "\<not> is_fixed_type (cv_type it)" using assms(3)
    by (auto simp: is_fixed_type_def cbor_value_is_byte_string_def cbor_value_is_text_string_def)
  then have "cv_flags it AND 2 = 0" using head_indefinite(3) [OF k(3)] k(4,5) by simp
  then show "chunk_ok mem it" "chunk_bound it = cv_ptr it + 1" using k assms(2) by (simp_all add: chunk_ok_def chunk_bound_def)
qed

lemma string_chunks_any:
  assumes "iter_ok mem it" and "cv_remaining it \<noteq> 0" and "cbor_value_is_byte_string it \<or> cbor_value_is_text_string it"
    and "func = iterate_noop \<or> unat buflen \<le> length buf"
  shows "\<exists>err result buf' len it'. iterate_string_chunks mem func buflen buf it = Some (Inr (err, result, buf', len, it')) \<and>
    length buf' = length buf \<and> moves mem (cv_parser it) (cv_ptr it + 1) (Inr (err, it'))"
proof -
  note k = iter_ok_chunk [OF assms(1-3)]
  obtain err r1 buf1 t1 it1 where l: "iterate_chunks_loop mem func buflen buf 0 True it = Some (Inr (err, r1, buf1, t1, it1))"
    "length buf1 = length buf" "moves mem (cv_parser it) (cv_ptr it + 1) (Inr (err, it1))"
    using chunks_loop_any [OF k(1) assms(4)] k(2) by metis
  have "\<exists>b buf2. (if r1 \<and> buflen > t1 then iterate func buf1 (unat t1) (Inr [0]) else Inr (r1, buf1)) = Inr (b, buf2) \<and> length buf2 = length buf1"
    using iterate_any [of func "unat t1" 1 buf1 "[0]"] assms(4) l(2) by (cases "r1 \<and> buflen > t1") (auto simp: word_less_nat_alt)
  then obtain b buf2 where "(if r1 \<and> buflen > t1 then iterate func buf1 (unat t1) (Inr [0]) else Inr (r1, buf1)) = Inr (b, buf2)"
    "length buf2 = length buf1" by blast
  then show ?thesis using l assms(3) by (auto simp: iterate_string_chunks_def)
qed

lemma copy_string_any:
  assumes "iter_ok mem it" and "cv_remaining it \<noteq> 0" and "cbor_value_is_byte_string it \<or> cbor_value_is_text_string it"
    and "\<And>buf. buffer = Some buf \<Longrightarrow> unat buflen \<le> length buf"
  shows "\<exists>err buf len it'. cbor_value_copy_string mem buffer buflen it = Some (Inr (err, buf, len, it')) \<and>
    moves mem (cv_parser it) (cv_ptr it + 1) (Inr (err, it'))"
  using string_chunks_any [OF assms(1-3), of "if buffer \<noteq> None then iterate_memcpy else iterate_noop" buflen
      "case buffer of None \<Rightarrow> [] | Some buf \<Rightarrow> buf"] assms(4)
  by (cases buffer) (fastforce simp: cbor_value_copy_string_def)+

lemma dup_string_any:
  assumes "iter_ok mem it" and "cv_remaining it \<noteq> 0" and "cbor_value_is_byte_string it \<or> cbor_value_is_text_string it"
  shows "\<exists>err buf len it'. cbor_value_dup_string alloc mem it = Some (Inr (err, buf, len, it')) \<and>
    moves mem (cv_parser it) (cv_ptr it + 1) (Inr (err, it'))"
proof -
  obtain err1 buf1 len1 it1 where c1: "cbor_value_copy_string mem None (- 1) it = Some (Inr (err1, buf1, len1, it1))"
    using copy_string_any [OF assms, of None "- 1"] by auto
  let ?new = "replicate (unat (len1 + 1)) 0 :: u8 list"
  obtain err2 buf2 len2 it2 where "cbor_value_copy_string mem (Some ?new) (len1 + 1) it = Some (Inr (err2, buf2, len2, it2))"
    "moves mem (cv_parser it) (cv_ptr it + 1) (Inr (err2, it2))"
    using copy_string_any [OF assms, of "Some ?new" "len1 + 1"] by fastforce
  then show ?thesis using c1 by (auto simp: cbor_value_dup_string_def Let_def)
qed

section \<open>Advancing over any value\<close>

lemma advance_string_moves:
  assumes "iter_ok mem it" and "cv_remaining it \<noteq> 0" and "\<not> is_fixed_type (cv_type it)" and "\<not> cbor_value_is_container it"
  shows "\<exists>r. advance_string mem it = Some r \<and> moves mem (cv_parser it) (cv_ptr it + 1) r"
proof -
  have "cbor_value_is_byte_string it \<or> cbor_value_is_text_string it" using assms(3,4)
    by (auto simp: is_fixed_type_def cbor_value_is_container_def cbor_value_is_byte_string_def cbor_value_is_text_string_def)
  from copy_string_any [OF assms(1,2) this, of None "- 1"] show ?thesis by (auto simp: advance_string_def)
qed

lemma advance_elements_moves:
  assumes adv: "\<And>it. iter_ok mem it \<Longrightarrow> cv_remaining it \<noteq> 0 \<Longrightarrow> \<exists>r. adv it = Some r \<and> moves mem (cv_parser it) (cv_ptr it + 1) r"
  shows "iter_ok mem it \<Longrightarrow> \<exists>err it'. advance_elements adv it = Some (Inr (err, it')) \<and> cv_parser it' = cv_parser it \<and>
    (err = CborNoError \<longrightarrow> iter_ok mem it' \<and> cv_remaining it' = 0 \<and> cv_ptr it \<le> cv_ptr it')"
proof (induction "cp_end (cv_parser it) - cv_ptr it" arbitrary: it rule: less_induct)
  case less
  show ?case
  proof (cases "cv_remaining it = 0")
    case True
    then show ?thesis using less.prems by (subst advance_elements.simps) (simp add: cbor_value_at_end_def)
  next
    case False
    obtain err it1 where a: "adv it = Some (Inr (err, it1))" "cv_parser it1 = cv_parser it"
      "err = CborNoError \<longrightarrow> iter_ok mem it1 \<and> cv_ptr it + 1 \<le> cv_ptr it1"
      using adv [OF less.prems False] unfolding moves_def by blast
    show ?thesis
    proof (cases "err = CborNoError")
      case E: True
      have "cp_end (cv_parser it1) - cv_ptr it1 < cp_end (cv_parser it) - cv_ptr it"
        using a E iter_okD(2) [OF less.prems False] by auto
      from less.hyps [OF this] a E show ?thesis
        using False by (subst advance_elements.simps) (fastforce simp: cbor_value_at_end_def)
    next
      case N: False
      then show ?thesis using a False by (subst advance_elements.simps) (simp add: cbor_value_at_end_def)
    qed
  qed
qed

declare advance_recursive.simps [simp del]

lemma advance_recursive_moves:
  "iter_ok mem it \<Longrightarrow> cv_remaining it \<noteq> 0 \<Longrightarrow> \<exists>r. advance_recursive mem n it = Some r \<and> moves mem (cv_parser it) (cv_ptr it + 1) r"
proof (induction n arbitrary: it)
  case 0
  then show ?case
    using advance_internal_moves [of mem it] advance_string_moves [of mem it] by (subst advance_recursive.simps) auto
next
  case (Suc n)
  show ?case
  proof (cases "is_fixed_type (cv_type it) \<or> \<not> cbor_value_is_container it")
    case True
    then show ?thesis
      using Suc.prems advance_internal_moves [of mem it] advance_string_moves [of mem it] by (subst advance_recursive.simps) auto
  next
    case False
    obtain err rec where e: "cbor_value_enter_container mem it = Inr (err, rec)" "cv_parser rec = cv_parser it"
      "err = CborNoError \<longrightarrow> iter_ok mem rec \<and> cv_ptr it + 1 \<le> cv_ptr rec"
      using enter_moves [OF Suc.prems] False unfolding moves_def by blast
    show ?thesis
    proof (cases "err = CborNoError")
      case True
      obtain err2 rec2 where a: "advance_elements (advance_recursive mem n) rec = Some (Inr (err2, rec2))" "cv_parser rec2 = cv_parser rec"
        "err2 = CborNoError \<longrightarrow> iter_ok mem rec2 \<and> cv_remaining rec2 = 0 \<and> cv_ptr rec \<le> cv_ptr rec2"
        using advance_elements_moves [OF Suc.IH] e True by blast
      have "moves mem (cv_parser it) (cv_ptr it + 1) (cbor_value_leave_container mem it rec2)" if "err2 = CborNoError"
        using leave_moves [of it mem rec2] Suc.prems False a that e True moves_mono by auto
      then show ?thesis using False e a True by (subst advance_recursive.simps) auto
    next
      case N: False
      then show ?thesis using False e by (subst advance_recursive.simps) auto
    qed
  qed
qed

lemma advance_moves:
  assumes "iter_ok mem it" and "cv_remaining it \<noteq> 0"
  shows "\<exists>r. cbor_value_advance mem it = Some r \<and> moves mem (cv_parser it) (cv_ptr it + 1) r"
  using advance_recursive_moves [OF assms] iter_okD(7) [OF assms] assms(2) by (auto simp: cbor_value_advance_def)

section \<open>Numbers\<close>

lemma decode_any:
  assumes "iter_ok mem it" and "cv_remaining it \<noteq> 0" and "cv_flags it AND 1 \<noteq> 0"
  shows "\<exists>v. cbor_value_decode_int64_internal mem it = Inr v"
proof -
  note k = iter_okD [OF assms(1,2)]
  let ?b = "mem ! cv_ptr it" and ?p = "cv_ptr it"
  have f: "head_flags ?b AND 1 \<noteq> 0" using assms(3) k(5) by simp
  have d: "unat (?b AND 31) = 26 \<or> unat (?b AND 31) = 27"
    using f by (auto simp: head_flags_def Let_def bit.conj_disj_distrib2 split: if_splits)
  have fits: "?p + 1 + number_bytes (unat (?b AND 31)) \<le> length mem"
    using k(1,3) d by (auto simp: head_good_def Let_def in_memory_def)
  have e: "?b AND 1 = (?b AND 31) AND 1" by (simp add: and.assoc)
  have "?b AND 31 = 26 \<or> ?b AND 31 = 27" using d by (auto simp: word_unat_eq_iff)
  then show ?thesis using d fits assms(3) e
    by (auto simp: cbor_value_decode_int64_internal_def flag_consts parser_consts get32_def get64_def number_bytes_def)
qed

lemma extract_any:
  assumes "iter_ok mem it" and "cv_remaining it \<noteq> 0"
  shows "\<exists>v. cbor_value_extract_int64_helper mem it = Inr v"
  using decode_any [OF assms] by (auto simp: cbor_value_extract_int64_helper_def flag_consts)

lemma head_type_byte: "head_type b = v \<Longrightarrow> v \<in> {0xF6, 0xF7, 0xF9, 0xFA, 0xFB} \<Longrightarrow> b = v"
  using major_cases [of b] by (auto simp: head_type_def Let_def split: if_splits)

lemma float_any:
  assumes "iter_ok mem it" and "cv_remaining it \<noteq> 0"
  shows "cbor_value_is_double it \<Longrightarrow> \<exists>v. cbor_value_get_double mem it = Inr v"
    and "cbor_value_is_float it \<Longrightarrow> \<exists>v. cbor_value_get_float mem it = Inr v"
    and "cbor_value_is_half_float it \<Longrightarrow> \<exists>v. cbor_value_get_half_float mem it = Inr v"
proof -
  note k = iter_okD [OF assms]
  have b: "mem ! cv_ptr it = v" if "cv_type it = v" "v \<in> {0xF6, 0xF7, 0xF9, 0xFA, 0xFB}" for v
    using head_type_byte k(4) that by simp
  show "\<exists>v. cbor_value_get_double mem it = Inr v" if t: "cbor_value_is_double it"
  proof -
    have "cv_flags it AND 1 \<noteq> 0" using b [of "0xFB"] t k(5) by (simp add: cbor_value_is_double_def head_flags_def)
    then show ?thesis using decode_any [OF assms] t by (auto simp: cbor_value_get_double_def flag_consts)
  qed
  show "\<exists>v. cbor_value_get_float mem it = Inr v" if t: "cbor_value_is_float it"
  proof -
    have "cv_flags it AND 1 \<noteq> 0" using b [of "0xFA"] t k(5) by (simp add: cbor_value_is_float_def head_flags_def)
    then show ?thesis using decode_any [OF assms] t by (auto simp: cbor_value_get_float_def flag_consts)
  qed
  show "\<exists>v. cbor_value_get_half_float mem it = Inr v" if t: "cbor_value_is_half_float it"
  proof -
    have "cv_ptr it + 3 \<le> length mem"
      using b [of "0xF9"] t k(1,3) by (auto simp: cbor_value_is_half_float_def head_good_def number_bytes_def in_memory_def)
    then show ?thesis using t by (simp add: cbor_value_get_half_float_def get16_def)
  qed
qed

lemma init_moves:
  assumes "buffer + sz \<le> length mem" and "length mem < 2 ^ 63"
  shows "moves mem \<lparr>cp_end = buffer + sz, cp_flags = flags\<rparr> buffer (cbor_parser_init mem buffer sz flags)"
  using preparse_moves [of mem "\<lparr>cv_parser = \<lparr>cp_end = buffer + sz, cp_flags = flags\<rparr>, cv_ptr = buffer, cv_remaining = 1,
       cv_extra = 0, cv_type = 0, cv_flags = 0\<rparr>"] assms by (simp add: cbor_parser_init_def in_memory_def)

section \<open>Type safety of the parser\<close>




end
