(* ===== verification/Cbor_Reader.thy ===== *)
theory Cbor_Reader
  imports Cbor_Safe
begin

text \<open>
  The reader of \<^verbatim>\<open>tinycbor/examples/simplereader.c\<close>, which prints a file with the API of the parser. It returns
  on every input, because the iterator moves forward.
\<close>

section \<open>The reader\<close>

text \<open>What is printed, apart from the indentation. Integers are the bits of the \<open>int64_t\<close>, floating-point numbers their bits.\<close>

datatype dump_token =
    Dump_array | Dump_map | Dump_end
  | Dump_int u64
  | Dump_bytes "u8 list"
  | Dump_text "u8 list"
  | Dump_tag u64
  | Dump_simple u8
  | Dump_null
  | Dump_undefined
  | Dump_bool bool
  | Dump_float u32
  | Dump_double u64
  | Dump_half u16

text \<open>The branches of the switch that end with \<open>break\<close>.\<close>

definition dump_scalar :: "u8 list \<Rightarrow> cbor_value \<Rightarrow> dump_token res" where
  "dump_scalar mem it =
     (let type = cbor_value_get_type it in
      if type = CborType_number CborIntegerType then bindr (cbor_value_get_int64 mem it) (\<lambda>v. Inr (Dump_int v))
      else if type = CborType_number CborTagType then bindr (cbor_value_get_tag mem it) (\<lambda>v. Inr (Dump_tag v))
      else if type = CborType_number CborSimpleType then bindr (cbor_value_get_simple_type it) (\<lambda>v. Inr (Dump_simple v))
      else if type = CborType_number CborNullType then Inr Dump_null
      else if type = CborType_number CborUndefinedType then Inr Dump_undefined
      else if type = CborType_number CborBooleanType then bindr (cbor_value_get_boolean it) (\<lambda>b. Inr (Dump_bool b))
      else if type = CborType_number CborFloatType then bindr (cbor_value_get_float mem it) (\<lambda>v. Inr (Dump_float v))
      else if type = CborType_number CborDoubleType then bindr (cbor_value_get_double mem it) (\<lambda>v. Inr (Dump_double v))
      else if type = CborType_number CborHalfFloatType then bindr (cbor_value_get_half_float mem it) (\<lambda>v. Inr (Dump_half v))
      else Inl (Assert_failed ''false''))"

definition dump_open :: "cbor_value \<Rightarrow> dump_token" where
  "dump_open it = (if cbor_value_get_type it = CborType_number CborArrayType then Dump_array else Dump_map)"

text \<open>A string: the copy is printed up to its length, or as a C string.\<close>

definition dump_string :: "(u64 \<Rightarrow> bool) \<Rightarrow> u8 list \<Rightarrow> cbor_value \<Rightarrow> (CborError \<times> cbor_value \<times> dump_token list) run" where
  "dump_string alloc mem it =
     (if cbor_value_get_type it = CborType_number CborByteStringType then
        bindo (cbor_value_dup_byte_string alloc mem it) (\<lambda>(err, buf, n, it').
          Some (Inr (err, it', case buf of None \<Rightarrow> [] | Some bs \<Rightarrow> [Dump_bytes (take (unat n) bs)])))
      else
        bindo (cbor_value_dup_text_string alloc mem it) (\<lambda>(err, buf, n, it').
          Some (Inr (err, it', case buf of None \<Rightarrow> [] | Some bs \<Rightarrow> [Dump_text (takeWhile (\<lambda>c. c \<noteq> 0) bs)]))))"

text \<open>\<open>dumprecursive\<close> returns a \<open>bool\<close>, which turns every error into the number 1.\<close>

definition as_bool :: "CborError \<Rightarrow> CborError" where
  "as_bool err = (if err = CborNoError then CborNoError else CborUnknownError)"

partial_function (option) dumprecursive ::
    "(u64 \<Rightarrow> bool) \<Rightarrow> u8 list \<Rightarrow> cbor_value \<Rightarrow> (CborError \<times> cbor_value \<times> dump_token list) run" where
  "dumprecursive alloc mem it =
     (if cbor_value_at_end it then Some (Inr (CborNoError, it, []))
      else if cbor_value_is_container it then
        bindo (Some (cbor_value_enter_container mem it)) (\<lambda>r.
          if fst r \<noteq> CborNoError then Some (Inr (as_bool (fst r), it, [dump_open it]))
          else bindo (dumprecursive alloc mem (snd r)) (\<lambda>q.
            if fst q \<noteq> CborNoError then Some (Inr (as_bool (fst q), it, dump_open it # snd (snd q)))
            else bindo (Some (cbor_value_leave_container mem it (fst (snd q)))) (\<lambda>s.
              if fst s \<noteq> CborNoError then Some (Inr (as_bool (fst s), snd s, dump_open it # snd (snd q)))
              else bindo (dumprecursive alloc mem (snd s)) (\<lambda>u.
                Some (Inr (fst u, fst (snd u), dump_open it # snd (snd q) @ Dump_end # snd (snd u)))))))
      else if cbor_value_is_byte_string it \<or> cbor_value_is_text_string it then
        bindo (dump_string alloc mem it) (\<lambda>s.
          if fst s \<noteq> CborNoError then Some (Inr (as_bool (fst s), fst (snd s), []))
          else bindo (dumprecursive alloc mem (fst (snd s))) (\<lambda>u.
            Some (Inr (fst u, fst (snd u), snd (snd s) @ snd (snd u)))))
      else
        bindo (Some (dump_scalar mem it)) (\<lambda>t.
        bindo (Some (cbor_value_advance_fixed mem it)) (\<lambda>r.
          if fst r \<noteq> CborNoError then Some (Inr (as_bool (fst r), snd r, [t]))
          else bindo (dumprecursive alloc mem (snd r)) (\<lambda>u. Some (Inr (fst u, fst (snd u), t # snd (snd u)))))))"

text \<open>
  \<open>main\<close> on the contents of the file (\<open>None\<close> if it cannot be read): the exit status, what is printed,
  and the offset and the text of an error.
\<close>

definition simplereader :: "(u64 \<Rightarrow> bool) \<Rightarrow> u8 list option \<Rightarrow> (int \<times> dump_token list \<times> (nat \<times> string) option) run" where
  "simplereader alloc contents =
     (case contents of
        None \<Rightarrow> Some (Inr (1, [], None))
      | Some buf \<Rightarrow>
          bindo (Some (cbor_parser_init buf 0 (length buf) 0)) (\<lambda>(err, it).
          bindo (if err = CborNoError then dumprecursive alloc buf it else Some (Inr (err, it, []))) (\<lambda>(err, it, tokens).
            if err \<noteq> CborNoError then Some (Inr (1, tokens, Some (cv_ptr it, cbor_error_string err)))
            else Some (Inr (0, tokens, None)))))"

section \<open>The reader returns on every input\<close>

lemma head_type_values: "head_good mem p e \<Longrightarrow> head_type (mem ! p) \<in>
  {0, 0x40, 0x60, 0x80, 0xA0, 0xC0, 0xE0, 0xF5, 0xF6, 0xF7, 0xF9, 0xFA, 0xFB}"
proof -
  assume g: "head_good mem p e"
  define b where "b = mem ! p"
  have "b \<in> {0xF5, 0xF6, 0xF7, 0xF9, 0xFA, 0xFB}" if "b AND 0xE0 = 0xE0" "unat (b AND 31) \<in> {21, 22, 23, 25, 26, 27}"
  proof -
    define n where "n = unat (b AND 31)"
    have "b = 0xE0 + of_nat n" using byte_split [of b] that(1) by (simp add: n_def)
    then show ?thesis using that(2) unfolding n_def [symmetric] by auto
  qed
  then show ?thesis using major_cases [of b] unfolding b_def [symmetric] head_type_def Let_def by auto
qed

lemma dump_scalar_any:
  assumes "iter_ok mem it" and "cv_remaining it \<noteq> 0" and "is_fixed_type (cv_type it)"
  shows "\<exists>t. dump_scalar mem it = Inr t"
proof -
  note k = iter_okD [OF assms(1,2)]
  have "cv_type it \<in> {0, 0xC0, 0xE0, 0xF5, 0xF6, 0xF7, 0xF9, 0xFA, 0xFB}"
    using head_type_values [OF k(3)] k(4) assms(3) by (auto simp: is_fixed_type_def)
  then show ?thesis using extract_any [OF assms(1,2)] float_any [OF assms(1,2)]
    by (auto simp: dump_scalar_def Let_def cbor_value_get_type_def cbor_value_get_int64_def cbor_value_is_integer_def cbor_value_get_tag_def
        cbor_value_is_tag_def cbor_value_get_simple_type_def cbor_value_is_simple_type_def cbor_value_get_boolean_def
        cbor_value_is_boolean_def cbor_value_is_float_def cbor_value_is_double_def cbor_value_is_half_float_def)
qed

lemma dump_string_any:
  assumes "iter_ok mem it" and "cv_remaining it \<noteq> 0" and "cbor_value_is_byte_string it \<or> cbor_value_is_text_string it"
  shows "\<exists>err it' ts. dump_string alloc mem it = Some (Inr (err, it', ts)) \<and> moves mem (cv_parser it) (cv_ptr it + 1) (Inr (err, it'))"
proof -
  obtain err buf len it' where "cbor_value_dup_string alloc mem it = Some (Inr (err, buf, len, it'))"
    "moves mem (cv_parser it) (cv_ptr it + 1) (Inr (err, it'))"
    using dup_string_any [OF assms] by blast
  then show ?thesis using assms(3)
    by (auto simp: dump_string_def cbor_value_get_type_def cbor_value_dup_byte_string_def cbor_value_dup_text_string_def
        cbor_value_is_byte_string_def cbor_value_is_text_string_def)
qed

lemma dump_any:
  "iter_ok mem it \<Longrightarrow> \<exists>err it' ts. dumprecursive alloc mem it = Some (Inr (err, it', ts)) \<and> cv_parser it' = cv_parser it \<and>
    (err = CborNoError \<longrightarrow> iter_ok mem it' \<and> cv_remaining it' = 0 \<and> cv_ptr it \<le> cv_ptr it')"
proof (induction "cp_end (cv_parser it) - cv_ptr it" arbitrary: it rule: less_induct)
  case less
  show ?case
  proof (cases "cv_remaining it = 0")
    case True
    then show ?thesis using less.prems by (subst dumprecursive.simps) (simp add: cbor_value_at_end_def)
  next
    case F: False
    have go: "\<exists>err it'' ts. dumprecursive alloc mem it' = Some (Inr (err, it'', ts)) \<and> cv_parser it'' = cv_parser it \<and>
        (err = CborNoError \<longrightarrow> iter_ok mem it'' \<and> cv_remaining it'' = 0 \<and> cv_ptr it' \<le> cv_ptr it'')"
      if "iter_ok mem it'" "cv_parser it' = cv_parser it" "cv_ptr it + 1 \<le> cv_ptr it'" for it'
      using less.hyps [of it'] that iter_okD(2) [OF less.prems F] by auto
    consider (container) "cbor_value_is_container it" | (str) "\<not> cbor_value_is_container it" "cbor_value_is_byte_string it \<or> cbor_value_is_text_string it"
      | (fixed) "\<not> cbor_value_is_container it" "\<not> (cbor_value_is_byte_string it \<or> cbor_value_is_text_string it)" by blast
    then show ?thesis
    proof cases
      case container
      obtain err rec where e: "cbor_value_enter_container mem it = Inr (err, rec)" "cv_parser rec = cv_parser it"
        "err = CborNoError \<longrightarrow> iter_ok mem rec \<and> cv_ptr it + 1 \<le> cv_ptr rec"
        using enter_moves [OF less.prems F container] unfolding moves_def by blast
      show ?thesis
      proof (cases "err = CborNoError")
        case True
        obtain err2 rec2 ts where d: "dumprecursive alloc mem rec = Some (Inr (err2, rec2, ts))" "cv_parser rec2 = cv_parser it"
          "err2 = CborNoError \<longrightarrow> iter_ok mem rec2 \<and> cv_remaining rec2 = 0 \<and> cv_ptr rec \<le> cv_ptr rec2"
          using go [of rec] e True by blast
        show ?thesis
        proof (cases "err2 = CborNoError")
          case True2: True
          obtain err3 it3 where l: "cbor_value_leave_container mem it rec2 = Inr (err3, it3)" "cv_parser it3 = cv_parser it"
            "err3 = CborNoError \<longrightarrow> iter_ok mem it3 \<and> cv_ptr rec2 \<le> cv_ptr it3"
            using leave_moves [OF F container, of mem rec2] d True2 unfolding moves_def by blast
          show ?thesis
          proof (cases "err3 = CborNoError")
            case True3: True
            then obtain err4 it4 ts4 where "dumprecursive alloc mem it3 = Some (Inr (err4, it4, ts4))" "cv_parser it4 = cv_parser it"
              "err4 = CborNoError \<longrightarrow> iter_ok mem it4 \<and> cv_remaining it4 = 0 \<and> cv_ptr it3 \<le> cv_ptr it4"
              using go [of it3] l e True d True2 by auto
            then show ?thesis using e True d True2 l True3 F container
              by (subst dumprecursive.simps) (auto simp: cbor_value_at_end_def)
          qed (use e True d True2 l F container in \<open>subst dumprecursive.simps, simp add: cbor_value_at_end_def as_bool_def\<close>)
        qed (use e True d F container in \<open>subst dumprecursive.simps, simp add: cbor_value_at_end_def as_bool_def\<close>)
      qed (use e F container in \<open>subst dumprecursive.simps, simp add: cbor_value_at_end_def as_bool_def\<close>)
    next
      case str
      obtain err it1 ts where s: "dump_string alloc mem it = Some (Inr (err, it1, ts))" "cv_parser it1 = cv_parser it"
        "err = CborNoError \<longrightarrow> iter_ok mem it1 \<and> cv_ptr it + 1 \<le> cv_ptr it1"
        using dump_string_any [OF less.prems F str(2), of alloc] by auto
      show ?thesis
      proof (cases "err = CborNoError")
        case True
        then obtain err2 it2 ts2 where "dumprecursive alloc mem it1 = Some (Inr (err2, it2, ts2))" "cv_parser it2 = cv_parser it"
          "err2 = CborNoError \<longrightarrow> iter_ok mem it2 \<and> cv_remaining it2 = 0 \<and> cv_ptr it1 \<le> cv_ptr it2"
          using go [of it1] s by auto
        then show ?thesis using True s F str by (subst dumprecursive.simps) (auto simp: cbor_value_at_end_def)
      qed (use s F str in \<open>subst dumprecursive.simps, simp add: cbor_value_at_end_def as_bool_def\<close>)
    next
      case fixed
      then have fx: "is_fixed_type (cv_type it)"
        by (auto simp: is_fixed_type_def cbor_value_is_container_def cbor_value_is_byte_string_def cbor_value_is_text_string_def)
      obtain t where t: "dump_scalar mem it = Inr t" using dump_scalar_any [OF less.prems F fx] by blast
      obtain err it1 where a: "cbor_value_advance_fixed mem it = Inr (err, it1)" "cv_parser it1 = cv_parser it"
        "err = CborNoError \<longrightarrow> iter_ok mem it1 \<and> cv_ptr it + 1 \<le> cv_ptr it1"
        using advance_fixed_moves [OF less.prems F fx] unfolding moves_def by blast
      show ?thesis
      proof (cases "err = CborNoError")
        case True
        then obtain err2 it2 ts2 where "dumprecursive alloc mem it1 = Some (Inr (err2, it2, ts2))" "cv_parser it2 = cv_parser it"
          "err2 = CborNoError \<longrightarrow> iter_ok mem it2 \<and> cv_remaining it2 = 0 \<and> cv_ptr it1 \<le> cv_ptr it2"
          using go [of it1] a by auto
        then show ?thesis using True a t F fixed by (subst dumprecursive.simps) (auto simp: cbor_value_at_end_def)
      qed (use a t F fixed in \<open>subst dumprecursive.simps, simp add: cbor_value_at_end_def as_bool_def\<close>)
    qed
  qed
qed

end
