(* ===== verification/Cbor_Roundtrip.thy ===== *)
theory Cbor_Roundtrip
  imports Cbor_Reader
begin

text \<open>
  What the encoder of tinycbor writes, its parser reads back: the reader on the reference encoding of an item
  (which the encoder produces, \<open>Cbor_Encoder\<close>) shows that item, whatever its size and nesting.
\<close>

section \<open>Numbers are read back\<close>

lemma be_bytes_Suc: "be_bytes (Suc n) v = be_bytes n (drop_bit 8 v) @ [ucast v]"
proof -
  have "drop_bit (8 * (n - i)) v = drop_bit (8 * (n - 1 - i)) (drop_bit 8 v)" if "i < n" for i
  proof -
    have "8 * (n - i) = 8 * (n - 1 - i) + 8" using that by simp
    then show ?thesis by (simp only: drop_bit_drop_bit)
  qed
  then show ?thesis by (simp add: be_bytes_def)
qed

lemma be_value_snoc: "be_value (bs @ [b]) = push_bit 8 (be_value bs) OR ucast b"
  by (simp add: be_value_def)

lemma be_value_be_bytes: "be_value (be_bytes n v) = take_bit (8 * n) v"
proof (induction n arbitrary: v)
  case 0
  then show ?case by (simp add: be_bytes_def be_value_def)
next
  case (Suc n)
  have "push_bit 8 (take_bit (8 * n) (drop_bit 8 v)) OR ucast (ucast v :: u8) = take_bit (8 * Suc n) v"
    by (rule bit_word_eqI) (auto simp: bit_simps)
  then show ?case by (simp only: be_bytes_Suc be_value_snoc Suc.IH)
qed

lemma be_value_back:
  "v < 0x100 \<Longrightarrow> be_value (be_bytes 1 v) = v" "v < 0x10000 \<Longrightarrow> be_value (be_bytes 2 v) = v"
  "v < 0x100000000 \<Longrightarrow> be_value (be_bytes 4 v) = v" "be_value (be_bytes 8 v) = v"
  by (simp_all add: be_value_be_bytes take_bit_word_eq_self word_unat_eq_iff unsigned_take_bit_eq take_bit_nat_eq_self_iff word_less_nat_alt)

text \<open>Bytes in memory, before the end of the buffer.\<close>

definition placed :: "u8 list \<Rightarrow> nat \<Rightarrow> u8 list \<Rightarrow> nat \<Rightarrow> bool" where
  "placed mem p bs e \<longleftrightarrow> in_memory mem p e \<and> p + length bs \<le> e \<and> take (length bs) (drop p mem) = bs"

lemma placed_append: "placed mem p (xs @ ys) e \<longleftrightarrow> placed mem p xs e \<and> placed mem (p + length xs) ys e"
  by (auto simp: placed_def in_memory_def take_add add.commute)

lemma placed_Cons: "placed mem p (x # xs) e \<longleftrightarrow> in_memory mem p e \<and> p < e \<and> mem ! p = x \<and> placed mem (p + 1) xs e"
proof -
  have "p < length mem \<Longrightarrow> drop p mem = mem ! p # drop (p + 1) mem" by (simp add: Cons_nth_drop_Suc)
  then show ?thesis by (auto simp: placed_def in_memory_def)
qed

text \<open>The head of an item.\<close>

lemma byte_of_head:
  assumes "mt \<in> {0, 0x20, 0x40, 0x60, 0x80, 0xA0, 0xC0, 0xE0 :: u8}" and "k < 32"
  shows "(mt + of_nat k) AND 0xE0 = mt" and "unat ((mt + of_nat k) AND 31) = k"
proof -
  have m: "mt AND 0xE0 = mt" "mt AND 31 = 0" using assms(1) by auto
  have "take_bit 5 (of_nat k :: u8) = of_nat k" using assms(2) by (simp add: word_unat_eq_iff unsigned_take_bit_eq take_bit_nat_eq_self unsigned_of_nat)
  then have k: "(of_nat k :: u8) AND 31 = of_nat k" by (simp add: take_bit_eq_mask mask_eq_exp_minus_1)
  have "(of_nat k :: u8) AND 0xE0 = of_nat k AND (31 AND 0xE0)" by (simp only: k flip: and.assoc)
  then have k': "(of_nat k :: u8) AND 0xE0 = 0" by simp
  have k2: "31 AND (of_nat k :: u8) = of_nat k" using k by (simp only: and.commute)
  have "mt AND of_nat k = (mt AND 31) AND of_nat k" by (simp only: and.assoc k2)
  then have s: "mt + of_nat k = mt OR of_nat k" using m by (intro disjunctive_add_eq_or) simp
  show "(mt + of_nat k) AND 0xE0 = mt" by (simp only: s bit.conj_disj_distrib2 m k') simp
  have "(mt + of_nat k) AND 31 = of_nat k" by (simp only: s bit.conj_disj_distrib2 m k) simp
  then show "unat ((mt + of_nat k) AND 31) = k" using assms(2) by (simp add: unsigned_of_nat take_bit_nat_eq_self)
qed

definition head_digit :: "u64 \<Rightarrow> nat" where
  "head_digit n = (if n < 24 then unat n else if n < 0x100 then 24 else if n < 0x10000 then 25 else if n < 0x100000000 then 26 else 27)"

lemma head_digit_le: "head_digit n \<le> 27"
  by (auto simp: head_digit_def word_less_nat_alt)

lemma head_digit_small: "head_digit n < 24 \<longleftrightarrow> n < 24" "n < 24 \<Longrightarrow> head_digit n = unat n"
  by (auto simp: head_digit_def word_less_nat_alt)

lemma length_head: "length (cbor_head mt n) = 1 + number_bytes (head_digit n)"
  by (auto simp: cbor_head_def head_digit_def number_bytes_def word_less_nat_alt)

lemma head_placed:
  assumes "placed mem p (cbor_head mt n) e" and "mt \<in> {0, 0x20, 0x40, 0x60, 0x80, 0xA0, 0xC0, 0xE0}"
  shows "mem ! p AND 0xE0 = mt" and "unat (mem ! p AND 31) = head_digit n" and "p < e" and "in_memory mem p e"
    and "p + 1 + number_bytes (head_digit n) \<le> e"
    and "24 \<le> head_digit n \<Longrightarrow> be_value (take (number_bytes (head_digit n)) (drop (p + 1) mem)) = n"
proof -
  have h: "cbor_head mt n = (mt + of_nat (head_digit n)) # (if head_digit n < 24 then [] else be_bytes (number_bytes (head_digit n)) n)"
    by (auto simp: cbor_head_def head_digit_def number_bytes_def word_less_nat_alt)
  have p: "p < e" "mem ! p = mt + of_nat (head_digit n)" "24 \<le> head_digit n \<Longrightarrow> placed mem (p + 1) (be_bytes (number_bytes (head_digit n)) n) e"
    using assms(1) unfolding h placed_Cons by auto
  show "mem ! p AND 0xE0 = mt" "unat (mem ! p AND 31) = head_digit n" "p < e"
    using byte_of_head [OF assms(2), of "head_digit n"] head_digit_le [of n] p by auto
  show "in_memory mem p e" "p + 1 + number_bytes (head_digit n) \<le> e"
    using assms(1) length_head [of mt n] by (auto simp: placed_def)
  assume d: "24 \<le> head_digit n"
  have "take (number_bytes (head_digit n)) (drop (p + 1) mem) = be_bytes (number_bytes (head_digit n)) n"
    using p(3) [OF d] by (simp add: placed_def)
  moreover have "\<not> n < 24" using d head_digit_small(1) [of n] by simp
  ultimately show "be_value (take (number_bytes (head_digit n)) (drop (p + 1) mem)) = n"
    using be_value_back [of n] by (auto simp: head_digit_def number_bytes_def)
qed

lemma be_value_byte: "p + 1 < length mem \<Longrightarrow> be_value (take 1 (drop (p + 1) mem)) = ucast (mem ! (p + 1))"
  by (simp add: be_value_def take_Suc_conv_app_nth flip: Cons_nth_drop_Suc)

lemma ucast_back: "n < 0x10000 \<Longrightarrow> ucast (ucast n :: u16) = (n :: u64)" "n < 0x100000000 \<Longrightarrow> ucast (ucast n :: u32) = (n :: u64)"
  by (simp_all add: word_unat_eq_iff unsigned_ucast_eq unsigned_take_bit_eq take_bit_nat_eq_self word_less_nat_alt)

lemma head_extract:
  assumes "placed mem p (cbor_head mt n) e" and "mt \<in> {0, 0x20, 0x40, 0x60, 0x80, 0xA0, 0xC0, 0xE0}"
  shows "cbor_value_extract_number mem p e = Inr (CborNoError, p + length (cbor_head mt n), n)"
proof -
  note h = head_placed [OF assms]
  have m: "p < length mem" "p + 1 + number_bytes (head_digit n) \<le> length mem" using h by (auto simp: in_memory_def)
  consider (small) "n < 24" | (d24) "\<not> n < 24" "n < 0x100" "head_digit n = 24" | (d25) "\<not> n < 24" "n < 0x10000" "head_digit n = 25"
    | (d26) "\<not> n < 24" "n < 0x100000000" "head_digit n = 26" | (d27) "\<not> n < 24" "head_digit n = 27"
    by (cases "n < 24"; cases "n < 0x100"; cases "n < 0x10000"; cases "n < 0x100000000") (simp_all add: head_digit_def)
  then show ?thesis
  proof cases
    case small
    then show ?thesis using h(2) m head_digit_small [of n]
      by (simp add: cbor_value_extract_number_def parser_consts length_head number_bytes_def word_less_nat_alt)
  next
    case d24
    have "\<not> ptr_diff e (Suc p) < 1" using h(4,5) d24 ptr_diff_less [of "Suc p" e 1] by (auto simp: in_memory_def number_bytes_def)
    then show ?thesis using h(2,6) m d24 be_value_byte [of p mem]
      by (simp add: cbor_value_extract_number_def parser_consts length_head number_bytes_def Let_def)
  next
    case d25
    have "\<not> ptr_diff e (Suc p) < 2" using h(4,5) d25 ptr_diff_less [of "Suc p" e 2] by (auto simp: in_memory_def number_bytes_def)
    then show ?thesis using h(2,6) m d25 ucast_back(1) [of n]
      by (simp add: cbor_value_extract_number_def parser_consts length_head number_bytes_def Let_def get16_def)
  next
    case d26
    have "\<not> ptr_diff e (Suc p) < 4" using h(4,5) d26 ptr_diff_less [of "Suc p" e 4] by (auto simp: in_memory_def number_bytes_def)
    then show ?thesis using h(2,6) m d26 ucast_back(2) [of n]
      by (simp add: cbor_value_extract_number_def parser_consts length_head number_bytes_def Let_def get32_def)
  next
    case d27
    have "\<not> ptr_diff e (Suc p) < 8" using h(4,5) d27 ptr_diff_less [of "Suc p" e 8] by (auto simp: in_memory_def number_bytes_def)
    then show ?thesis using h(2,6) m d27
      by (simp add: cbor_value_extract_number_def parser_consts length_head number_bytes_def Let_def get64_def)
  qed
qed

text \<open>The number that the iterator at a head knows.\<close>

lemma at_head_known:
  "at_head mem it = it \<Longrightarrow> cv_type it = head_type (mem ! cv_ptr it) \<and> cv_flags it = head_flags (mem ! cv_ptr it) \<and>
    cv_extra it = head_extra mem (cv_ptr it)"
  using at_head_fields [of mem it] by simp

lemma decode_placed:
  assumes it: "at_head mem it = it" and d: "unat (mem ! cv_ptr it AND 31) = d" "d = 26 \<or> d = 27"
    and m: "cv_ptr it + 1 + number_bytes d \<le> length mem" and v: "be_value (take (number_bytes d) (drop (cv_ptr it + 1) mem)) = n"
    and n: "d = 26 \<longrightarrow> n < 0x100000000"
  shows "cv_flags it AND 1 \<noteq> 0" and "cbor_value_decode_int64_internal mem it = Inr n"
proof -
  show f: "cv_flags it AND 1 \<noteq> 0"
    using at_head_known [OF it] d by (auto simp: head_flags_def Let_def bit.conj_disj_distrib2)
  have e: "mem ! cv_ptr it AND 1 = (mem ! cv_ptr it AND 31) AND 1" by (simp add: and.assoc)
  have "mem ! cv_ptr it AND 31 = of_nat d" using d(1) by (simp flip: d(1))
  then show "cbor_value_decode_int64_internal mem it = Inr n" using d m v f e n ucast_back(2) [of n]
    by (auto simp: cbor_value_decode_int64_internal_def flag_consts parser_consts get32_def get64_def number_bytes_def)
qed

lemma unat_ucast_16: "unat (ucast (w :: u16) :: u64) = unat w"
  using unsigned_less [of w, where 'a = nat] by (simp add: unsigned_ucast_eq take_bit_nat_eq_self)

lemma ucast_byte_wide: "ucast (ucast (b :: u8) :: u16) = (ucast b :: u64)"
  using unsigned_less [of b, where 'a = nat] by (simp add: word_unat_eq_iff unat_ucast_16) (simp add: unsigned_ucast_eq take_bit_nat_eq_self)

lemma helper_placed:
  assumes "placed mem (cv_ptr it) (cbor_head mt n) (cp_end (cv_parser it))" and "mt \<in> {0, 0x20, 0x40, 0x60, 0x80, 0xA0, 0xC0}"
    and it: "at_head mem it = it"
  shows "cbor_value_extract_int64_helper mem it = Inr n"
proof -
  have mt: "mt \<in> {0, 0x20, 0x40, 0x60, 0x80, 0xA0, 0xC0, 0xE0}" "mt \<noteq> 0xE0" using assms(2) by auto
  note h = head_placed [OF assms(1) mt(1)]
  note k = at_head_known [OF it]
  have m: "cv_ptr it + 1 + number_bytes (head_digit n) \<le> length mem" using h by (auto simp: in_memory_def)
  show ?thesis
  proof (cases "n < 0x10000")
    case True
    then have d: "head_digit n \<noteq> 26" "head_digit n \<noteq> 27" "head_digit n \<noteq> 31"
      using head_digit_small [of n] by (auto simp: head_digit_def word_less_nat_alt)
    have "cv_flags it AND 1 = 0" using k h(1,2) d by (auto simp: head_flags_def Let_def)
    moreover have "ucast (cv_extra it) = n"
    proof -
      consider "n < 24" | "\<not> n < 24" "n < 0x100" "head_digit n = 24" | "\<not> n < 24" "\<not> n < 0x100" "head_digit n = 25"
        using True by (cases "n < 24"; cases "n < 0x100") (simp_all add: head_digit_def)
      then show ?thesis
      proof cases
        case 1
        have "unat (ucast (mem ! cv_ptr it AND 31) :: u16) = unat n" using h(2) 1 by (simp add: head_digit_def)
        then have "ucast (ucast (mem ! cv_ptr it AND 31) :: u16) = n" by (simp only: unat_ucast_16 word_unat_eq_iff)
        moreover have "head_extra mem (cv_ptr it) = ucast (mem ! cv_ptr it AND 31)"
          using 1 h(1,2) mt(2) by (simp add: head_extra_def Let_def head_digit_def word_less_nat_alt)
        ultimately show ?thesis using k by simp
      next
        case 2
        then show ?thesis using k h(1,2,6) mt(2) m be_value_byte [of "cv_ptr it" mem]
          by (simp add: head_extra_def Let_def number_bytes_def ucast_byte_wide)
      next
        case 3
        then show ?thesis using k h(1,2,6) mt(2) ucast_back(1) [OF True]
          by (simp add: head_extra_def Let_def number_bytes_def)
      qed
    qed
    ultimately show ?thesis by (simp add: cbor_value_extract_int64_helper_def flag_consts)
  next
    case False
    then have "\<not> n < 24" "\<not> n < 0x100" by (auto simp: word_less_nat_alt)
    then have d: "head_digit n = 26 \<or> head_digit n = 27" "head_digit n = 26 \<longrightarrow> n < 0x100000000" using False by (auto simp: head_digit_def)
    then have "be_value (take (number_bytes (head_digit n)) (drop (cv_ptr it + 1) mem)) = n" using h(6) by auto
    from decode_placed [OF it h(2) d(1) m this d(2)] show ?thesis by (simp add: cbor_value_extract_int64_helper_def flag_consts)
  qed
qed

section \<open>Items in memory\<close>

text \<open>
  The items that the parser accepts: arrays must not have \<open>UINT32_MAX\<close> or more elements, and the numbers of simple
  values must not be 24 to 31, which the format reserves.
\<close>

fun item_ok :: "cbor_item \<Rightarrow> bool" where
  "item_ok (Item_array is) \<longleftrightarrow> length is < 0xFFFFFFFF \<and> (\<forall>i \<in> set is. item_ok i)"
| "item_ok (Item_tag t i) \<longleftrightarrow> item_ok i"
| "item_ok (Item_simple v) \<longleftrightarrow> \<not> (24 \<le> v \<and> v < 32)"
| "item_ok i \<longleftrightarrow> True"

definition simple_token :: "u8 \<Rightarrow> dump_token" where
  "simple_token v = (if v = 20 then Dump_bool False else if v = 21 then Dump_bool True else if v = 22 then Dump_null
     else if v = 23 then Dump_undefined else Dump_simple v)"

text \<open>What the reader is to print for an item; a text is printed up to its first NUL.\<close>

fun item_tokens :: "cbor_item \<Rightarrow> dump_token list" where
  "item_tokens (Item_unsigned n) = [Dump_int n]"
| "item_tokens (Item_negative n) = [Dump_int (- n - 1)]"
| "item_tokens (Item_bytes bs) = [Dump_bytes bs]"
| "item_tokens (Item_text bs) = [Dump_text (takeWhile (\<lambda>c. c \<noteq> 0) bs)]"
| "item_tokens (Item_array is) = Dump_array # concat (map item_tokens is) @ [Dump_end]"
| "item_tokens (Item_tag t i) = Dump_tag t # item_tokens i"
| "item_tokens (Item_simple v) = [simple_token v]"
| "item_tokens (Item_double d) = [Dump_double d]"

lemma double_head:
  assumes "placed mem p (0xFB # be_bytes 8 v) e"
  shows "mem ! p = 0xFB" and "p + 9 \<le> e" and "in_memory mem p e" and "be_value (take 8 (drop (p + 1) mem)) = v"
    and "cbor_value_extract_number mem p e = Inr (CborNoError, p + 9, v)"
proof -
  have p: "mem ! p = 0xFB" "in_memory mem p e" "p + 9 \<le> e" "placed mem (p + 1) (be_bytes 8 v) e"
    using assms unfolding placed_Cons by (auto simp: placed_def)
  then show "mem ! p = 0xFB" "p + 9 \<le> e" "in_memory mem p e" by blast+
  show b: "be_value (take 8 (drop (p + 1) mem)) = v" using p(4) be_value_back(4) [of v] by (simp add: placed_def)
  have "\<not> ptr_diff e (Suc p) < 8" using p ptr_diff_less [of "Suc p" e 8] by (auto simp: in_memory_def)
  then show "cbor_value_extract_number mem p e = Inr (CborNoError, p + 9, v)" using p b
    by (simp add: cbor_value_extract_number_def parser_consts Let_def get64_def in_memory_def)
qed

lemma ucast_ucast_byte [simp]: "ucast (ucast (v :: u8) :: u64) = v" "ucast (ucast (v :: u8) :: u16) = v"
  using unsigned_less [of v, where 'a = nat]
  by (simp_all add: word_unat_eq_iff unsigned_ucast_eq unsigned_take_bit_eq take_bit_nat_eq_self)

lemma simple_extra:
  assumes "placed mem p (cbor_head 0xE0 (ucast v)) e" and "24 \<le> v"
  shows "mem ! p = 0xF8" and "mem ! (p + 1) = v"
proof -
  have "\<not> ucast v < (24 :: u64)" "ucast v < (2 ^ 8 :: u64)"
    using assms(2) unsigned_less [of v, where 'a = nat] by (simp_all add: word_less_nat_alt word_le_nat_alt unsigned_ucast_eq take_bit_nat_eq_self)
  then have "cbor_head 0xE0 (ucast v) = [0xF8, v]" by (simp add: cbor_head_def be_bytes_def)
  then show "mem ! p = 0xF8" "mem ! (p + 1) = v" using assms(1) by (auto simp: placed_Cons)
qed

lemma head_good_placed:
  assumes "placed mem p (cbor_head mt n) e" and "mt \<in> {0, 0x20, 0x40, 0x60, 0x80, 0xA0, 0xC0, 0xE0}"
    and "mt = 0xE0 \<Longrightarrow> head_digit n = 24 \<Longrightarrow> 32 \<le> mem ! (p + 1)"
  shows "head_good mem p e"
  using head_placed(1-5) [OF assms(1,2)] head_digit_le [of n] assms(3) by (simp add: head_good_def Let_def)

lemma head_good_major:
  "placed mem p (cbor_head mt n) e \<Longrightarrow> mt \<in> {0, 0x20, 0x40, 0x60, 0x80, 0xA0, 0xC0} \<Longrightarrow> head_good mem p e"
  by (rule head_good_placed) auto

lemma item_head_good:
  assumes "placed mem p (cbor_bytes i) e" and "item_ok i"
  shows "head_good mem p e"
proof (cases i)
  case (Item_simple v)
  have "32 \<le> mem ! (p + 1)" if "head_digit (ucast v) = 24"
  proof -
    have "24 \<le> v" using that unsigned_less [of v, where 'a = nat]
      by (auto simp: head_digit_def word_less_nat_alt word_le_nat_alt unsigned_ucast_eq take_bit_nat_eq_self split: if_splits)
    then show ?thesis using simple_extra(2) [of mem p v e] assms Item_simple by (auto simp: not_less not_le)
  qed
  then show ?thesis using head_good_placed [of mem p "0xE0" "ucast v" e] assms(1) Item_simple by simp
next
  case (Item_double v)
  then show ?thesis using double_head [of mem p v e] assms(1) by (simp add: head_good_def number_bytes_def)
qed (use assms in \<open>auto simp: placed_append intro: head_good_major\<close>)

section \<open>An iterator over the rest of a container\<close>

definition items_bytes :: "cbor_item list \<Rightarrow> u8 list" where
  "items_bytes is = concat (map cbor_bytes is)"

lemma items_bytes_simps [simp]: "items_bytes [] = []" "items_bytes (i # is) = cbor_bytes i @ items_bytes is"
  by (simp_all add: items_bytes_def)

text \<open>The iterator \<open>it\<close> has the items \<open>is\<close> before it.\<close>

definition stands :: "u8 list \<Rightarrow> cbor_value \<Rightarrow> cbor_item list \<Rightarrow> bool" where
  "stands mem it is \<longleftrightarrow> placed mem (cv_ptr it) (items_bytes is) (cp_end (cv_parser it)) \<and> (\<forall>i \<in> set is. item_ok i) \<and>
     length is < 0xFFFFFFFF \<and> cv_remaining it = of_nat (length is) \<and>
     (if is = [] then cv_type it = CborType_number CborInvalidType else at_head mem it = it)"

lemma standsD:
  assumes "stands mem it (i # is)"
  shows "placed mem (cv_ptr it) (cbor_bytes i) (cp_end (cv_parser it))" and "item_ok i" and "at_head mem it = it"
    and "cv_remaining it \<noteq> 0" and "cv_remaining it = of_nat (Suc (length is))"
    and "placed mem (cv_ptr it + length (cbor_bytes i)) (items_bytes is) (cp_end (cv_parser it))"
    and "\<forall>i \<in> set is. item_ok i" and "Suc (length is) < 0xFFFFFFFF"
    and "iter_ok mem it"
proof -
  show l: "Suc (length is) < 0xFFFFFFFF" "cv_remaining it = of_nat (Suc (length is))" using assms by (simp_all add: stands_def)
  have "unat (of_nat (Suc (length is)) :: u32) = Suc (length is)" using l by (simp only: unsigned_of_nat) (simp add: take_bit_nat_eq_self)
  then show r: "cv_remaining it \<noteq> 0" using l(2) by auto
  show p: "placed mem (cv_ptr it) (cbor_bytes i) (cp_end (cv_parser it))" "item_ok i" "at_head mem it = it"
    "placed mem (cv_ptr it + length (cbor_bytes i)) (items_bytes is) (cp_end (cv_parser it))" "\<forall>i \<in> set is. item_ok i"
    using assms by (simp_all add: stands_def placed_append)
  show "iter_ok mem it" using r p item_head_good [OF p(1,2)] by (simp add: iter_ok_def placed_def)
qed

lemma preparse_stands:
  assumes "placed mem (cv_ptr it) (items_bytes is) (cp_end (cv_parser it))" and "\<forall>i \<in> set is. item_ok i"
    and "is \<noteq> []" and "length is < 0xFFFFFFFF" and "cv_remaining it = of_nat (length is)"
  shows "preparse_next_value_nodecrement mem it = Inr (CborNoError, at_head mem it)" and "stands mem (at_head mem it) is"
proof -
  obtain i js where i: "is = i # js" using assms(3) by (cases "is") auto
  have "unat (of_nat (length is) :: u32) = length is" using assms(4) by (simp only: unsigned_of_nat) (simp add: take_bit_nat_eq_self)
  then have "cv_remaining it \<noteq> 0xFFFFFFFF" using assms(4,5) by auto
  moreover have p: "placed mem (cv_ptr it) (cbor_bytes i) (cp_end (cv_parser it))" using assms(1) i by (simp add: placed_append)
  then have "preparse_value mem it = Inr (CborNoError, at_head mem it)"
    using preparse_spec [of mem it] item_head_good [OF p] assms(2) i by (simp add: placed_def)
  ultimately show "preparse_next_value_nodecrement mem it = Inr (CborNoError, at_head mem it)"
    by (simp add: preparse_next_value_nodecrement_def)
  show "stands mem (at_head mem it) is" using assms by (simp add: stands_def)
qed

text \<open>Going on behind an item that is not a tag.\<close>

lemma next_stands:
  assumes "placed mem p (items_bytes is) (cp_end (cv_parser it))" and "\<forall>i \<in> set is. item_ok i" and "Suc (length is) < 0xFFFFFFFF"
    and "cv_remaining it = of_nat (Suc (length is))" and "cv_type it \<noteq> 0xC0"
  shows "\<exists>it'. preparse_next_value mem (it\<lparr>cv_ptr := p\<rparr>) = Inr (CborNoError, it') \<and> stands mem it' is \<and> cv_parser it' = cv_parser it \<and> cv_ptr it' = p"
proof -
  have "unat (of_nat (Suc (length is)) :: u32) = Suc (length is)" using assms(3) by (simp only: unsigned_of_nat) (simp add: take_bit_nat_eq_self)
  then have r: "cv_remaining it \<noteq> 0xFFFFFFFF" "cv_remaining it - 1 = of_nat (length is)" using assms(3,4) by auto
  let ?it = "it\<lparr>cv_ptr := p, cv_remaining := of_nat (length is)\<rparr>"
  show ?thesis
  proof (cases "is = []")
    case True
    then show ?thesis using assms r by (simp add: preparse_next_value_def stands_def)
  next
    case False
    have "unat (of_nat (length is) :: u32) = length is" using assms(3) by (simp only: unsigned_of_nat) (simp add: take_bit_nat_eq_self)
    then have "(of_nat (length is) :: u32) \<noteq> 0" using False by auto
    then show ?thesis using preparse_stands [of mem ?it "is"] assms r False by (simp add: preparse_next_value_def Let_def)
  qed
qed

section \<open>Reading an item\<close>

text \<open>Items without contents: the reader prints the value and goes on.\<close>

lemma advance_stands:
  assumes "stands mem it (i # is)" and "cbor_value_extract_number mem (cv_ptr it) (cp_end (cv_parser it)) = Inr (CborNoError, cv_ptr it + length (cbor_bytes i), n)"
    and "is_fixed_type (cv_type it)" and "cv_type it \<noteq> 0xC0"
  shows "\<exists>it'. cbor_value_advance_fixed mem it = Inr (CborNoError, it') \<and> stands mem it' is \<and> cv_parser it' = cv_parser it \<and>
    cv_ptr it' = cv_ptr it + length (cbor_bytes i)"
proof -
  note k = standsD [OF assms(1)]
  have "cv_type it \<noteq> 0xFF" using iter_okD(7) [OF k(9,4)] by simp
  moreover have "cv_type it \<noteq> 0x40" "cv_type it \<noteq> 0x60" using assms(3) by (auto simp: is_fixed_type_def)
  ultimately show ?thesis using next_stands [OF k(6,7,8,5) assms(4)] assms(2,3) k(4)
    by (simp add: cbor_value_advance_fixed_def advance_internal_def)
qed

lemmas type_tests = cbor_value_get_type_def cbor_value_is_integer_def cbor_value_is_tag_def cbor_value_is_simple_type_def
  cbor_value_is_boolean_def cbor_value_is_float_def cbor_value_is_double_def cbor_value_is_half_float_def
  cbor_value_is_byte_string_def cbor_value_is_text_string_def cbor_value_is_container_def cbor_value_is_length_known_def

lemma integer_scalar:
  assumes "stands mem it (i # is)" and "i = Item_unsigned n \<or> i = Item_negative n"
  shows "dump_scalar mem it = Inr (Dump_int (if i = Item_unsigned n then n else - n - 1))" and "cv_type it = 0"
    and "cbor_value_extract_number mem (cv_ptr it) (cp_end (cv_parser it)) = Inr (CborNoError, cv_ptr it + length (cbor_bytes i), n)"
proof -
  note k = standsD [OF assms(1)]
  define mt :: u8 where "mt = (if i = Item_unsigned n then 0 else 0x20)"
  have p: "placed mem (cv_ptr it) (cbor_head mt n) (cp_end (cv_parser it))" "cbor_bytes i = cbor_head mt n"
    using k(1) assms(2) by (auto simp: mt_def)
  have mt: "mt \<in> {0, 0x20, 0x40, 0x60, 0x80, 0xA0, 0xC0}" "mt \<in> {0, 0x20, 0x40, 0x60, 0x80, 0xA0, 0xC0, 0xE0}" by (auto simp: mt_def)
  note h = head_placed(1,2) [OF p(1) mt(2)]
  show t: "cv_type it = 0" using at_head_known [OF k(3)] h(1) by (simp add: head_type_def mt_def)
  have "cv_flags it AND 2 = 0 \<longleftrightarrow> i = Item_unsigned n"
    using at_head_known [OF k(3)] h head_digit_le [of n] by (auto simp: head_flags_def mt_def Let_def bit.conj_disj_distrib2)
  then show "dump_scalar mem it = Inr (Dump_int (if i = Item_unsigned n then n else - n - 1))"
    using helper_placed [OF p(1) mt(1) k(3)] t by (simp add: dump_scalar_def type_tests cbor_value_get_int64_def flag_consts)
  show "cbor_value_extract_number mem (cv_ptr it) (cp_end (cv_parser it)) = Inr (CborNoError, cv_ptr it + length (cbor_bytes i), n)"
    using head_extract [OF p(1) mt(2)] p(2) by simp
qed

lemma double_scalar:
  assumes "stands mem it (Item_double v # is)"
  shows "dump_scalar mem it = Inr (Dump_double v)" and "cv_type it = 0xFB"
    and "cbor_value_extract_number mem (cv_ptr it) (cp_end (cv_parser it)) = Inr (CborNoError, cv_ptr it + length (cbor_bytes (Item_double v)), v)"
proof -
  note k = standsD [OF assms]
  note h = double_head [OF k(1) [unfolded cbor_bytes.simps]]
  show t: "cv_type it = 0xFB" using at_head_known [OF k(3)] h(1) by (simp add: head_type_def)
  have "unat (mem ! cv_ptr it AND 31) = 27" "cv_ptr it + 1 + number_bytes 27 \<le> length mem"
    "be_value (take (number_bytes 27) (drop (cv_ptr it + 1) mem)) = v"
    using h by (simp_all add: number_bytes_def in_memory_def)
  from decode_placed [OF k(3) this(1) _ this(2,3)] show "dump_scalar mem it = Inr (Dump_double v)"
    using t by (simp add: dump_scalar_def type_tests cbor_value_get_double_def flag_consts)
  show "cbor_value_extract_number mem (cv_ptr it) (cp_end (cv_parser it)) = Inr (CborNoError, cv_ptr it + length (cbor_bytes (Item_double v)), v)"
    using h(5) by simp
qed

lemma simple_scalar:
  assumes "stands mem it (Item_simple v # is)"
  shows "dump_scalar mem it = Inr (simple_token v)" and "is_fixed_type (cv_type it)" and "cv_type it \<noteq> 0xC0"
    and "cbor_value_extract_number mem (cv_ptr it) (cp_end (cv_parser it)) = Inr (CborNoError, cv_ptr it + length (cbor_bytes (Item_simple v)), ucast v)"
proof -
  note k = standsD [OF assms]
  have p: "placed mem (cv_ptr it) (cbor_head 0xE0 (ucast v)) (cp_end (cv_parser it))" using k(1) by simp
  note h = head_placed(1,2) [OF p]
  note a = at_head_known [OF k(3)]
  show "cbor_value_extract_number mem (cv_ptr it) (cp_end (cv_parser it)) = Inr (CborNoError, cv_ptr it + length (cbor_bytes (Item_simple v)), ucast v)"
    using head_extract [OF p] by simp
  have "dump_scalar mem it = Inr (simple_token v) \<and> cv_type it \<in> {0xE0, 0xF5, 0xF6, 0xF7}"
  proof (cases "v < 24")
    case True
    then have d: "unat (mem ! cv_ptr it AND 31) = unat v"
      using h(2) unsigned_less [of v, where 'a = nat]
      by (simp add: head_digit_def word_less_nat_alt unsigned_ucast_eq take_bit_nat_eq_self)
    then have w: "mem ! cv_ptr it AND 31 = v" by (simp only: word_unat_eq_iff)
    then have b: "mem ! cv_ptr it = 0xE0 + v" using byte_split [of "mem ! cv_ptr it"] h(1) by simp
    have "unat v < 24" using True by (simp add: word_less_nat_alt)
    then have "unat v < 20 \<or> unat v = 20 \<or> unat v = 21 \<or> unat v = 22 \<or> unat v = 23" by linarith
    then consider "v < 20" | "v = 20" | "v = 21" | "v = 22" | "v = 23"
      by (auto simp: word_less_nat_alt word_unat_eq_iff)
    then show ?thesis
    proof cases
      case 1
      then have u: "unat v < 20" by (simp add: word_less_nat_alt)
      then have "simple_token v = Dump_simple v" by (auto simp: simple_token_def)
      then show ?thesis using a h(1) d w u
        by (simp add: head_type_def head_extra_def Let_def dump_scalar_def type_tests cbor_value_get_simple_type_def)
    qed (use a h(1) w b in \<open>simp_all add: head_type_def head_extra_def dump_scalar_def type_tests cbor_value_get_boolean_def simple_token_def\<close>)
  next
    case False
    then have v: "24 \<le> v" "32 \<le> v" using k(2) by auto
    note b = simple_extra [OF p v(1)]
    have "simple_token v = Dump_simple v" using v by (auto simp: simple_token_def word_le_nat_alt)
    then show ?thesis using a b
      by (simp add: head_type_def head_extra_def dump_scalar_def type_tests cbor_value_get_simple_type_def)
  qed
  then show "dump_scalar mem it = Inr (simple_token v)" "is_fixed_type (cv_type it)" "cv_type it \<noteq> 0xC0"
    by (auto simp: is_fixed_type_def)
qed

lemma tag_scalar:
  assumes "stands mem it (Item_tag t i # is)"
  shows "dump_scalar mem it = Inr (Dump_tag t)" and "cv_type it = 0xC0"
    and "\<exists>it'. cbor_value_advance_fixed mem it = Inr (CborNoError, it') \<and> stands mem it' (i # is) \<and> cv_parser it' = cv_parser it \<and>
      cv_ptr it' = cv_ptr it + length (cbor_head 0xC0 t)"
proof -
  note k = standsD [OF assms]
  have p: "placed mem (cv_ptr it) (cbor_head 0xC0 t) (cp_end (cv_parser it))"
    "placed mem (cv_ptr it + length (cbor_head 0xC0 t)) (items_bytes (i # is)) (cp_end (cv_parser it))"
    using assms by (simp_all add: stands_def placed_append)
  show ty: "cv_type it = 0xC0" using at_head_known [OF k(3)] head_placed(1) [OF p(1)] by (simp add: head_type_def)
  show "dump_scalar mem it = Inr (Dump_tag t)"
    using helper_placed [OF p(1) _ k(3)] ty by (simp add: dump_scalar_def type_tests cbor_value_get_tag_def)
  let ?it = "it\<lparr>cv_ptr := cv_ptr it + length (cbor_head 0xC0 t)\<rparr>"
  have ok: "\<forall>j \<in> set (i # is). item_ok j" using k(2,7) by simp
  have "preparse_next_value mem ?it = Inr (CborNoError, at_head mem ?it)" "stands mem (at_head mem ?it) (i # is)"
    using preparse_stands [of mem ?it "i # is"] p(2) ok k(5,8) ty by (simp_all add: preparse_next_value_def)
  then show "\<exists>it'. cbor_value_advance_fixed mem it = Inr (CborNoError, it') \<and> stands mem it' (i # is) \<and> cv_parser it' = cv_parser it \<and>
      cv_ptr it' = cv_ptr it + length (cbor_head 0xC0 t)"
    using head_extract [OF p(1)] ty k(4) by (simp add: cbor_value_advance_fixed_def is_fixed_type_def advance_internal_def)
qed

text \<open>A string is one chunk, and then no more.\<close>

lemma string_chunks_placed:
  assumes "stands mem it (i # is)" and "i = Item_bytes bs \<and> mt = 0x40 \<or> i = Item_text bs \<and> mt = 0x60"
  shows "cv_type it = mt" and "length bs < 2 ^ 63"
    and "\<exists>it1 it2. get_string_chunk mem it = Inr (CborNoError, Some (cv_ptr it + length (cbor_head mt (of_nat (length bs))), of_nat (length bs)), it1) \<and>
      get_string_chunk mem it1 = Inr (CborNoError, None, it2) \<and> stands mem it2 is \<and> cv_parser it2 = cv_parser it \<and>
      cv_ptr it2 = cv_ptr it + length (cbor_bytes i) \<and>
      bytes_at mem (cv_ptr it + length (cbor_head mt (of_nat (length bs)))) (length bs) = Inr bs"
proof -
  note k = standsD [OF assms(1)]
  let ?e = "cp_end (cv_parser it)" and ?h = "cbor_head mt (of_nat (length bs))"
  have c: "cbor_bytes i = ?h @ bs" using assms(2) by auto
  have p: "placed mem (cv_ptr it) ?h ?e" "placed mem (cv_ptr it + length ?h) bs ?e" using k(1) by (simp_all add: c placed_append)
  have mt: "mt \<in> {0, 0x20, 0x40, 0x60, 0x80, 0xA0, 0xC0, 0xE0}" "mt = 0x40 \<or> mt = 0x60" using assms(2) by auto
  note h = head_placed(1-4) [OF p(1) mt(1)]
  note a = at_head_known [OF k(3)]
  show ty: "cv_type it = mt" using a h(1) mt(2) by (auto simp: head_type_def)
  show l: "length bs < 2 ^ 63" using p(2) by (auto simp: placed_def in_memory_def)
  have u: "unat (of_nat (length bs) :: u64) = length bs" using l by (simp add: unsigned_of_nat take_bit_nat_eq_self)
  have f: "cv_flags it AND 4 = 0" "cv_flags it AND 2 = 0"
    using a h(1,2) head_digit_le [of "of_nat (length bs)"] mt(2) by (auto simp: head_flags_def Let_def bit.conj_disj_distrib2)
  have b: "mem ! cv_ptr it \<noteq> 0xFF" using h(1) mt(2) by auto
  define q where "q = cv_ptr it + length ?h + length bs"
  have q: "cv_ptr it + length (cbor_bytes i) = q" by (simp add: q_def c)
  let ?it1 = "it\<lparr>cv_flags := cv_flags it OR 2, cv_ptr := q\<rparr>"
  have "\<not> of_nat (length bs) > ptr_diff ?e (cv_ptr it + length ?h)"
    using p(2) l by (subst ptr_diff_less) (auto simp: placed_def in_memory_def)
  then have g1: "get_string_chunk mem it = Inr (CborNoError, Some (cv_ptr it + length ?h, of_nat (length bs)), ?it1)"
    using f b h ty head_extract [OF p(1) mt(1)] u
    by (simp add: get_string_chunk_def prepare_string_iteration_def type_tests flag_consts next_chunk_def extract_length_def parser_consts
        in_memory_def Let_def q_def)
  have "(cv_flags it OR 2) AND 4 = 0" using f(1) by (simp add: bit.conj_disj_distrib2)
  moreover obtain it2 where n: "preparse_next_value mem ?it1 = Inr (CborNoError, it2)" "stands mem it2 is" "cv_parser it2 = cv_parser it"
    "cv_ptr it2 = q"
    using next_stands [of mem q "is" "it\<lparr>cv_flags := cv_flags it OR 2\<rparr>"] k(5-8) ty mt(2) unfolding q by auto
  ultimately have "get_string_chunk mem ?it1 = Inr (CborNoError, None, it2)"
    by (simp add: get_string_chunk_def type_tests flag_consts last_chunk_def)
  moreover have "bytes_at mem (cv_ptr it + length ?h) (length bs) = Inr bs" using p(2) by (simp add: placed_def in_memory_def)
  ultimately show "\<exists>it1 it2. get_string_chunk mem it = Inr (CborNoError, Some (cv_ptr it + length ?h, of_nat (length bs)), it1) \<and>
      get_string_chunk mem it1 = Inr (CborNoError, None, it2) \<and> stands mem it2 is \<and> cv_parser it2 = cv_parser it \<and>
      cv_ptr it2 = cv_ptr it + length (cbor_bytes i) \<and> bytes_at mem (cv_ptr it + length ?h) (length bs) = Inr bs"
    using g1 n q by auto
qed

lemma takeWhile_nul: "takeWhile (\<lambda>c. c \<noteq> 0) (bs @ [0 :: u8]) = takeWhile (\<lambda>c. c \<noteq> 0) bs"
  by (induction bs) auto

lemma dup_placed:
  assumes "stands mem it (i # is)" and "i = Item_bytes bs \<and> mt = (0x40 :: u8) \<or> i = Item_text bs \<and> mt = 0x60" and alloc: "\<And>n. alloc n"
  shows "\<exists>it'. cbor_value_dup_string alloc mem it = Some (Inr (CborNoError, Some (bs @ [0]), of_nat (length bs), it')) \<and>
    stands mem it' is \<and> cv_parser it' = cv_parser it \<and> cv_ptr it' = cv_ptr it + length (cbor_bytes i)"
proof -
  note s = string_chunks_placed [OF assms(1,2)]
  let ?n = "of_nat (length bs) :: u64"
  have n1: "?n + 1 = of_nat (length bs + 1)" by simp
  have u: "unat ?n = length bs" "unat (?n + 1) = length bs + 1"
    using s(2) unfolding n1 by (simp_all only: unsigned_of_nat) (simp_all add: take_bit_nat_eq_self)
  have le: "?n \<le> ?n + 1" "?n < ?n + 1" by (simp_all only: word_le_nat_alt word_less_nat_alt u)
  from s(3) obtain it1 it2 where c: "get_string_chunk mem it = Inr (CborNoError, Some (cv_ptr it + length (cbor_head mt ?n), ?n), it1)"
    "get_string_chunk mem it1 = Inr (CborNoError, None, it2)" "stands mem it2 is" "cv_parser it2 = cv_parser it"
    "cv_ptr it2 = cv_ptr it + length (cbor_bytes i)" "bytes_at mem (cv_ptr it + length (cbor_head mt ?n)) (length bs) = Inr bs"
    by blast
  have str: "cbor_value_is_byte_string it \<or> cbor_value_is_text_string it" using s(1) assms(2) by (auto simp: type_tests)
  have loop: "iterate_chunks_loop mem func buflen buf 0 True it = Some (Inr (CborNoError, r, buf', ?n, it2))"
    if "?n \<le> buflen" "iterate func buf 0 (Inr bs) = Inr (r, buf')" for func buflen buf r buf'
    by (subst iterate_chunks_loop.simps, subst iterate_chunks_loop.simps) (simp add: c that u)
  have "iterate_string_chunks mem iterate_noop (- 1) [] it = Some (Inr (CborNoError, True, [], ?n, it2))"
    using str loop [of "- 1" iterate_noop "[]" True "[]"] by (simp add: iterate_string_chunks_def)
  then have first: "cbor_value_copy_string mem None (- 1) it = Some (Inr (CborNoError, None, ?n, it2))"
    by (simp add: cbor_value_copy_string_def)
  let ?new = "replicate (length bs + 1) 0 :: u8 list"
  have "drop (length bs) (0 # replicate (length bs) 0) = [0 :: u8]" by (simp flip: replicate_Suc) simp
  then have "iterate_string_chunks mem iterate_memcpy (?n + 1) ?new it = Some (Inr (CborNoError, True, bs @ [0], ?n, it2))"
    using str loop [OF le(1), of iterate_memcpy ?new True "bs @ [0]"] le(2) u by (simp add: iterate_string_chunks_def)
  then have "cbor_value_copy_string mem (Some ?new) (?n + 1) it = Some (Inr (CborNoError, Some (bs @ [0]), ?n, it2))"
    by (simp add: cbor_value_copy_string_def)
  then show ?thesis using first alloc u c(3-5) by (simp add: cbor_value_dup_string_def Let_def)
qed

lemma string_stands:
  assumes "stands mem it (i # is)" and "i = Item_bytes bs \<or> i = Item_text bs" and "\<And>n. alloc n"
  shows "\<not> cbor_value_is_container it" and "cbor_value_is_byte_string it \<or> cbor_value_is_text_string it"
    and "\<exists>it'. dump_string alloc mem it = Some (Inr (CborNoError, it', item_tokens i)) \<and> stands mem it' is \<and>
      cv_parser it' = cv_parser it \<and> cv_ptr it' = cv_ptr it + length (cbor_bytes i)"
proof -
  obtain mt :: u8 where mt: "i = Item_bytes bs \<and> mt = 0x40 \<or> i = Item_text bs \<and> mt = 0x60" using assms(2) by auto
  note ty = string_chunks_placed(1,2) [OF assms(1) mt]
  have "unat (of_nat (length bs) :: u64) = length bs" using ty(2) by (simp add: unsigned_of_nat take_bit_nat_eq_self)
  then show "\<not> cbor_value_is_container it" "cbor_value_is_byte_string it \<or> cbor_value_is_text_string it"
    "\<exists>it'. dump_string alloc mem it = Some (Inr (CborNoError, it', item_tokens i)) \<and> stands mem it' is \<and>
      cv_parser it' = cv_parser it \<and> cv_ptr it' = cv_ptr it + length (cbor_bytes i)"
    using dup_placed [OF assms(1) mt, of alloc] assms(3) ty(1) mt
    by (auto simp: type_tests dump_string_def cbor_value_dup_byte_string_def cbor_value_dup_text_string_def takeWhile_nul)
qed

lemma enter_stands:
  assumes "stands mem it (Item_array js # is)"
  shows "cv_type it = 0x80"
    and "\<exists>recursed. cbor_value_enter_container mem it = Inr (CborNoError, recursed) \<and> stands mem recursed js \<and>
      cv_parser recursed = cv_parser it \<and> cv_ptr recursed = cv_ptr it + length (cbor_head 0x80 (of_nat (length js)))"
proof -
  note k = standsD [OF assms]
  let ?h = "cbor_head 0x80 (of_nat (length js))"
  have p: "placed mem (cv_ptr it) ?h (cp_end (cv_parser it))" "placed mem (cv_ptr it + length ?h) (items_bytes js) (cp_end (cv_parser it))"
    using k(1) by (simp_all add: placed_append items_bytes_def)
  have ok: "\<forall>j \<in> set js. item_ok j" "length js < 0xFFFFFFFF" using k(2) by simp_all
  note h = head_placed(1,2) [OF p(1)]
  note a = at_head_known [OF k(3)]
  show ty: "cv_type it = 0x80" using a h(1) by (simp add: head_type_def)
  have f: "cv_flags it AND 4 = 0" using a h head_digit_le [of "of_nat (length js)"] by (auto simp: head_flags_def Let_def)
  have u: "unat (of_nat (length js) :: u64) = length js" "unat (of_nat (length js) :: u32) = length js"
    using ok(2) by (simp_all only: unsigned_of_nat) (simp_all add: take_bit_nat_eq_self)
  have r: "(ucast (of_nat (length js) :: u64) :: u32) = of_nat (length js)" "(ucast (of_nat (length js) :: u32) :: u64) = of_nat (length js)"
    using ok(2) by (simp_all add: word_unat_eq_iff u unsigned_ucast_eq take_bit_nat_eq_self)
  have ne: "(of_nat (length js) :: u64) \<noteq> 0xFFFFFFFF" "(of_nat (length js) :: u64) = 0 \<longleftrightarrow> js = []"
    using u(1) ok(2) by (auto simp: word_unat_eq_iff)
  let ?r = "it\<lparr>cv_ptr := cv_ptr it + length ?h, cv_remaining := of_nat (length js)\<rparr>"
  have e: "cbor_value_enter_container mem it =
      (if js = [] then Inr (CborNoError, ?r\<lparr>cv_type := 0xFF\<rparr>) else preparse_next_value_nodecrement mem ?r)"
    using head_extract [OF p(1)] ty f r ne by (simp add: cbor_value_enter_container_def type_tests flag_consts Let_def)
  show "\<exists>recursed. cbor_value_enter_container mem it = Inr (CborNoError, recursed) \<and> stands mem recursed js \<and>
      cv_parser recursed = cv_parser it \<and> cv_ptr recursed = cv_ptr it + length ?h"
  proof (cases "js = []")
    case True
    then show ?thesis using e p(2) by (simp add: stands_def)
  next
    case False
    then show ?thesis using e preparse_stands [of mem ?r js] p(2) ok by simp
  qed
qed

text \<open>The whole rest of a container is read.\<close>

lemma dump_stands:
  assumes alloc: "\<And>n. alloc n"
  shows "stands mem it is \<Longrightarrow> \<exists>it'. dumprecursive alloc mem it = Some (Inr (CborNoError, it', concat (map item_tokens is))) \<and>
    stands mem it' [] \<and> cv_parser it' = cv_parser it \<and> cv_ptr it' = cv_ptr it + length (items_bytes is)"
proof (induction "length (items_bytes is)" arbitrary: "is" it rule: less_induct)
  case less
  show ?case
  proof (cases "is")
    case Nil
    then show ?thesis using less.prems by (subst dumprecursive.simps) (simp add: stands_def cbor_value_at_end_def)
  next
    case (Cons i js)
    note st = less.prems [unfolded Cons]
    note k = standsD [OF st]
    have e: "\<not> cbor_value_at_end it" using k(4) by (simp add: cbor_value_at_end_def)
    have rest: "\<exists>it''. dumprecursive alloc mem it' = Some (Inr (CborNoError, it'', concat (map item_tokens js))) \<and> stands mem it'' [] \<and>
        cv_parser it'' = cv_parser it' \<and> cv_ptr it'' = cv_ptr it' + length (items_bytes js)" if "stands mem it' js" for it'
    proof (rule less.hyps [OF _ that])
      show "length (items_bytes js) < length (items_bytes is)" using cbor_bytes_nonempty [of i] Cons by auto
    qed
    have scalar: ?thesis if val: "dump_scalar mem it = Inr t" "item_tokens i = [t]" "is_fixed_type (cv_type it)" "cv_type it \<noteq> 0xC0"
      "cbor_value_extract_number mem (cv_ptr it) (cp_end (cv_parser it)) = Inr (CborNoError, cv_ptr it + length (cbor_bytes i), n)" for t n
    proof -
      obtain it1 where "cbor_value_advance_fixed mem it = Inr (CborNoError, it1)" "stands mem it1 js" "cv_parser it1 = cv_parser it"
        "cv_ptr it1 = cv_ptr it + length (cbor_bytes i)"
        using advance_stands [OF st val(5,3,4)] by blast
      moreover have "\<not> cbor_value_is_container it" "\<not> (cbor_value_is_byte_string it \<or> cbor_value_is_text_string it)"
        using val(3) by (auto simp: type_tests is_fixed_type_def)
      ultimately show ?thesis using rest [of it1] val(1,2) e Cons by (subst dumprecursive.simps) auto
    qed
    show ?thesis
    proof (cases i)
      case (Item_unsigned n)
      then show ?thesis using integer_scalar [OF st, of n] by (intro scalar [of "Dump_int n" n]) (auto simp: is_fixed_type_def)
    next
      case (Item_negative n)
      then show ?thesis using integer_scalar [OF st, of n] by (intro scalar [of "Dump_int (- n - 1)" n]) (auto simp: is_fixed_type_def)
    next
      case (Item_simple v)
      then show ?thesis using simple_scalar [of mem it v js] st by (intro scalar [of "simple_token v" "ucast v"]) auto
    next
      case (Item_double v)
      then show ?thesis using double_scalar [of mem it v js] st by (intro scalar [of "Dump_double v" v]) (auto simp: is_fixed_type_def)
    next
      case (Item_tag t j)
      note tag = tag_scalar [OF st [unfolded Item_tag]]
      obtain it1 where a: "cbor_value_advance_fixed mem it = Inr (CborNoError, it1)" "stands mem it1 (j # js)" "cv_parser it1 = cv_parser it"
        "cv_ptr it1 = cv_ptr it + length (cbor_head 0xC0 t)" using tag(3) by blast
      have "length (items_bytes (j # js)) < length (items_bytes is)" using length_cbor_head(1) [of "0xC0" t] Cons Item_tag by auto
      then obtain it2 where "dumprecursive alloc mem it1 = Some (Inr (CborNoError, it2, concat (map item_tokens (j # js))))" "stands mem it2 []"
        "cv_parser it2 = cv_parser it1" "cv_ptr it2 = cv_ptr it1 + length (items_bytes (j # js))"
        using less.hyps a(2) by blast
      then show ?thesis using a tag(1,2) e Cons Item_tag by (subst dumprecursive.simps) (simp add: type_tests)
    next
      case (Item_array es)
      note arr = enter_stands [OF st [unfolded Item_array]]
      obtain rec where r: "cbor_value_enter_container mem it = Inr (CborNoError, rec)" "stands mem rec es" "cv_parser rec = cv_parser it"
        "cv_ptr rec = cv_ptr it + length (cbor_head 0x80 (of_nat (length es)))" using arr(2) by blast
      have "length (items_bytes es) < length (items_bytes is)"
        using length_cbor_head(1) [of "0x80" "of_nat (length es)"] Cons Item_array by (auto simp: items_bytes_def)
      then obtain rec2 where d: "dumprecursive alloc mem rec = Some (Inr (CborNoError, rec2, concat (map item_tokens es)))" "stands mem rec2 []"
        "cv_parser rec2 = cv_parser rec" "cv_ptr rec2 = cv_ptr rec + length (items_bytes es)"
        using less.hyps r(2) by blast
      have q: "cv_ptr rec2 = cv_ptr it + length (cbor_bytes i)" using d(4) r(4) Item_array by (simp add: items_bytes_def)
      obtain it1 where l: "cbor_value_leave_container mem it rec2 = Inr (CborNoError, it1)" "stands mem it1 js" "cv_parser it1 = cv_parser it"
        "cv_ptr it1 = cv_ptr it + length (cbor_bytes i)"
        using next_stands [OF k(6,7,8,5)] arr(1) d(2) q by (auto simp: cbor_value_leave_container_def type_tests stands_def)
      then show ?thesis using rest [of it1] r d arr(1) e Cons Item_array
        by (subst dumprecursive.simps) (auto simp: type_tests dump_open_def)
    next
      case (Item_bytes bs)
      obtain it1 where "dump_string alloc mem it = Some (Inr (CborNoError, it1, item_tokens i))" "stands mem it1 js"
        "cv_parser it1 = cv_parser it" "cv_ptr it1 = cv_ptr it + length (cbor_bytes i)"
        using string_stands(3) [OF st, of bs alloc] Item_bytes alloc by auto
      then show ?thesis using rest [of it1] string_stands(1,2) [OF st, of bs alloc] Item_bytes alloc e Cons
        by (subst dumprecursive.simps) auto
    next
      case (Item_text bs)
      obtain it1 where "dump_string alloc mem it = Some (Inr (CborNoError, it1, item_tokens i))" "stands mem it1 js"
        "cv_parser it1 = cv_parser it" "cv_ptr it1 = cv_ptr it + length (cbor_bytes i)"
        using string_stands(3) [OF st, of bs alloc] Item_text alloc by auto
      then show ?thesis using rest [of it1] string_stands(1,2) [OF st, of bs alloc] Item_text alloc e Cons
        by (subst dumprecursive.simps) auto
    qed
  qed
qed

section \<open>The round trip\<close>

lemma init_stands:
  assumes "item_ok i" and "length (cbor_bytes i @ rest) < 2 ^ 63"
  shows "\<exists>it. cbor_parser_init (cbor_bytes i @ rest) 0 (length (cbor_bytes i @ rest)) 0 = Inr (CborNoError, it) \<and> stands (cbor_bytes i @ rest) it [i]"
proof -
  let ?m = "cbor_bytes i @ rest"
  let ?it = "\<lparr>cv_parser = \<lparr>cp_end = 0 + length ?m, cp_flags = 0\<rparr>, cv_ptr = 0, cv_remaining = 1, cv_extra = 0, cv_type = 0, cv_flags = 0\<rparr>"
  have p: "placed ?m 0 (cbor_bytes i) (length ?m)" using assms(2) by (simp add: placed_def in_memory_def)
  then have "preparse_value ?m ?it = Inr (CborNoError, at_head ?m ?it)"
    using preparse_spec [of ?m ?it] item_head_good [OF p assms(1)] by (simp add: placed_def)
  moreover have "stands ?m (at_head ?m ?it) [i]" using p assms(1) by (simp add: stands_def)
  ultimately show ?thesis unfolding cbor_parser_init_def by blast
qed

lemma reader_item:
  assumes "item_ok i" and "length (cbor_bytes i @ rest) < 2 ^ 63" and "\<And>n. alloc n"
  shows "simplereader alloc (Some (cbor_bytes i @ rest)) = Some (Inr (0, item_tokens i, None))"
proof -
  obtain it where it: "cbor_parser_init (cbor_bytes i @ rest) 0 (length (cbor_bytes i @ rest)) 0 = Inr (CborNoError, it)"
    "stands (cbor_bytes i @ rest) it [i]" using init_stands [OF assms(1,2)] by blast
  obtain it' where "dumprecursive alloc (cbor_bytes i @ rest) it = Some (Inr (CborNoError, it', item_tokens i))"
    using dump_stands [of alloc, OF _ it(2)] assms(3) by auto
  then show ?thesis using it(1) by (simp add: simplereader_def)
qed



end
